(* ===== verification/Prelude.thy ===== *)
theory Prelude
  imports Main "HOL-Library.Word"
begin

text \<open>
  The vocabulary that every component of the development shares.

  \<^item> A Python \<^verbatim>\<open>bytes\<close> or \<^verbatim>\<open>bytearray\<close> object is a list of \<^typ>\<open>char\<close>: an
    Isabelle character is exactly one of 256 values, so the type has neither more nor
    fewer elements than the Python one.
  \<^item> A Python \<^verbatim>\<open>str\<close> is a list of Unicode code points (\<^typ>\<open>nat\<close>); \<open>lit\<close> turns a
    literal of the source into such a list.
  \<^item> Python's unbounded integers are \<^typ>\<open>int\<close> (\<^typ>\<open>nat\<close> where the code can only
    ever hold a non-negative one).
  \<^item> An exception of the standard library is a value of \<open>exc\<close>, and a computation that
    may raise one returns \<open>Inl\<close>.

  The second half holds the index arithmetic of Python sequences (slices, \<^verbatim>\<open>find\<close>,
  \<^verbatim>\<open>split\<close>), ordered dictionaries as association lists, and the two locales under
  which every step relation of the development proves its invariants.
\<close>

section \<open>Types, literals and exceptions\<close>

type_synonym byte = char
type_synonym bytes = "char list"
type_synonym str = "nat list"

named_theorems re_unfold
  \<open>definitions of concrete patterns and character classes, unfolded to evaluate a match\<close>

named_theorems step_defs
  \<open>definitions of the operations of a state machine, unfolded in its step lemmas\<close>

definition lit :: "string \<Rightarrow> str" where
  "lit s = map of_char s"

datatype exc =
    ValueError
  | KeyError str
  | IndexError
  | TypeError
  | OverflowError
  | AssertionError
  | UnicodeDecodeError
  | UnicodeEncodeError
  | RuntimeError
  | QueueFull
  | FileNotFoundError
  | AttributeError

text \<open>Sequencing of computations that may fail: the first error wins.\<close>

fun bindE :: "'e + 'a \<Rightarrow> ('a \<Rightarrow> 'e + 'b) \<Rightarrow> 'e + 'b" where
  "bindE (Inl e) f = Inl e"
| "bindE (Inr x) f = f x"

text \<open>\<open>assert c\<close> of the source, as a computation.\<close>

definition guardE :: "bool \<Rightarrow> 'e \<Rightarrow> 'e + unit" where
  "guardE c e = (if c then Inr () else Inl e)"

section \<open>Python sequences\<close>

text \<open>
  The position a slice bound stands for in a sequence of length \<open>n\<close>: a negative bound
  counts from the end, and the result is clipped to the sequence.
\<close>

definition clip :: "nat \<Rightarrow> int \<Rightarrow> nat" where
  "clip n i = (let j = (if i < 0 then i + int n else i)
               in if j < 0 then 0 else min n (nat j))"

definition py_slice :: "'a list \<Rightarrow> int \<Rightarrow> int \<Rightarrow> 'a list" where
  "py_slice xs i j = take (clip (length xs) j - clip (length xs) i) (drop (clip (length xs) i) xs)"

text \<open>\<^verbatim>\<open>xs.find(x, i, j)\<close> for a single element; Python's \<open>-1\<close> is \<^const>\<open>None\<close>.\<close>

definition py_find :: "'a list \<Rightarrow> 'a \<Rightarrow> int \<Rightarrow> int \<Rightarrow> nat option" where
  "py_find xs x i j =
     (let w = py_slice xs i j; t = takeWhile (\<lambda>y. y \<noteq> x) w
      in if length t < length w then Some (clip (length xs) i + length t) else None)"

text \<open>\<^verbatim>\<open>s.split(sep, maxsplit)\<close> with a one-element separator.\<close>

primrec py_split :: "'a \<Rightarrow> nat \<Rightarrow> 'a list \<Rightarrow> 'a list list" where
  "py_split x 0 s = [s]"
| "py_split x (Suc n) s =
     (case dropWhile (\<lambda>y. y \<noteq> x) s of
        [] \<Rightarrow> [s]
      | _ # rest \<Rightarrow> takeWhile (\<lambda>y. y \<noteq> x) s # py_split x n rest)"

text \<open>
  A dictionary that keeps insertion order: an association list. \<open>dict_set\<close> is
  \<^verbatim>\<open>d[k] = v\<close> (an existing key keeps its position) and \<open>dict_add\<close> is
  \<^verbatim>\<open>if k not in d: d[k] = v\<close>.
\<close>

fun dict_set :: "'k \<Rightarrow> 'v \<Rightarrow> ('k \<times> 'v) list \<Rightarrow> ('k \<times> 'v) list" where
  "dict_set k v [] = [(k, v)]"
| "dict_set k v ((k', v') # d) = (if k = k' then (k, v) # d else (k', v') # dict_set k v d)"

definition dict_add :: "'k \<Rightarrow> 'v \<Rightarrow> ('k \<times> 'v) list \<Rightarrow> ('k \<times> 'v) list" where
  "dict_add k v d = (if map_of d k = None then d @ [(k, v)] else d)"

fun dict_pop :: "'k \<Rightarrow> ('k \<times> 'v) list \<Rightarrow> ('k \<times> 'v) list" where
  "dict_pop k [] = []"
| "dict_pop k ((k', v') # d) = (if k = k' then d else (k', v') # dict_pop k d)"

text \<open>\<^verbatim>\<open>d.get(k, default)\<close>.\<close>

definition dict_get :: "'k \<Rightarrow> 'v \<Rightarrow> ('k \<times> 'v) list \<Rightarrow> 'v" where
  "dict_get k v d = (case map_of d k of None \<Rightarrow> v | Some x \<Rightarrow> x)"

section \<open>Lemmas on literals and errors\<close>

lemma lit_simps [simp]:
  "lit [] = []"
  "lit (c # cs) = of_char c # lit cs"
  by (simp_all add: lit_def)

lemma length_lit [simp]: "length (lit s) = length s"
  by (simp add: lit_def)

lemma lit_eq_iff: "lit s = lit t \<longleftrightarrow> s = t"
  by (auto simp: lit_def inj_map_eq_map inj_def)

lemma lit_append: "lit s @ lit t = lit (s @ t)"
  by (simp add: lit_def)

lemma lit_Nil_iff: "lit s = [] \<longleftrightarrow> s = []" "[] = lit s \<longleftrightarrow> s = []"
  by (auto simp: lit_def)

lemma of_char_less_256 [simp]: "(of_char c :: nat) < 256"
  by (cases c) simp

lemma of_char_eq_nat_iff [simp]: "((of_char c :: nat) = of_char d) = (c = d)"
  by (rule of_char_eq_iff)

lemma bindE_eq_Inr_conv: "bindE m f = Inr y \<longleftrightarrow> (\<exists>x. m = Inr x \<and> f x = Inr y)"
  by (cases m) auto

lemma bindE_eq_Inl_conv: "bindE m f = Inl e \<longleftrightarrow> m = Inl e \<or> (\<exists>x. m = Inr x \<and> f x = Inl e)"
  by (cases m) auto

lemma guardE_eq_Inr [simp]: "guardE c e = Inr u \<longleftrightarrow> c"
  by (simp add: guardE_def)

lemma guardE_eq_Inl [simp]: "guardE c e = Inl e' \<longleftrightarrow> \<not> c \<and> e' = e"
  by (auto simp: guardE_def)

lemma guardE_True [simp]: "guardE True e = Inr ()"
  by (simp add: guardE_def)

section \<open>Lemmas on Python sequences\<close>

lemma clip_nonneg [simp]: "0 \<le> i \<Longrightarrow> clip n i = min n (nat i)"
  by (simp add: clip_def)

lemma clip_le: "clip n i \<le> n"
  by (simp add: clip_def Let_def)

lemma py_slice_nat:
  "py_slice xs (int i) (int j) = take (min (length xs) j - min (length xs) i) (drop (min (length xs) i) xs)"
  by (simp add: py_slice_def)

lemma py_slice_inside:
  "i \<le> j \<Longrightarrow> j \<le> length xs \<Longrightarrow> py_slice xs (int i) (int j) = take (j - i) (drop i xs)"
  by (simp add: py_slice_nat min_def)

lemma take_takeWhile_length: "take (length (takeWhile P xs)) xs = takeWhile P xs"
  by (metis takeWhile_eq_take)

lemma takeWhile_shorter: "length (takeWhile P xs) < length xs \<longleftrightarrow> (\<exists>x\<in>set xs. \<not> P x)"
proof -
  have "length (takeWhile P xs) < length xs \<longleftrightarrow> takeWhile P xs \<noteq> xs"
    by (metis le_neq_implies_less length_takeWhile_le nat_neq_iff takeWhile_eq_take
        take_all_iff order_refl)
  then show ?thesis by (auto simp: takeWhile_eq_all_conv)
qed

lemma py_find_bounds:
  assumes "py_find xs x i j = Some n"
  shows "clip (length xs) i \<le> n" and "n < clip (length xs) j" and "xs ! n = x"
proof -
  define a where "a = clip (length xs) i"
  define b where "b = clip (length xs) j"
  define w where "w = take (b - a) (drop a xs)"
  have w: "py_slice xs i j = w"
    by (simp add: py_slice_def w_def a_def b_def)
  from assms have lt: "length (takeWhile (\<lambda>y. y \<noteq> x) w) < length w"
    and n: "n = a + length (takeWhile (\<lambda>y. y \<noteq> x) w)"
    by (simp_all add: py_find_def w Let_def a_def split: if_splits)
  show "clip (length xs) i \<le> n" by (simp add: n a_def)
  have "length w \<le> b - a" by (simp add: w_def)
  with lt n show "n < clip (length xs) j" by (simp add: b_def)
  have "w ! length (takeWhile (\<lambda>y. y \<noteq> x) w) = x"
    using nth_length_takeWhile [OF lt] by simp
  moreover have "b \<le> length xs" by (simp add: b_def clip_le)
  ultimately show "xs ! n = x"
    using lt n by (simp add: w_def)
qed

lemma py_find_None_iff:
  "py_find xs x i j = None \<longleftrightarrow> x \<notin> set (py_slice xs i j)"
  by (auto simp: py_find_def Let_def takeWhile_shorter)

lemma py_find_append:
  "py_find (xs @ x # ys) x (int i) j = Some (length xs)"
  if "i \<le> length xs" and "x \<notin> set (drop i xs)" and "int (length xs) < j"
proof -
  define n where "n = clip (length (xs @ x # ys)) j"
  have n: "length xs < n" "n \<le> length (xs @ x # ys)"
    using that(3) by (auto simp: n_def clip_def)
  have "py_slice (xs @ x # ys) (int i) j = take (n - i) (drop i xs @ x # ys)"
    using that(1) by (simp add: py_slice_def n_def)
  also have "\<dots> = drop i xs @ x # take (n - length xs - 1) ys"
    using that(1) n(1) by (simp add: take_Cons' not_le)
  finally have w: "py_slice (xs @ x # ys) (int i) j = drop i xs @ x # take (n - length xs - 1) ys" .
  have "takeWhile (\<lambda>y. y \<noteq> x) (drop i xs @ x # take (n - length xs - 1) ys) = drop i xs"
    using that(2) by (subst takeWhile_append2) auto
  with that(1) show ?thesis
    by (simp add: py_find_def w)
qed

lemma py_split_length: "length (py_split x n s) \<le> Suc n"
  by (induction n arbitrary: s) (auto split: list.splits)

lemma dropWhile_no_sep: "x \<notin> set s \<Longrightarrow> dropWhile (\<lambda>y. y \<noteq> x) s = []"
  by (induction s) auto

lemma dropWhile_sep: "x \<notin> set s \<Longrightarrow> dropWhile (\<lambda>y. y \<noteq> x) (s @ x # t) = x # t"
  by (induction s) auto

lemma takeWhile_sep: "x \<notin> set s \<Longrightarrow> takeWhile (\<lambda>y. y \<noteq> x) (s @ x # t) = s"
  by (induction s) auto

lemma py_split_no_sep: "x \<notin> set s \<Longrightarrow> py_split x n s = [s]"
  by (cases n) (simp_all add: dropWhile_no_sep)

lemma py_split_append:
  "x \<notin> set s \<Longrightarrow> py_split x (Suc n) (s @ x # t) = s # py_split x n t"
  by (simp add: dropWhile_sep takeWhile_sep)

section \<open>Lemmas on dictionaries\<close>

lemma map_of_dict_set [simp]: "map_of (dict_set k v d) = (map_of d)(k \<mapsto> v)"
  by (induction d) (auto simp: fun_eq_iff)

lemma dict_set_keys: "fst ` set (dict_set k v d) = insert k (fst ` set d)"
  by (induction k v d rule: dict_set.induct) auto

lemma dict_set_distinct: "distinct (map fst d) \<Longrightarrow> distinct (map fst (dict_set k v d))"
proof (induction d)
  case (Cons p d)
  then show ?case
    using dict_set_keys [of k v d] by (cases p) auto
qed simp

lemma length_dict_set: "length (dict_set k v d) \<le> Suc (length d)"
  by (induction d) auto

lemma dict_pop_subset: "set (dict_pop k d) \<subseteq> set d"
  by (induction k d rule: dict_pop.induct) auto

lemma dict_pop_distinct: "distinct (map fst d) \<Longrightarrow> distinct (map fst (dict_pop k d))"
proof (induction d)
  case (Cons p d)
  then show ?case
    using dict_pop_subset [of k d] by (cases p) force
qed simp

lemma map_of_dict_pop [simp]:
  "distinct (map fst d) \<Longrightarrow> map_of (dict_pop k d) = (map_of d)(k := None)"
proof (induction d)
  case (Cons p d)
  then show ?case
    by (cases p) (force simp: fun_eq_iff map_of_eq_None_iff)
qed (simp add: fun_eq_iff)

lemma dict_add_new: "k \<notin> fst ` set d \<Longrightarrow> dict_add k v d = d @ [(k, v)]"
  by (simp add: dict_add_def map_of_eq_None_iff)

lemma dict_add_distinct: "distinct (map fst d) \<Longrightarrow> distinct (map fst (dict_add k v d))"
  by (auto simp: dict_add_def map_of_eq_None_iff)

section \<open>Calls of other packages\<close>

text \<open>
  A coroutine that calls other packages: the calls in their order, and the exception or the value
  at the end. Which calls raise, and what, is an argument.
\<close>

type_synonym ('c, 'e, 'a) calling = "'c list \<times> ('e + 'a)"

definition call :: "('c \<Rightarrow> 'e option) \<Rightarrow> 'c \<Rightarrow> ('c, 'e, unit) calling" where
  "call answers c = ([c], case answers c of None \<Rightarrow> Inr () | Some e \<Rightarrow> Inl e)"

definition value_of :: "'e + 'a \<Rightarrow> ('c, 'e, 'a) calling" where
  "value_of r = ([], r)"

definition andthen :: "('c, 'e, 'a) calling \<Rightarrow> ('a \<Rightarrow> ('c, 'e, 'b) calling) \<Rightarrow> ('c, 'e, 'b) calling" where
  "andthen m k =
     (case m of
        (cs, Inl e) \<Rightarrow> (cs, Inl e)
      | (cs, Inr a) \<Rightarrow> (case k a of (ds, r) \<Rightarrow> (cs @ ds, r)))"

text \<open>The end of a context manager: the calls of its exit are made however the body ends.\<close>

definition leaving :: "('c, 'e, 'a) calling \<Rightarrow> 'c list \<Rightarrow> ('c, 'e, 'a) calling" where
  "leaving m calls = (case m of (cs, r) \<Rightarrow> (cs @ calls, r))"

text \<open>Calls one after the other; the first one that raises ends them.\<close>

fun run_calls :: "('c \<Rightarrow> 'e option) \<Rightarrow> 'c list \<Rightarrow> 'c list \<times> 'e option" where
  "run_calls answers [] = ([], None)"
| "run_calls answers (c # cs) =
     (case answers c of
        Some e \<Rightarrow> ([c], Some e)
      | None \<Rightarrow> (let (done, e) = run_calls answers cs in (c # done, e)))"

definition call_all :: "('c \<Rightarrow> 'e option) \<Rightarrow> 'c list \<Rightarrow> ('c, 'e, unit) calling" where
  "call_all answers cs =
     (case run_calls answers cs of (done, failed) \<Rightarrow> (done, case failed of None \<Rightarrow> Inr () | Some e \<Rightarrow> Inl e))"

lemma andthen_calls:
  "c \<in> set (fst (andthen m k)) \<longleftrightarrow> c \<in> set (fst m) \<or> (\<exists>a. snd m = Inr a \<and> c \<in> set (fst (k a)))"
  by (cases m) (auto simp: andthen_def split: sum.splits prod.splits)

lemma andthen_value: "snd (andthen m k) = Inr b \<longleftrightarrow> (\<exists>a. snd m = Inr a \<and> snd (k a) = Inr b)"
  by (cases m) (auto simp: andthen_def split: sum.splits prod.splits)

lemma andthen_fst: "snd m = Inr a \<Longrightarrow> fst (andthen m k) = fst m @ fst (k a)"
  by (cases m) (auto simp: andthen_def split: prod.splits)

lemma andthen_quiet: "fst (andthen m (\<lambda>a. value_of (k a))) = fst m"
  by (cases m) (auto simp: andthen_def value_of_def split: sum.splits)

lemma andthen_value_of [simp]: "andthen (value_of (Inr a)) k = k a" "andthen (value_of (Inl e)) k = value_of (Inl e)"
  by (simp_all add: andthen_def value_of_def)

lemma andthen_assoc: "andthen (andthen m f) g = andthen m (\<lambda>a. andthen (f a) g)"
  by (cases m; cases "snd m") (auto simp: andthen_def split: prod.splits sum.splits)

lemma call_simps [simp]: "fst (call answers c) = [c]" "snd (call answers c) = Inr u \<longleftrightarrow> answers c = None"
  by (auto simp: call_def split: option.splits)

lemma value_of_simps [simp]: "fst (value_of r) = []" "snd (value_of r) = r"
  by (simp_all add: value_of_def)

lemma leaving_simps [simp]: "fst (leaving m calls) = fst m @ calls" "snd (leaving m calls) = snd m"
  by (simp_all add: leaving_def split: prod.splits)

lemma map_sum_Inr [simp]: "map_sum f id r = Inr a \<longleftrightarrow> r = Inr a"
  by (cases r) auto

lemma run_calls_None: "run_calls answers cs = (calls, None) \<Longrightarrow> calls = cs \<and> (\<forall>c\<in>set cs. answers c = None)"
  by (induction cs arbitrary: calls) (auto split: option.splits prod.splits)

lemma run_calls_answered: "(\<And>c. answers c = None) \<Longrightarrow> run_calls answers cs = (cs, None)"
  by (induction cs) simp_all

lemma run_calls_Some:
  "run_calls answers cs = (calls, Some e) \<Longrightarrow> \<exists>rest. cs = calls @ rest \<and> calls \<noteq> [] \<and> answers (last calls) = Some e"
  by (induction cs arbitrary: calls) (auto split: option.splits prod.splits)

lemma run_calls_append:
  "run_calls answers (cs @ ds) =
     (case run_calls answers cs of
        (done, Some e) \<Rightarrow> (done, Some e)
      | (done, None) \<Rightarrow> (case run_calls answers ds of (more, e) \<Rightarrow> (done @ more, e)))"
  by (induction cs) (auto split: option.splits prod.splits)

text \<open>Calls that follow one another without a decision between them are one list of calls.\<close>

lemma call_all_append: "andthen (call_all answers cs) (\<lambda>_. call_all answers ds) = call_all answers (cs @ ds)"
  by (cases "run_calls answers cs"; cases "snd (run_calls answers cs)"; cases "run_calls answers ds")
    (simp_all add: call_all_def andthen_def run_calls_append)

lemma call_all_single: "call answers c = call_all answers [c]"
  by (simp add: call_def call_all_def split: option.splits)

lemma call_all_calls: "c \<in> set (fst (call_all answers cs)) \<Longrightarrow> c \<in> set cs"
proof (cases "run_calls answers cs")
  case (Pair calls failed)
  assume "c \<in> set (fst (call_all answers cs))"
  with Pair run_calls_None [of answers cs calls] run_calls_Some [of answers cs calls] show ?thesis
    by (cases failed) (auto simp: call_all_def)
qed

lemma call_all_Inr: "call_all answers cs = (ds, Inr u) \<longleftrightarrow> ds = cs \<and> (\<forall>c\<in>set cs. answers c = None)"
proof (cases "run_calls answers cs")
  case (Pair calls failed)
  have "run_calls answers cs = (cs, None)" if "\<forall>c\<in>set cs. answers c = None"
    using that by (induction cs) simp_all
  with Pair run_calls_None [of answers cs calls] show ?thesis
    by (cases failed) (auto simp: call_all_def simp del: not_None_eq)
qed

text \<open>Calls that end with an exception: all but the last were made without one.\<close>

lemma run_calls_butlast: "run_calls answers cs = (ds, Some e) \<Longrightarrow> c \<in> set (butlast ds) \<Longrightarrow> answers c = None"
  by (induction cs arbitrary: ds) (auto split: option.splits prod.splits if_splits)

lemma call_all_Inl:
  assumes "call_all answers cs = (ds, Inl e)"
  shows "\<exists>rest. cs = ds @ rest \<and> ds \<noteq> [] \<and> answers (last ds) = Some e \<and> (\<forall>c\<in>set (butlast ds). answers c = None)"
proof -
  have r: "run_calls answers cs = (ds, Some e)"
    using assms by (cases "run_calls answers cs"; cases "snd (run_calls answers cs)") (simp_all add: call_all_def)
  from run_calls_Some [OF r] run_calls_butlast [OF r] show ?thesis by blast
qed

section \<open>Step relations and their invariants\<close>

text \<open>
  The interface between a component whose operations interleave and its safety
  proofs: the initial states and the steps of the component, from which the reachable
  states follow. \<open>inductive_invariant\<close> adds a predicate that the start establishes and
  every step keeps; the conclusion, that it holds in every reachable state, is proved
  here once and reaches the components through an interpretation each.
\<close>

inductive reaches :: "('s \<Rightarrow> bool) \<Rightarrow> ('s \<Rightarrow> 's \<Rightarrow> bool) \<Rightarrow> 's \<Rightarrow> bool"
  for init :: "'s \<Rightarrow> bool" and step :: "'s \<Rightarrow> 's \<Rightarrow> bool" where
  reaches_init: "init s \<Longrightarrow> reaches init step s"
| reaches_step: "reaches init step s \<Longrightarrow> step s t \<Longrightarrow> reaches init step t"

locale transition_system =
  fixes init :: "'s \<Rightarrow> bool" and step :: "'s \<Rightarrow> 's \<Rightarrow> bool"
begin

lemma reaches_steps:
  assumes "step\<^sup>*\<^sup>* s t" and "reaches init step s"
  shows "reaches init step t"
  using assms by (induction rule: rtranclp_induct) (auto intro: reaches_step)

end

locale inductive_invariant = transition_system +
  fixes inv :: "'s \<Rightarrow> bool"
  assumes init_inv: "init s \<Longrightarrow> inv s"
    and step_inv: "inv s \<Longrightarrow> step s t \<Longrightarrow> inv t"
begin

lemma reaches_inv: "reaches init step s \<Longrightarrow> inv s"
  by (induction rule: reaches.induct) (auto intro: init_inv step_inv)

lemma steps_inv: "step\<^sup>*\<^sup>* s t \<Longrightarrow> inv s \<Longrightarrow> inv t"
  by (induction rule: rtranclp_induct) (auto intro: step_inv)

end

end
