(* ===== verification/Composition.thy ===== *)
theory Composition
  imports Prelude
begin

text \<open>
  Two components that run concurrently and share a part of their states. Each has steps of its own;
  what a step of one changes in the shared part, the other one sees at once. Each component was
  verified alone, against an environment that may do certain things to the shared part; the locale
  says what has to be shown so that all of this holds when the other component is that environment.
\<close>

inductive par_step ::
  "('a \<Rightarrow> 'a \<Rightarrow> bool) \<Rightarrow> ('a \<Rightarrow> 'a \<Rightarrow> 'b \<Rightarrow> 'b) \<Rightarrow> ('b \<Rightarrow> 'b \<Rightarrow> bool) \<Rightarrow> ('b \<Rightarrow> 'b \<Rightarrow> 'a \<Rightarrow> 'a) \<Rightarrow>
   'a \<times> 'b \<Rightarrow> 'a \<times> 'b \<Rightarrow> bool"
  for own1 seen1 own2 seen2 where
  par_first: "own1 a a' \<Longrightarrow> par_step own1 seen1 own2 seen2 (a, b) (a', seen1 a a' b)"
| par_second: "own2 b b' \<Longrightarrow> par_step own1 seen1 own2 seen2 (a, b) (seen2 b b' a, b')"

inductive_cases par_stepE: "par_step own1 seen1 own2 seen2 (a, b) (a', b')"

locale composition =
  one: inductive_invariant init1 step1 inv1 + two: inductive_invariant init2 step2 inv2
  for init1 :: "'a \<Rightarrow> bool" and step1 :: "'a \<Rightarrow> 'a \<Rightarrow> bool" and inv1 :: "'a \<Rightarrow> bool"
    and init2 :: "'b \<Rightarrow> bool" and step2 :: "'b \<Rightarrow> 'b \<Rightarrow> bool" and inv2 :: "'b \<Rightarrow> bool" +
  fixes own1 :: "'a \<Rightarrow> 'a \<Rightarrow> bool" and seen1 :: "'a \<Rightarrow> 'a \<Rightarrow> 'b \<Rightarrow> 'b"
    and own2 :: "'b \<Rightarrow> 'b \<Rightarrow> bool" and seen2 :: "'b \<Rightarrow> 'b \<Rightarrow> 'a \<Rightarrow> 'a"
    and link :: "'a \<Rightarrow> 'b \<Rightarrow> bool"
  assumes own1_step: "own1 a a' \<Longrightarrow> step1 a a'" and own2_step: "own2 b b' \<Longrightarrow> step2 b b'"
    and own1_seen: "inv1 a \<Longrightarrow> inv2 b \<Longrightarrow> link a b \<Longrightarrow> own1 a a' \<Longrightarrow>
      step2\<^sup>*\<^sup>* b (seen1 a a' b) \<and> link a' (seen1 a a' b)"
    and own2_seen: "inv1 a \<Longrightarrow> inv2 b \<Longrightarrow> link a b \<Longrightarrow> own2 b b' \<Longrightarrow>
      step1\<^sup>*\<^sup>* a (seen2 b b' a) \<and> link (seen2 b b' a) b'"
begin

definition joint :: "'a \<times> 'b \<Rightarrow> bool" where
  "joint p \<longleftrightarrow> inv1 (fst p) \<and> inv2 (snd p) \<and> link (fst p) (snd p)"

text \<open>A step of the whole is a sequence of steps for each of the parts.\<close>

lemma par_step_parts:
  assumes "par_step own1 seen1 own2 seen2 p p'" and "joint p"
  shows "step1\<^sup>*\<^sup>* (fst p) (fst p') \<and> step2\<^sup>*\<^sup>* (snd p) (snd p') \<and> joint p'"
  using assms(1)
proof cases
  case (par_first a a' b)
  with assms(2) have "step1 a a'" "step2\<^sup>*\<^sup>* b (seen1 a a' b)" "link a' (seen1 a a' b)"
    using own1_step own1_seen by (auto simp: joint_def)
  with par_first assms(2) show ?thesis
    using one.step_inv two.steps_inv by (auto simp: joint_def)
next
  case (par_second b b' a)
  with assms(2) have "step2 b b'" "step1\<^sup>*\<^sup>* a (seen2 b b' a)" "link (seen2 b b' a) b'"
    using own2_step own2_seen by (auto simp: joint_def)
  with par_second assms(2) show ?thesis
    using two.step_inv one.steps_inv by (auto simp: joint_def)
qed

lemma par_steps_parts:
  assumes "(par_step own1 seen1 own2 seen2)\<^sup>*\<^sup>* p p'" and "joint p"
  shows "step1\<^sup>*\<^sup>* (fst p) (fst p') \<and> step2\<^sup>*\<^sup>* (snd p) (snd p') \<and> joint p'"
  using assms
proof (induction rule: rtranclp_induct)
  case (step p' p'')
  with par_step_parts [of p' p''] show ?case by (meson rtranclp_trans)
qed simp

end

end
