(* ===== verification/Regex.thy ===== *)
theory Regex
  imports Prelude
begin

text \<open>
  The part of Python's regular expressions that the program uses, as data, and a
  backtracking matcher for them. Every pattern of the source is a term of type \<open>'a re\<close>
  that mirrors it constructor by constructor; \<open>re_match\<close>, \<open>re_search\<close>, \<open>re_split\<close> and
  \<open>re_sub\<close> are the methods of a compiled pattern that the source calls.

  The lemmas of the second half reduce a match to a deterministic scan: a greedy
  repetition of a character class takes the longest run whenever what follows cannot
  start inside the run, and a repeated deterministic pattern is an iterated scan. The
  components use them to replace each pattern of the program by a scanner.
\<close>

section \<open>Patterns and the matcher\<close>

text \<open>
  \<open>Rep r lo hi\<close> is the greedy \<^verbatim>\<open>r{lo,hi}\<close>, \<open>Plus r\<close> is \<^verbatim>\<open>r+\<close>, \<open>Grp i r\<close> captures group
  \<open>i\<close>, \<open>EndZ\<close> is \<^verbatim>\<open>\\Z\<close>. \<open>Dollar\<close> is \<^verbatim>\<open>$\<close> without the MULTILINE flag, which also matches
  before a newline that ends the text; \<open>Bol\<close> and \<open>Eol\<close> are \<^verbatim>\<open>^\<close> and \<^verbatim>\<open>$\<close> with that flag.
  \<open>NotAhead\<close> and \<open>NotBehind\<close> are \<^verbatim>\<open>(?!c)\<close> and \<^verbatim>\<open>(?<!c)\<close> for a one-character class.
\<close>

datatype 'a re =
    Cls "'a \<Rightarrow> bool"
  | Eps
  | Cat "'a re" "'a re"
  | Alt "'a re" "'a re"
  | Rep "'a re" nat nat
  | Plus "'a re"
  | Grp nat "'a re"
  | EndZ
  | Dollar 'a
  | Bol 'a
  | Eol 'a
  | NotAhead "'a \<Rightarrow> bool"
  | NotBehind "'a \<Rightarrow> bool"

text \<open>
  What is still to be matched: a pattern, or the end of a group that was opened when the
  remaining text was the given one.
\<close>

datatype 'a item = Run "'a re" | Close nat "'a list"

type_synonym 'a caps = "nat \<Rightarrow> 'a list option"

fun re_weight :: "nat \<Rightarrow> 'a re \<Rightarrow> nat" where
  "re_weight n (Cat a b) = Suc (Suc (re_weight n a + re_weight n b))"
| "re_weight n (Alt a b) = Suc (re_weight n a + re_weight n b)"
| "re_weight n (Rep r lo hi) = Suc (hi * Suc (Suc (re_weight n r)))"
| "re_weight n (Plus r) = Suc (Suc (Suc n * Suc (Suc (re_weight n r))))"
| "re_weight n (Grp i r) = Suc (Suc (Suc (re_weight n r)))"
| "re_weight n r = 0"

fun item_weight :: "nat \<Rightarrow> 'a item \<Rightarrow> nat" where
  "item_weight n (Run r) = Suc (re_weight n r)"
| "item_weight n (Close i t) = Suc 0"

text \<open>
  The matcher: a stack of items still to be matched, the consumed text (reversed, for the
  assertions that look back), the remaining text and the captures. The first branch that
  lets the whole stack succeed wins, which is the order in which Python's backtracking
  engine tries them: the left alternative first, one more repetition before one fewer.
  \<^verbatim>\<open>r+\<close> is tried with at most one more repetition than the remaining text has elements, which
  is no restriction for a pattern \<open>r\<close> that never matches the empty text.
\<close>

function (sequential) rmatch ::
  "'a item list \<Rightarrow> 'a list \<Rightarrow> 'a list \<Rightarrow> 'a caps \<Rightarrow> ('a list \<times> 'a list \<times> 'a caps) option" where
  "rmatch [] p s c = Some (p, s, c)"
| "rmatch (Run (Cls P) # k) p [] c = None"
| "rmatch (Run (Cls P) # k) p (x # s) c = (if P x then rmatch k (x # p) s c else None)"
| "rmatch (Run Eps # k) p s c = rmatch k p s c"
| "rmatch (Run (Cat a b) # k) p s c = rmatch (Run a # Run b # k) p s c"
| "rmatch (Run (Alt a b) # k) p s c =
     (case rmatch (Run a # k) p s c of None \<Rightarrow> rmatch (Run b # k) p s c | Some r \<Rightarrow> Some r)"
| "rmatch (Run (Rep r lo hi) # k) p s c =
     (if hi = 0 then if lo = 0 then rmatch k p s c else None
      else if 0 < lo then rmatch (Run r # Run (Rep r (lo - 1) (hi - 1)) # k) p s c
      else (case rmatch (Run r # Run (Rep r 0 (hi - 1)) # k) p s c of
              None \<Rightarrow> rmatch k p s c | Some m \<Rightarrow> Some m))"
| "rmatch (Run (Plus r) # k) p s c = rmatch (Run (Rep r 1 (Suc (length s))) # k) p s c"
| "rmatch (Run (Grp i r) # k) p s c = rmatch (Run r # Close i s # k) p s c"
| "rmatch (Close i t # k) p s c = rmatch k p s (c(i \<mapsto> take (length t - length s) t))"
| "rmatch (Run EndZ # k) p s c = (if s = [] then rmatch k p s c else None)"
| "rmatch (Run (Dollar nl) # k) p s c = (if s = [] \<or> s = [nl] then rmatch k p s c else None)"
| "rmatch (Run (Bol nl) # k) p s c =
     (if p = [] \<or> hd p = nl then rmatch k p s c else None)"
| "rmatch (Run (Eol nl) # k) p s c =
     (if s = [] \<or> hd s = nl then rmatch k p s c else None)"
| "rmatch (Run (NotAhead P) # k) p s c =
     (if s \<noteq> [] \<and> P (hd s) then None else rmatch k p s c)"
| "rmatch (Run (NotBehind P) # k) p s c =
     (if p \<noteq> [] \<and> P (hd p) then None else rmatch k p s c)"
  by pat_completeness auto
termination
  by (relation "measures [\<lambda>(k, p, s, c). length s,
        \<lambda>(k, p, s, c). sum_list (map (item_weight (length s)) k)]")
     (auto simp: gr0_conv_Suc)

text \<open>\<^verbatim>\<open>pattern.match(s)\<close>: the text after the match and the captured groups.\<close>

definition re_match :: "'a re \<Rightarrow> 'a list \<Rightarrow> ('a list \<times> 'a caps) option" where
  "re_match r s = map_option snd (rmatch [Run r] [] s (\<lambda>_. None))"

abbreviation Opt :: "'a re \<Rightarrow> 'a re" where
  "Opt r \<equiv> Rep r 0 (Suc 0)"

definition Lit :: "'a \<Rightarrow> 'a re" where
  "Lit x = Cls (\<lambda>y. y = x)"

text \<open>
  \<^verbatim>\<open>pattern.search(s)\<close>: the leftmost match, as the text before it, the matched text and
  the groups.
\<close>

function re_search_from :: "'a re \<Rightarrow> 'a list \<Rightarrow> 'a list \<Rightarrow> ('a list \<times> 'a list) option" where
  "re_search_from r p s =
     (case rmatch [Run r] p s (\<lambda>_. None) of
        Some (_, t, _) \<Rightarrow> Some (rev p, take (length s - length t) s)
      | None \<Rightarrow> (case s of [] \<Rightarrow> None | x # xs \<Rightarrow> re_search_from r (x # p) xs))"
  by pat_completeness auto
termination
  by (relation "measure (\<lambda>(r, p, s). length s)") auto

definition re_search :: "'a re \<Rightarrow> 'a list \<Rightarrow> ('a list \<times> 'a list) option" where
  "re_search r s = re_search_from r [] s"

text \<open>
  \<^verbatim>\<open>pattern.split(s)\<close> for a pattern without groups that never matches the empty text:
  \<open>acc\<close> is the piece read so far, reversed.
\<close>

function re_split_from :: "'a re \<Rightarrow> 'a list \<Rightarrow> 'a list \<Rightarrow> 'a list list" where
  "re_split_from r acc s =
     (case s of
        [] \<Rightarrow> [rev acc]
      | x # xs \<Rightarrow>
          (case re_match r s of
             Some (t, _) \<Rightarrow> if length t < length s then rev acc # re_split_from r [] t
                           else re_split_from r (x # acc) xs
           | None \<Rightarrow> re_split_from r (x # acc) xs))"
  by pat_completeness auto
termination
  by (relation "measure (\<lambda>(r, acc, s). length s)") auto

definition re_split :: "'a re \<Rightarrow> 'a list \<Rightarrow> 'a list list" where
  "re_split r s = re_split_from r [] s"

text \<open>
  \<^verbatim>\<open>pattern.sub(f, s)\<close> for a pattern that never matches the empty text and a replacement
  function that may raise.
\<close>

function re_sub :: "'a re \<Rightarrow> ('a list \<Rightarrow> 'e + 'a list) \<Rightarrow> 'a list \<Rightarrow> 'e + 'a list" where
  "re_sub r f s =
     (case s of
        [] \<Rightarrow> Inr []
      | x # xs \<Rightarrow>
          (case re_match r s of
             Some (t, _) \<Rightarrow>
               if length t < length s
               then bindE (f (take (length s - length t) s)) (\<lambda>u. map_sum id ((@) u) (re_sub r f t))
               else map_sum id ((#) x) (re_sub r f xs)
           | None \<Rightarrow> map_sum id ((#) x) (re_sub r f xs)))"
  by pat_completeness auto
termination
  by (relation "measure (\<lambda>(r, f, s). length s)") auto

declare rmatch.simps(7,8) [simp del]
declare re_search_from.simps [simp del]
declare re_split_from.simps [simp del]
declare re_sub.simps [simp del]

lemmas rmatch_rep = rmatch.simps(7)
lemmas rmatch_plus = rmatch.simps(8)

section \<open>From patterns to scanners\<close>

lemma rmatch_Lit [simp]:
  "rmatch (Run (Lit x) # k) p s c =
     (case s of [] \<Rightarrow> None | y # t \<Rightarrow> if y = x then rmatch k (y # p) t c else None)"
  by (cases s) (simp_all add: Lit_def)

lemma rmatch_opt_Lit:
  "rmatch (Run (Opt (Lit x)) # k) p (x # s) c =
     (case rmatch k (x # p) s c of None \<Rightarrow> rmatch k p (x # s) c | Some m \<Rightarrow> Some m)"
  by (simp add: rmatch_rep)

lemma rmatch_opt_Lit_other:
  "(case s of [] \<Rightarrow> True | y # _ \<Rightarrow> y \<noteq> x) \<Longrightarrow> rmatch (Run (Opt (Lit x)) # k) p s c = rmatch k p s c"
  by (cases s) (simp_all add: rmatch_rep)

text \<open>
  A greedy repetition of a class, followed by something that cannot start with an element
  of the class, takes the longest run or fails.
\<close>

lemma rmatch_cls_rep:
  assumes "\<And>x p s. P x \<Longrightarrow> rmatch k p (x # s) c = None"
  shows "rmatch (Run (Rep (Cls P) lo hi) # k) p s c =
    (let n = length (takeWhile P s)
     in if lo \<le> n \<and> n \<le> hi then rmatch k (rev (take n s) @ p) (drop n s) c else None)"
proof (induction s arbitrary: lo hi p)
  case Nil
  then show ?case by (simp add: rmatch_rep)
next
  case (Cons x s)
  show ?case
  proof (cases "P x")
    case True
    have dead: "rmatch k p (x # s) c = None" for p
      using assms True by simp
    have IH: "rmatch (Run (Rep (Cls P) lo' (hi - 1)) # k) (x # p) s c =
      (let n = length (takeWhile P s)
       in if lo' \<le> n \<and> n \<le> hi - 1 then rmatch k (rev (take n s) @ x # p) (drop n s) c else None)"
      for lo' by (rule Cons.IH)
    show ?thesis
      using True dead IH [of "lo - 1"] IH [of 0]
      by (cases hi) (auto simp: rmatch_rep Let_def split: option.splits)
  next
    case False
    then show ?thesis by (simp add: rmatch_rep)
  qed
qed

text \<open>
  \<open>det r f\<close>: in any context the pattern \<open>r\<close> either fails (\<open>f s = None\<close>) or takes exactly
  the first \<open>n\<close> elements (\<open>f s = Some n\<close>), with nothing to backtrack to.
\<close>

definition det :: "'a re \<Rightarrow> ('a list \<Rightarrow> nat option) \<Rightarrow> bool" where
  "det r f \<longleftrightarrow> (\<forall>k p s c. rmatch (Run r # k) p s c =
     (case f s of None \<Rightarrow> None | Some n \<Rightarrow> rmatch k (rev (take n s) @ p) (drop n s) c))"

lemma drop_add: "drop (n + m) xs = drop m (drop n xs)"
  by (simp add: add.commute)

lemma detD:
  "det r f \<Longrightarrow> rmatch (Run r # k) p s c =
     (case f s of None \<Rightarrow> None | Some n \<Rightarrow> rmatch k (rev (take n s) @ p) (drop n s) c)"
  by (simp add: det_def)

lemma det_Lit: "det (Lit x) (\<lambda>s. case s of [] \<Rightarrow> None | y # _ \<Rightarrow> if y = x then Some 1 else None)"
  by (auto simp: det_def split: list.splits)

lemma det_Cat:
  assumes "det a f" and "det b g"
  shows "det (Cat a b) (\<lambda>s. case f s of None \<Rightarrow> None | Some n \<Rightarrow> map_option ((+) n) (g (drop n s)))"
  unfolding det_def
  using assms
  by (auto simp: detD take_add drop_add simp del: drop_drop split: option.splits)

lemma det_cls_rep_Cat:
  assumes "det b g" and "\<And>x s. P x \<Longrightarrow> g (x # s) = None"
  shows "det (Cat (Rep (Cls P) lo hi) b)
    (\<lambda>s. let n = length (takeWhile P s)
         in if lo \<le> n \<and> n \<le> hi then map_option ((+) n) (g (drop n s)) else None)"
  unfolding det_def
proof (intro allI)
  fix k p and s :: "'a list" and c
  have dead: "rmatch (Run b # k) p (x # s) c = None" if "P x" for x p s
    using assms(2) [OF that] by (simp add: detD [OF assms(1)])
  show "rmatch (Run (Cat (Rep (Cls P) lo hi) b) # k) p s c =
    (case let n = length (takeWhile P s)
          in if lo \<le> n \<and> n \<le> hi then map_option ((+) n) (g (drop n s)) else None of
       None \<Rightarrow> None | Some n \<Rightarrow> rmatch k (rev (take n s) @ p) (drop n s) c)"
    by (simp add: rmatch_cls_rep [OF dead] detD [OF assms(1)] Let_def take_add drop_add
        del: drop_drop split: option.splits)
qed

text \<open>Repeating a deterministic scan at most \<open>h\<close> times: the number of elements it takes.\<close>

primrec scan_rep :: "('a list \<Rightarrow> nat option) \<Rightarrow> nat \<Rightarrow> 'a list \<Rightarrow> nat" where
  "scan_rep f 0 s = 0"
| "scan_rep f (Suc h) s = (case f s of None \<Rightarrow> 0 | Some n \<Rightarrow> n + scan_rep f h (drop n s))"

lemma scan_rep_le:
  assumes "\<And>s n. f s = Some n \<Longrightarrow> n \<le> length s"
  shows "scan_rep f h s \<le> length s"
proof (induction h arbitrary: s)
  case (Suc h)
  show ?case
  proof (cases "f s")
    case (Some n)
    from assms [OF Some] Suc [of "drop n s"] Some show ?thesis by simp
  qed simp
qed simp

lemma scan_rep_bound:
  assumes "\<And>s n. f s = Some n \<Longrightarrow> n \<le> b"
  shows "scan_rep f h s \<le> h * b"
proof (induction h arbitrary: s)
  case (Suc h)
  show ?case
  proof (cases "f s")
    case (Some n)
    from assms [OF Some] Suc [of "drop n s"] Some show ?thesis by simp
  qed simp
qed simp

text \<open>At the end of a pattern, a greedy repetition takes all it can.\<close>

lemma rmatch_det_rep_last:
  assumes "det r f"
  shows "\<exists>p'. rmatch [Run (Rep r 0 h)] p s c = Some (p', drop (scan_rep f h s) s, c)"
proof (induction h arbitrary: p s)
  case 0
  then show ?case by (simp add: rmatch_rep)
next
  case (Suc h)
  show ?case
  proof (cases "f s")
    case None
    then show ?thesis by (simp add: rmatch_rep detD [OF assms])
  next
    case (Some n)
    from Suc [of "rev (take n s) @ p" "drop n s"] Some show ?thesis
      by (auto simp: rmatch_rep detD [OF assms] add.commute)
  qed
qed

lemma rmatch_det_rep:
  assumes "det r f" and "\<And>p s n. f s = Some n \<Longrightarrow> rmatch k p s c = None"
  shows "rmatch (Run (Rep r 0 h) # k) p s c =
    rmatch k (rev (take (scan_rep f h s) s) @ p) (drop (scan_rep f h s) s) c"
proof (induction h arbitrary: p s)
  case 0
  then show ?case by (simp add: rmatch_rep)
next
  case (Suc h)
  then show ?case
    using assms(2)
    by (simp add: rmatch_rep detD [OF assms(1)] take_add drop_add
        del: drop_drop split: option.splits)
qed

text \<open>Whether a repetition of a class can be followed by a match of the rest.\<close>

lemma rmatch_cls_rep_some:
  "rmatch (Run (Rep (Cls P) lo hi) # k) p s c \<noteq> None \<longleftrightarrow>
     (\<exists>n. lo \<le> n \<and> n \<le> hi \<and> n \<le> length s \<and> list_all P (take n s) \<and>
          rmatch k (rev (take n s) @ p) (drop n s) c \<noteq> None)"
  (is "?m lo hi p s \<longleftrightarrow> (\<exists>n. ?q lo hi p s n)")
proof (induction hi arbitrary: lo p s)
  case 0
  have "rmatch (Run (Rep (Cls P) lo 0) # k) p s c = (if lo = 0 then rmatch k p s c else None)"
    by (subst rmatch_rep) simp
  then show ?case by auto
next
  case (Suc hi)
  have ex_Suc: "(\<exists>n. Q (Suc n)) \<or> Q 0 \<longleftrightarrow> (\<exists>n. Q n)" for Q :: "nat \<Rightarrow> bool"
    by (metis not0_implies_Suc)
  show ?case
  proof (cases "s \<noteq> [] \<and> P (hd s)")
    case True
    then obtain x t where s: "s = x # t" "P x" by (cases s) auto
    have "?m lo (Suc hi) p s \<longleftrightarrow> ?m (lo - 1) hi (x # p) t \<or> lo = 0 \<and> rmatch k p s c \<noteq> None"
      by (subst rmatch_rep) (auto simp: s split: option.splits)
    also have "\<dots> \<longleftrightarrow> (\<exists>n. ?q (lo - 1) hi (x # p) t n) \<or> ?q lo (Suc hi) p s 0"
      unfolding Suc by auto
    also have "\<dots> \<longleftrightarrow> (\<exists>n. ?q lo (Suc hi) p s (Suc n)) \<or> ?q lo (Suc hi) p s 0"
      using s by auto
    also have "\<dots> \<longleftrightarrow> (\<exists>n. ?q lo (Suc hi) p s n)"
      by (rule ex_Suc)
    finally show ?thesis .
  next
    case False
    then have stop: "n = 0" if "?q lo (Suc hi) p s n" for n
      using that by (cases n; cases s) auto
    have "?m lo (Suc hi) p s \<longleftrightarrow> ?q lo (Suc hi) p s 0"
      by (subst rmatch_rep) (use False in \<open>cases s; auto split: option.splits\<close>)
    with stop show ?thesis by blast
  qed
qed

end
