(* ===== verification/Text.thy ===== *)
theory Text
  imports Prelude
begin

text \<open>
  What the program uses of Python's text: the UTF-8 codec with strict error handling,
  the constructor \<^verbatim>\<open>int(s, base)\<close> and the decimal rendering of an integer. The lemmas are
  the round trips that the parsers of the program rely on: decoding an encoded text gives
  it back, an encoded text is the only one that decodes to its source, and reading a
  printed number gives the number.
\<close>

section \<open>UTF-8\<close>

definition surrogate :: "nat \<Rightarrow> bool" where
  "surrogate cp \<longleftrightarrow> 0xD800 \<le> cp \<and> cp \<le> 0xDFFF"

text \<open>The code points that have an encoding: every Unicode scalar value.\<close>

definition scalar :: "nat \<Rightarrow> bool" where
  "scalar cp \<longleftrightarrow> cp < 0x110000 \<and> \<not> surrogate cp"

definition utf8_char :: "nat \<Rightarrow> bytes" where
  "utf8_char cp =
     (if cp < 0x80 then [char_of cp]
      else if cp < 0x800 then [char_of (0xC0 + cp div 64), char_of (0x80 + cp mod 64)]
      else if cp < 0x10000 then
        [char_of (0xE0 + cp div 4096), char_of (0x80 + cp div 64 mod 64), char_of (0x80 + cp mod 64)]
      else
        [char_of (0xF0 + cp div 262144), char_of (0x80 + cp div 4096 mod 64),
         char_of (0x80 + cp div 64 mod 64), char_of (0x80 + cp mod 64)])"

text \<open>\<^verbatim>\<open>s.encode('utf8')\<close>: a lone surrogate raises UnicodeEncodeError.\<close>

definition utf8_encode :: "str \<Rightarrow> exc + bytes" where
  "utf8_encode s =
     (if list_all scalar s then Inr (concat (map utf8_char s)) else Inl UnicodeEncodeError)"

text \<open>\<^verbatim>\<open>s.encode('ascii')\<close> and \<^verbatim>\<open>b.decode('ascii')\<close>.\<close>

definition ascii_encode :: "str \<Rightarrow> exc + bytes" where
  "ascii_encode s =
     (if list_all (\<lambda>cp. cp < 0x80) s then Inr (map char_of s) else Inl UnicodeEncodeError)"

definition ascii_decode :: "bytes \<Rightarrow> exc + str" where
  "ascii_decode b =
     (if list_all (\<lambda>c. of_char c < (0x80::nat)) b then Inr (map of_char b) else Inl UnicodeDecodeError)"

definition cont :: "byte \<Rightarrow> bool" where
  "cont c \<longleftrightarrow> 0x80 \<le> (of_char c :: nat) \<and> of_char c < (0xC0 :: nat)"

text \<open>
  \<^verbatim>\<open>b.decode('utf8')\<close>: overlong forms, surrogates, values above U+10FFFF and truncated
  sequences raise UnicodeDecodeError.
\<close>

fun utf8_decode :: "bytes \<Rightarrow> str option" where
  "utf8_decode [] = Some []"
| "utf8_decode (a # s) =
     (let x = of_char a in
      if x < 0x80 then map_option ((#) x) (utf8_decode s)
      else if x < 0xC2 then None
      else if x < 0xE0 then
        (case s of
           b # s' \<Rightarrow>
             (let cp = (x - 0xC0) * 64 + (of_char b - 0x80) in
              if cont b then map_option ((#) cp) (utf8_decode s') else None)
         | _ \<Rightarrow> None)
      else if x < 0xF0 then
        (case s of
           b # c # s' \<Rightarrow>
             (let cp = (x - 0xE0) * 4096 + (of_char b - 0x80) * 64 + (of_char c - 0x80) in
              if cont b \<and> cont c \<and> 0x800 \<le> cp \<and> \<not> surrogate cp
              then map_option ((#) cp) (utf8_decode s') else None)
         | _ \<Rightarrow> None)
      else
        (case s of
           b # c # d # s' \<Rightarrow>
             (let cp = (x - 0xF0) * 262144 + (of_char b - 0x80) * 4096
                       + (of_char c - 0x80) * 64 + (of_char d - 0x80) in
              if cont b \<and> cont c \<and> cont d \<and> 0x10000 \<le> cp \<and> cp < 0x110000
              then map_option ((#) cp) (utf8_decode s') else None)
         | _ \<Rightarrow> None))"

declare utf8_decode.simps(2) [simp del]

definition utf8_decode_exc :: "bytes \<Rightarrow> exc + str" where
  "utf8_decode_exc b = (case utf8_decode b of None \<Rightarrow> Inl UnicodeDecodeError | Some s \<Rightarrow> Inr s)"

section \<open>Numbers as text\<close>

text \<open>The decimal digits of a number, most significant first: \<^verbatim>\<open>str(n)\<close>.\<close>

fun dec_of_nat :: "nat \<Rightarrow> str" where
  "dec_of_nat n = (if n < 10 then [48 + n] else dec_of_nat (n div 10) @ [48 + n mod 10])"

declare dec_of_nat.simps [simp del]

definition dec_of_int :: "int \<Rightarrow> str" where
  "dec_of_int i = (if i < 0 then 45 # dec_of_nat (nat (- i)) else dec_of_nat (nat i))"

text \<open>
  The code points of the zeros of the decimal digit blocks of Unicode (general category
  Nd, Unicode 14): each block is ten consecutive code points. \<^verbatim>\<open>int()\<close> accepts any of
  these digits.
\<close>

definition nd_zeros :: "nat list" where
  "nd_zeros =
     [0x30, 0x660, 0x6f0, 0x7c0, 0x966, 0x9e6, 0xa66, 0xae6, 0xb66, 0xbe6, 0xc66, 0xce6,
      0xd66, 0xde6, 0xe50, 0xed0, 0xf20, 0x1040, 0x1090, 0x17e0, 0x1810, 0x1946, 0x19d0,
      0x1a80, 0x1a90, 0x1b50, 0x1bb0, 0x1c40, 0x1c50, 0xa620, 0xa8d0, 0xa900, 0xa9d0,
      0xa9f0, 0xaa50, 0xabf0, 0xff10, 0x104a0, 0x10d30, 0x11066, 0x110f0, 0x11136, 0x111d0,
      0x112f0, 0x11450, 0x114d0, 0x11650, 0x116c0, 0x11730, 0x118e0, 0x11950, 0x11c50,
      0x11d50, 0x11da0, 0x16a60, 0x16ac0, 0x16b50, 0x1d7ce, 0x1d7d8, 0x1d7e2, 0x1d7ec,
      0x1d7f6, 0x1e140, 0x1e2f0, 0x1e950, 0x1fbf0]"

definition uni_decimal :: "nat \<Rightarrow> nat option" where
  "uni_decimal cp = map_option (\<lambda>z. cp - z) (find (\<lambda>z. z \<le> cp \<and> cp < z + 10) nd_zeros)"

text \<open>White space outside ASCII, as \<^verbatim>\<open>str.isspace\<close> has it.\<close>

definition uni_space :: "nat \<Rightarrow> bool" where
  "uni_space cp \<longleftrightarrow> cp \<in> {0x85, 0xa0, 0x1680, 0x2028, 0x2029, 0x202f, 0x205f, 0x3000}
     \<or> 0x2000 \<le> cp \<and> cp \<le> 0x200a"

text \<open>
  \<^verbatim>\<open>int()\<close> first maps its argument to ASCII: white space to a space, a decimal digit to its
  ASCII digit, anything else outside ASCII to a question mark, which no number contains.
\<close>

definition to_ascii :: "nat \<Rightarrow> nat" where
  "to_ascii cp =
     (if cp < 0x80 then cp
      else if uni_space cp then 32
      else (case uni_decimal cp of Some d \<Rightarrow> 48 + d | None \<Rightarrow> 63))"

definition blank :: "nat \<Rightarrow> bool" where
  "blank cp \<longleftrightarrow> cp = 32 \<or> 9 \<le> cp \<and> cp \<le> 13"

definition digit_val :: "nat \<Rightarrow> nat \<Rightarrow> nat option" where
  "digit_val base cp =
     (let d = (if 48 \<le> cp \<and> cp \<le> 57 then cp - 48
               else if 97 \<le> cp \<and> cp \<le> 122 then cp - 87
               else if 65 \<le> cp \<and> cp \<le> 90 then cp - 55 else base)
      in if d < base then Some d else None)"

text \<open>
  The digits of a number with single underscores between them (code point 95): \<open>us\<close> says
  that the last character was an underscore. The result is the value and the rest.
\<close>

fun scan_digits :: "nat \<Rightarrow> nat \<Rightarrow> bool \<Rightarrow> str \<Rightarrow> (nat \<times> str) option" where
  "scan_digits base acc us [] = (if us then None else Some (acc, []))"
| "scan_digits base acc us (x # s) =
     (if x = 95 then (if us then None else scan_digits base acc True s)
      else (case digit_val base x of
              Some d \<Rightarrow> scan_digits base (acc * base + d) False s
            | None \<Rightarrow> if us then None else Some (acc, x # s)))"

definition scan_number :: "nat \<Rightarrow> str \<Rightarrow> nat option" where
  "scan_number base s =
     (case s of
        [] \<Rightarrow> None
      | x # t \<Rightarrow>
          (case digit_val base x of
             None \<Rightarrow> None
           | Some d \<Rightarrow>
               (case scan_digits base d False t of
                  None \<Rightarrow> None
                | Some (n, rest) \<Rightarrow> if list_all blank rest then Some n else None)))"

text \<open>In base 16 a prefix \<^verbatim>\<open>0x\<close> may precede the digits, and one underscore the prefix's digits.\<close>

definition skip_prefix :: "nat \<Rightarrow> str \<Rightarrow> str" where
  "skip_prefix base s =
     (case s of
        a # b # t \<Rightarrow>
          if base = 16 \<and> a = 48 \<and> (b = 120 \<or> b = 88)
          then (case t of c # t' \<Rightarrow> if c = 95 then t' else t | [] \<Rightarrow> t)
          else s
      | _ \<Rightarrow> s)"

text \<open>\<^verbatim>\<open>int(s, base)\<close> for the bases 10 and 16: \<^const>\<open>None\<close> is ValueError.\<close>

definition py_int :: "nat \<Rightarrow> str \<Rightarrow> int option" where
  "py_int base s =
     (let t = dropWhile blank (map to_ascii s) in
      case t of
        [] \<Rightarrow> None
      | x # u \<Rightarrow>
          if x = 45 then map_option (\<lambda>n. - int n) (scan_number base (skip_prefix base u))
          else if x = 43 then map_option int (scan_number base (skip_prefix base u))
          else map_option int (scan_number base (skip_prefix base t)))"

section \<open>The UTF-8 round trips\<close>

lemma utf8_char_ascii: "cp < 0x80 \<Longrightarrow> utf8_char cp = [char_of cp]"
  by (simp add: utf8_char_def)

lemma utf8_char_not_Nil [simp]: "utf8_char cp \<noteq> []"
  by (simp add: utf8_char_def)

lemma utf8_char_high: "0x80 \<le> cp \<Longrightarrow> cp < 0x110000 \<Longrightarrow> b \<in> set (utf8_char cp) \<Longrightarrow> 0x80 \<le> (of_char b :: nat)"
  by (auto simp: utf8_char_def split: if_splits)

lemma utf8_decode_2:
  assumes "0x80 \<le> cp" "cp < 0x800"
  shows "utf8_decode (utf8_char cp @ s) = map_option ((#) cp) (utf8_decode s)"
proof -
  have "0xC0 + cp div 64 < 256" and "2 \<le> cp div 64" and "cp div 64 < 32" and "cp mod 64 < 64"
    using assms by auto
  then show ?thesis
    using assms by (simp add: utf8_char_def utf8_decode.simps(2) Let_def cont_def)
qed

lemma utf8_decode_3:
  assumes "0x800 \<le> cp" "cp < 0x10000" "\<not> surrogate cp"
  shows "utf8_decode (utf8_char cp @ s) = map_option ((#) cp) (utf8_decode s)"
proof -
  have a: "cp div 4096 < 16" and "cp div 64 mod 64 < 64" and "cp mod 64 < 64"
    using assms by auto
  have "cp div 64 div 64 = cp div 4096"
    by (simp add: div_mult2_eq [symmetric])
  then have cp: "cp div 4096 * 4096 + cp div 64 mod 64 * 64 + cp mod 64 = cp"
    using div_mult_mod_eq [of "cp div 64" 64] div_mult_mod_eq [of cp 64] by linarith
  then show ?thesis
    using assms a by (simp add: utf8_char_def utf8_decode.simps(2) Let_def cont_def)
qed

lemma utf8_decode_4:
  assumes "0x10000 \<le> cp" "cp < 0x110000"
  shows "utf8_decode (utf8_char cp @ s) = map_option ((#) cp) (utf8_decode s)"
proof -
  have a: "cp div 262144 < 5" and "cp div 4096 mod 64 < 64" "cp div 64 mod 64 < 64" and "cp mod 64 < 64"
    using assms by auto
  have "cp div 64 div 64 = cp div 4096" "cp div 4096 div 64 = cp div 262144"
    by (simp_all add: div_mult2_eq [symmetric])
  then have cp: "cp div 262144 * 262144 + cp div 4096 mod 64 * 4096 + cp div 64 mod 64 * 64 + cp mod 64 = cp"
    using div_mult_mod_eq [of "cp div 4096" 64] div_mult_mod_eq [of "cp div 64" 64]
      div_mult_mod_eq [of cp 64] by linarith
  then show ?thesis
    using assms a by (simp add: utf8_char_def utf8_decode.simps(2) Let_def cont_def)
qed

lemma utf8_decode_char:
  assumes "scalar cp"
  shows "utf8_decode (utf8_char cp @ s) = map_option ((#) cp) (utf8_decode s)"
proof -
  consider "cp < 0x80" | "0x80 \<le> cp" "cp < 0x800" | "0x800 \<le> cp" "cp < 0x10000"
    | "0x10000 \<le> cp" "cp < 0x110000"
    using assms unfolding scalar_def by linarith
  then show ?thesis
    using assms utf8_decode_2 utf8_decode_3 utf8_decode_4
    by cases (simp_all add: scalar_def utf8_char_def utf8_decode.simps(2))
qed

lemma utf8_decode_encode_append:
  "list_all scalar s \<Longrightarrow> utf8_decode (concat (map utf8_char s) @ b) = map_option ((@) s) (utf8_decode b)"
  by (induction s) (auto simp: utf8_decode_char map_option_case split: option.splits)

lemma utf8_decode_concat: "list_all scalar s \<Longrightarrow> utf8_decode (concat (map utf8_char s)) = Some s"
  using utf8_decode_encode_append [of s "[]"] by simp

lemma utf8_decode_encode: "utf8_encode s = Inr b \<Longrightarrow> utf8_decode_exc b = Inr s"
  by (auto simp: utf8_encode_def utf8_decode_exc_def utf8_decode_concat split: if_splits)

text \<open>
  A byte sequence decodes to a text only if it is the encoding of that text: there are
  no alternative encodings.
\<close>

lemma div_mod_64: "m < 64 \<Longrightarrow> (k * 64 + m) div 64 = k" "m < 64 \<Longrightarrow> (k * 64 + m) mod 64 = (m::nat)"
  by simp_all

lemma utf8_decode_Cons_2:
  assumes "cont b" "0xC2 \<le> (of_char a :: nat)" "of_char a < (0xE0 :: nat)"
    and "cp = (of_char a - 0xC0) * 64 + (of_char b - 0x80)"
  shows "scalar cp \<and> utf8_char cp = [a, b]"
proof -
  define x y :: nat where "x = of_char a - 0xC0" and "y = of_char b - 0x80"
  have a: "a = char_of (0xC0 + x)" and b: "b = char_of (0x80 + y)"
    using assms by (simp_all add: x_def y_def cont_def)
  have "2 \<le> x" "x < 32" "y < 64" and cp: "cp = x * 64 + y"
    using assms by (auto simp: x_def y_def cont_def)
  then show ?thesis
    by (simp add: a b utf8_char_def scalar_def surrogate_def)
qed

lemma utf8_decode_Cons_3:
  assumes "cont b" "cont c" "0xE0 \<le> (of_char a :: nat)" "of_char a < (0xF0 :: nat)"
    and "cp = (of_char a - 0xE0) * 4096 + (of_char b - 0x80) * 64 + (of_char c - 0x80)"
    and "0x800 \<le> cp" "\<not> surrogate cp"
  shows "scalar cp \<and> utf8_char cp = [a, b, c]"
proof -
  define x y z :: nat where "x = of_char a - 0xE0" and "y = of_char b - 0x80" and "z = of_char c - 0x80"
  have abc: "a = char_of (0xE0 + x)" "b = char_of (0x80 + y)" "c = char_of (0x80 + z)"
    using assms(1-4) by (simp_all add: x_def y_def z_def cont_def)
  have lim: "x < 16" "y < 64" "z < 64"
    using assms(1-4) by (auto simp: x_def y_def z_def cont_def)
  have "cp = x * 4096 + y * 64 + z" using assms(5) by (simp only: x_def y_def z_def)
  then have cp: "cp = (x * 64 + y) * 64 + z" by (simp add: algebra_simps)
  have "cp div 64 = x * 64 + y" "cp mod 64 = z" using lim unfolding cp by (simp_all only: div_mod_64)
  moreover from this(1) lim have "cp div 64 div 64 = x" "cp div 64 mod 64 = y" by (simp_all only: div_mod_64)
  moreover have "cp div 64 div 64 = cp div 4096" by (simp add: div_mult2_eq [symmetric])
  ultimately show ?thesis
    using assms(6,7) lim by (simp add: abc utf8_char_def scalar_def)
qed

lemma utf8_decode_Cons_4:
  assumes "cont b" "cont c" "cont d" "0xF0 \<le> (of_char a :: nat)"
    and "cp = (of_char a - 0xF0) * 262144 + (of_char b - 0x80) * 4096
              + (of_char c - 0x80) * 64 + (of_char d - 0x80)"
    and "0x10000 \<le> cp" "cp < 0x110000"
  shows "scalar cp \<and> utf8_char cp = [a, b, c, d]"
proof -
  define w x y z :: nat where "w = of_char a - 0xF0" and "x = of_char b - 0x80"
    and "y = of_char c - 0x80" and "z = of_char d - 0x80"
  have abc: "a = char_of (0xF0 + w)" "b = char_of (0x80 + x)" "c = char_of (0x80 + y)"
    "d = char_of (0x80 + z)"
    using assms(1-4) by (simp_all add: w_def x_def y_def z_def cont_def)
  have lim: "x < 64" "y < 64" "z < 64"
    using assms(1-4) by (auto simp: w_def x_def y_def z_def cont_def)
  have "cp = w * 262144 + x * 4096 + y * 64 + z" using assms(5) by (simp only: w_def x_def y_def z_def)
  then have cp: "cp = ((w * 64 + x) * 64 + y) * 64 + z" by (simp add: algebra_simps)
  have "cp div 64 = (w * 64 + x) * 64 + y" "cp mod 64 = z"
    using lim unfolding cp by (simp_all only: div_mod_64)
  moreover from this(1) lim have "cp div 64 div 64 = w * 64 + x" "cp div 64 mod 64 = y"
    by (simp_all only: div_mod_64)
  moreover from this(1) lim have "cp div 64 div 64 div 64 = w" "cp div 64 div 64 mod 64 = x"
    by (simp_all only: div_mod_64)
  moreover have "cp div 64 div 64 = cp div 4096" "cp div 64 div 64 div 64 = cp div 262144"
    by (simp_all add: div_mult2_eq [symmetric])
  ultimately have "cp div 262144 = w" "cp div 4096 mod 64 = x" "cp div 64 mod 64 = y" "cp mod 64 = z"
    by metis+
  then show ?thesis
    using assms(6,7) by (simp add: abc utf8_char_def scalar_def surrogate_def)
qed

lemma utf8_decode_Cons:
  assumes "utf8_decode (a # t) = Some s"
  obtains cp t' s' where "scalar cp" "a # t = utf8_char cp @ t'" "s = cp # s'" "utf8_decode t' = Some s'"
proof -
  define x :: nat where "x = of_char a"
  note dec = assms [unfolded utf8_decode.simps(2) Let_def, folded x_def]
  consider "x < 0x80" | "0xC2 \<le> x" "x < 0xE0" | "0xE0 \<le> x" "x < 0xF0" | "0xF0 \<le> x"
    using dec by (auto split: if_splits)
  then show ?thesis
  proof cases
    case 1
    then obtain s' where "utf8_decode t = Some s'" "s = x # s'" using dec by auto
    moreover have "scalar x" "a # t = utf8_char x @ t"
      using 1 by (simp_all add: scalar_def surrogate_def utf8_char_def x_def)
    ultimately show ?thesis using that by blast
  next
    case 2
    then show ?thesis
      using dec utf8_decode_Cons_2 [of _ a]
      by (auto simp: x_def split: list.splits if_splits) (metis append_Cons append_Nil that)
  next
    case 3
    then show ?thesis
      using dec utf8_decode_Cons_3 [of _ _ a]
      by (auto simp: x_def split: list.splits if_splits) (metis append_Cons append_Nil that)
  next
    case 4
    then show ?thesis
      using dec utf8_decode_Cons_4 [of _ _ _ a]
      by (auto simp: x_def split: list.splits if_splits) (metis append_Cons append_Nil that)
  qed
qed

lemma utf8_decode_canonical:
  "utf8_decode b = Some s \<Longrightarrow> list_all scalar s \<and> concat (map utf8_char s) = b"
proof (induction b arbitrary: s rule: length_induct)
  case (1 b)
  show ?case
  proof (cases b)
    case Nil
    with 1 show ?thesis by simp
  next
    case (Cons a t)
    with 1(2) obtain cp t' s' where cp: "scalar cp" "b = utf8_char cp @ t'" "s = cp # s'"
      and t': "utf8_decode t' = Some s'"
      by (metis utf8_decode_Cons)
    then have "length t' < length b" by simp
    with 1(1) t' have "list_all scalar s' \<and> concat (map utf8_char s') = t'" by blast
    with cp show ?thesis by simp
  qed
qed

lemma utf8_encode_decode: "utf8_decode_exc b = Inr s \<Longrightarrow> utf8_encode s = Inr b"
  by (auto simp: utf8_encode_def utf8_decode_exc_def dest: utf8_decode_canonical split: option.splits)

section \<open>Reading a printed number\<close>

definition is_digit :: "nat \<Rightarrow> bool" where
  "is_digit cp \<longleftrightarrow> 48 \<le> cp \<and> cp \<le> 57"

lemma dec_of_nat_digits: "list_all is_digit (dec_of_nat n)"
proof (induction n rule: dec_of_nat.induct)
  case (1 n)
  have "is_digit (48 + n mod 10)" by (simp add: is_digit_def)
  moreover have "n < 10 \<Longrightarrow> is_digit (48 + n)" by (simp add: is_digit_def)
  ultimately show ?case
    using 1 by (subst dec_of_nat.simps) simp
qed

lemma dec_of_nat_not_Nil [simp]: "dec_of_nat n \<noteq> []"
  by (subst dec_of_nat.simps) simp

definition digits_value :: "nat \<Rightarrow> str \<Rightarrow> nat" where
  "digits_value = foldl (\<lambda>acc x. acc * 10 + (x - 48))"

lemma digit_val_10: "is_digit x \<Longrightarrow> digit_val 10 x = Some (x - 48)"
  by (simp add: is_digit_def digit_val_def Let_def, arith)

lemma scan_digits_digits:
  "list_all is_digit s \<Longrightarrow> scan_digits 10 acc False s = Some (digits_value acc s, [])"
  by (induction s arbitrary: acc) (auto simp: digits_value_def digit_val_10, simp add: is_digit_def)

lemma digits_value_dec: "digits_value 0 (dec_of_nat n) = n"
proof (induction n rule: dec_of_nat.induct)
  case (1 n)
  then show ?case
    by (subst dec_of_nat.simps) (simp add: digits_value_def)
qed

lemma scan_number_dec: "scan_number 10 (dec_of_nat n) = Some n"
proof -
  obtain x t where xt: "dec_of_nat n = x # t"
    by (cases "dec_of_nat n") auto
  with dec_of_nat_digits [of n] have x: "is_digit x" and t: "list_all is_digit t" by auto
  have "digits_value (x - 48) t = n"
    using digits_value_dec [of n] xt by (simp add: digits_value_def)
  with x scan_digits_digits [OF t] show ?thesis
    by (simp add: scan_number_def xt digit_val_10)
qed

lemma to_ascii_digits: "list_all is_digit s \<Longrightarrow> map to_ascii s = s"
  by (induction s) (auto simp: is_digit_def to_ascii_def)

lemma py_int_dec_of_nat: "py_int 10 (dec_of_nat n) = Some (int n)"
proof -
  obtain x t where xt: "dec_of_nat n = x # t"
    by (cases "dec_of_nat n") auto
  with dec_of_nat_digits [of n] have x: "is_digit x" by auto
  have "skip_prefix 10 (x # t) = x # t"
    by (simp add: skip_prefix_def split: list.splits)
  with x scan_number_dec [of n] show ?thesis
    unfolding py_int_def to_ascii_digits [OF dec_of_nat_digits]
    by (simp add: xt blank_def is_digit_def)
qed

lemma py_int_dec_of_int: "py_int 10 (dec_of_int i) = Some i"
proof (cases "i < 0")
  case True
  have "skip_prefix 10 (dec_of_nat m) = dec_of_nat m" for m
    by (simp add: skip_prefix_def split: list.splits)
  with True show ?thesis
    by (simp add: dec_of_int_def py_int_def to_ascii_digits [OF dec_of_nat_digits]
        to_ascii_def [of 45] blank_def scan_number_dec)
next
  case False
  then show ?thesis by (simp add: dec_of_int_def py_int_dec_of_nat)
qed

end
