(* ===== verification/Stomp_Parser.thy ===== *)
theory Stomp_Parser
  imports Regex Text
begin

text \<open>
  The STOMP 1.2 frame parser and printer of \<^verbatim>\<open>swpt_stomp/stomp_parser.py\<close>: its patterns, the
  header parser, the frame with its \<^verbatim>\<open>__bytes__\<close> method and the incremental parser
  \<^verbatim>\<open>StompParser\<close>, whose fields are the record \<open>stomp_parser\<close> and whose methods are one
  definition each. A method that may raise returns the outcome together with the state
  that the raise leaves behind. The loop of \<^verbatim>\<open>add_bytes\<close> is a partial function: \<^const>\<open>None\<close>
  means that it does not return.

  The lemmas replace every pattern by a scanner (\<open>scan_head\<close>, \<open>scan_rep eol_len\<close>,
  \<open>sep_len\<close>, \<open>esc_len\<close>) and give the one-step behaviour of the parser in terms of them.
  The round trip of whole streams is in the theory \<^verbatim>\<open>Stomp_Stream\<close>.
\<close>

section \<open>Patterns\<close>

abbreviation NL :: byte where "NL \<equiv> CHR 0x0A"
abbreviation CR :: byte where "CR \<equiv> CHR 0x0D"
abbreviation NUL :: byte where "NUL \<equiv> CHR 0x00"
abbreviation COLON :: byte where "COLON \<equiv> CHR 0x3A"
abbreviation BSL :: byte where "BSL \<equiv> CHR 0x5C"

definition upper :: "byte \<Rightarrow> bool" where
  "upper c \<longleftrightarrow> 65 \<le> (of_char c :: nat) \<and> of_char c \<le> (90 :: nat)"

text \<open>The class \<^verbatim>\<open>[^\n\r:]\<close>.\<close>

definition hchar :: "byte \<Rightarrow> bool" where
  "hchar c \<longleftrightarrow> c \<noteq> NL \<and> c \<noteq> CR \<and> c \<noteq> COLON"

definition EOL_RE :: "byte re" where
  "EOL_RE = Cat (Opt (Lit CR)) (Lit NL)"

definition HEARTBEAT_RE :: "byte re" where
  "HEARTBEAT_RE = Plus EOL_RE"

definition HEADER_LINE_RE :: "byte re" where
  "HEADER_LINE_RE =
     Cat (Rep (Cls hchar) 1 500) (Cat (Lit COLON) (Cat (Rep (Cls hchar) 0 500) EOL_RE))"

definition HEAD_RE :: "byte re" where
  "HEAD_RE =
     Alt EndZ
      (Cat (Grp 1 (Rep (Cls upper) 1 50)) (Alt EndZ
       (Cat (Opt (Lit CR)) (Alt EndZ
        (Cat (Lit NL) (Cat (Grp 2 (Rep HEADER_LINE_RE 0 50)) (Alt EndZ
          (Alt
            (Cat (Rep (Cls hchar) 1 500)
              (Cat (Opt (Cat (Lit COLON) (Cat (Rep (Cls hchar) 0 500) (Opt (Lit CR))))) EndZ))
            (Cat (Opt (Lit CR)) (Alt EndZ (Grp 3 (Lit NL))))))))))))"

definition HEADER_SEPARATOR_RE :: "byte re" where
  "HEADER_SEPARATOR_RE = Alt EOL_RE (Lit COLON)"

definition HEADER_UNESCAPE_RE :: "byte re" where
  "HEADER_UNESCAPE_RE = Cat (Lit BSL) (Cls (\<lambda>c. c \<noteq> NL))"

section \<open>Headers\<close>

datatype parse_exc = ProtocolError str | EmptyQueue

definition HEADER_MAX_LENGTH :: nat where "HEADER_MAX_LENGTH = 4096"
definition BODY_MAX_LENGTH :: nat where "BODY_MAX_LENGTH = 8192"

fun HEADER_UNESCAPE_CHARS :: "bytes \<Rightarrow> bytes option" where
  "HEADER_UNESCAPE_CHARS [a, b] =
     (if a = BSL then
        (if b = CHR ''r'' then Some [CR] else if b = CHR ''n'' then Some [NL]
         else if b = CHR ''c'' then Some [COLON] else if b = BSL then Some [BSL] else None)
      else None)"
| "HEADER_UNESCAPE_CHARS _ = None"

definition unescape_char :: "bytes \<Rightarrow> parse_exc + bytes" where
  "unescape_char m =
     (case HEADER_UNESCAPE_CHARS m of
        None \<Rightarrow> Inl (ProtocolError (lit ''Invalid header.'')) | Some b \<Rightarrow> Inr b)"

definition substitute_header_escape_chars :: "bytes \<Rightarrow> parse_exc + bytes" where
  "substitute_header_escape_chars s = re_sub HEADER_UNESCAPE_RE unescape_char s"

definition decode_header :: "bytes \<Rightarrow> parse_exc + str" where
  "decode_header s =
     bindE (substitute_header_escape_chars s) (\<lambda>b.
       case utf8_decode b of
         None \<Rightarrow> Inl (ProtocolError (lit ''UTF-8 decode error.'')) | Some t \<Rightarrow> Inr t)"

type_synonym headers = "(str \<times> str) list"

fun headers_loop :: "bytes list \<Rightarrow> headers \<Rightarrow> parse_exc + headers" where
  "headers_loop (k # v # parts) d =
     bindE (decode_header k) (\<lambda>key.
     bindE (decode_header v) (\<lambda>val.
       headers_loop parts (dict_add key val d)))"
| "headers_loop _ d = Inr d"

definition parse_headers :: "bytes \<Rightarrow> parse_exc + headers" where
  "parse_headers s =
     (if HEADER_MAX_LENGTH < length s then Inl (ProtocolError (lit ''The frame header is too big.''))
      else headers_loop (re_split HEADER_SEPARATOR_RE s) [])"

section \<open>Frames\<close>

record stomp_frame =
  f_command :: str
  f_headers :: headers
  f_body :: bytes

text \<open>\<^verbatim>\<open>str.translate\<close> with the escape table.\<close>

definition esc_char :: "nat \<Rightarrow> str" where
  "esc_char cp =
     (if cp = 13 then [92, 114] else if cp = 10 then [92, 110]
      else if cp = 58 then [92, 99] else if cp = 92 then [92, 92] else [cp])"

definition translate :: "str \<Rightarrow> str" where
  "translate s = concat (map esc_char s)"

definition header_line :: "str \<times> str \<Rightarrow> str" where
  "header_line h = translate (fst h) @ [58] @ translate (snd h) @ [10]"

definition CONTENT_LENGTH :: str where
  "CONTENT_LENGTH = lit ''content-length''"

definition header_lines :: "stomp_frame \<Rightarrow> str" where
  "header_lines f =
     concat (map header_line (f_headers f)) @
     (if f_body f \<noteq> [] \<and> map_of (f_headers f) CONTENT_LENGTH = None
      then CONTENT_LENGTH @ [58] @ dec_of_nat (length (f_body f)) @ [10] else [])"

definition frame_bytes :: "stomp_frame \<Rightarrow> exc + bytes" where
  "frame_bytes f =
     bindE (utf8_encode (header_lines f)) (\<lambda>headers_bytes.
     bindE (ascii_encode (f_command f)) (\<lambda>command_bytes.
       Inr (command_bytes @ [NL] @ headers_bytes @ [NL] @ f_body f @ [NUL])))"

section \<open>The parser\<close>

record stomp_parser =
  p_data :: bytes
  p_current_pos :: nat
  p_command :: str
  p_headers :: headers
  p_body_end :: int
  p_frames :: "stomp_frame list"

definition reset :: stomp_parser where
  "reset = \<lparr>p_data = [], p_current_pos = 0, p_command = [], p_headers = [],
            p_body_end = 0, p_frames = []\<rparr>"

definition has_frame :: "stomp_parser \<Rightarrow> bool" where
  "has_frame p \<longleftrightarrow> p_frames p \<noteq> []"

definition pop_frame :: "stomp_parser \<Rightarrow> (parse_exc + stomp_frame) \<times> stomp_parser" where
  "pop_frame p =
     (case p_frames p of [] \<Rightarrow> (Inl EmptyQueue, p) | f # fs \<Rightarrow> (Inr f, p\<lparr>p_frames := fs\<rparr>))"

definition parse_heartbeats :: "stomp_parser \<Rightarrow> stomp_parser" where
  "parse_heartbeats p =
     (if p_current_pos p < length (p_data p) then
        (case re_match HEARTBEAT_RE (drop (p_current_pos p) (p_data p)) of
           None \<Rightarrow> p
         | Some (rest, _) \<Rightarrow> p\<lparr>p_current_pos := length (p_data p) - length rest\<rparr>)
      else p)"

text \<open>The declared length of the body: 0 if the header is absent or not a number.\<close>

definition content_length :: "headers \<Rightarrow> int" where
  "content_length h =
     (case map_of h CONTENT_LENGTH of
        None \<Rightarrow> 0 | Some v \<Rightarrow> (case py_int 10 v of None \<Rightarrow> 0 | Some n \<Rightarrow> n))"

definition parse_command :: "stomp_parser \<Rightarrow> (parse_exc + bool) \<times> stomp_parser" where
  "parse_command p =
     (if length (p_data p) = p_current_pos p then (Inr False, p)
      else
        (case re_match HEAD_RE (drop (p_current_pos p) (p_data p)) of
           None \<Rightarrow> (Inl (ProtocolError (lit ''Invalid frame.'')), p)
         | Some (rest, m) \<Rightarrow>
             if m 3 = None then (Inr False, p)
             else
               (let pos = length (p_data p) - length rest;
                    p1 = p\<lparr>p_current_pos := pos, p_command := map of_char (the (m 1))\<rparr>
                in case parse_headers (the (m 2)) of
                     Inl e \<Rightarrow> (Inl e, p1)
                   | Inr h \<Rightarrow>
                       (let p2 = p1\<lparr>p_headers := h\<rparr>; n = content_length h
                        in if int BODY_MAX_LENGTH < n
                           then (Inl (ProtocolError (lit ''Content-length is too large.'')), p2)
                           else (Inr True, p2\<lparr>p_body_end := int pos + n\<rparr>)))))"

definition parse_body :: "stomp_parser \<Rightarrow> (parse_exc + bool) \<times> stomp_parser" where
  "parse_body p =
     (let n = length (p_data p); body_end = p_body_end p in
      if body_end < int n then
        (let first_illegal_index = p_current_pos p + BODY_MAX_LENGTH + 1 in
         case py_find (p_data p) NUL body_end (int first_illegal_index) of
           None \<Rightarrow>
             if first_illegal_index \<le> n
             then (Inl (ProtocolError (lit ''The body is too large.'')), p)
             else (Inr False, p\<lparr>p_body_end := int n\<rparr>)
         | Some stop \<Rightarrow>
             (Inr True,
              p\<lparr>p_frames := p_frames p @
                  [\<lparr>f_command = p_command p, f_headers = p_headers p,
                    f_body = py_slice (p_data p) (int (p_current_pos p)) (int stop)\<rparr>],
                p_current_pos := stop + 1, p_command := []\<rparr>))
      else (Inr False, p))"

definition parse_block :: "stomp_parser \<Rightarrow> (parse_exc + bool) \<times> stomp_parser" where
  "parse_block p =
     (if p_command p \<noteq> [] then parse_body p else parse_command (parse_heartbeats p))"

text \<open>\<^verbatim>\<open>while self._parse_block(): pass\<close>, with the exception that ended it, if any.\<close>

partial_function (option) parse_loop :: "stomp_parser \<Rightarrow> (parse_exc option \<times> stomp_parser) option" where
  "parse_loop p =
     (case parse_block p of
        (Inl e, p') \<Rightarrow> Some (Some e, p')
      | (Inr b, p') \<Rightarrow> if b then parse_loop p' else Some (None, p'))"

text \<open>The end of \<^verbatim>\<open>add_bytes\<close>: the consumed bytes are deleted.\<close>

definition compact :: "stomp_parser \<Rightarrow> stomp_parser" where
  "compact p =
     (let n = p_current_pos p in
      if 0 < n
      then p\<lparr>p_data := drop n (p_data p), p_body_end := p_body_end p - int n, p_current_pos := 0\<rparr>
      else p)"

definition add_bytes :: "bytes \<Rightarrow> stomp_parser \<Rightarrow> ((parse_exc + unit) \<times> stomp_parser) option" where
  "add_bytes d p =
     (case parse_loop (p\<lparr>p_data := p_data p @ d\<rparr>) of
        None \<Rightarrow> None
      | Some (Some e, p') \<Rightarrow> Some (Inl e, p')
      | Some (None, p') \<Rightarrow> Some (Inr (), compact p'))"

section \<open>Scanners for the patterns\<close>

definition eol_len :: "bytes \<Rightarrow> nat option" where
  "eol_len s =
     (case s of
        [] \<Rightarrow> None
      | x # t \<Rightarrow> if x = NL then Some 1
                  else if x = CR then (case t of [] \<Rightarrow> None | y # _ \<Rightarrow> if y = NL then Some 2 else None)
                  else None)"

definition value_len :: "bytes \<Rightarrow> nat option" where
  "value_len s =
     (let n = length (takeWhile hchar s)
      in if 0 \<le> n \<and> n \<le> 500 then map_option ((+) n) (eol_len (drop n s)) else None)"

definition hline_len :: "bytes \<Rightarrow> nat option" where
  "hline_len s =
     (let n = length (takeWhile hchar s)
      in if 1 \<le> n \<and> n \<le> 500 then
           map_option ((+) n)
             (case drop n s of
                [] \<Rightarrow> None | y # t \<Rightarrow> if y = COLON then map_option Suc (value_len t) else None)
         else None)"

text \<open>The beginning of a header line, at the end of the data.\<close>

definition partial_line :: "bytes \<Rightarrow> bool" where
  "partial_line s \<longleftrightarrow>
     (let n = length (takeWhile hchar s) in
      1 \<le> n \<and> n \<le> 500 \<and>
      (case drop n s of
         [] \<Rightarrow> True
       | y # t \<Rightarrow> y = COLON \<and>
           (let m = length (takeWhile hchar t)
            in m \<le> 500 \<and> (drop m t = [] \<or> drop m t = [CR]))))"

text \<open>
  What the parser reads off a match of \<^const>\<open>HEAD_RE\<close>: no match, a head that is not
  complete yet, or the command, the header lines and the rest of the data.
\<close>

datatype scan = Invalid | Partial | Head bytes bytes bytes

definition head_view :: "(bytes \<times> byte caps) option \<Rightarrow> scan" where
  "head_view m =
     (case m of
        None \<Rightarrow> Invalid
      | Some (rest, c) \<Rightarrow> if c 3 = None then Partial else Head (the (c 1)) (the (c 2)) rest)"

definition scan_closing :: "bytes \<Rightarrow> bytes \<Rightarrow> bytes \<Rightarrow> scan" where
  "scan_closing cmd lines t =
     (if t = [] \<or> partial_line t \<or> t = [CR] then Partial
      else (case eol_len t of None \<Rightarrow> Invalid | Some n \<Rightarrow> Head cmd lines (drop n t)))"

definition scan_lines :: "bytes \<Rightarrow> bytes \<Rightarrow> scan" where
  "scan_lines cmd t =
     (let n = scan_rep hline_len 50 t in scan_closing cmd (take n t) (drop n t))"

definition scan_head :: "bytes \<Rightarrow> scan" where
  "scan_head s =
     (let n = length (takeWhile upper s); u = drop n s in
      if s = [] then Partial
      else if 1 \<le> n \<and> n \<le> 50 then
        (if u = [] \<or> u = [CR] then Partial
         else (case eol_len u of None \<Rightarrow> Invalid | Some m \<Rightarrow> scan_lines (take n s) (drop m u)))
      else Invalid)"

lemma det_EOL: "det EOL_RE eol_len"
  unfolding det_def EOL_RE_def
proof (intro allI)
  fix k p s and c :: "byte caps"
  show "rmatch (Run (Cat (Opt (Lit CR)) (Lit NL)) # k) p s c =
    (case eol_len s of None \<Rightarrow> None | Some n \<Rightarrow> rmatch k (rev (take n s) @ p) (drop n s) c)"
  proof (cases s)
    case (Cons x t)
    then show ?thesis
      by (cases "x = CR")
        (auto simp: rmatch_opt_Lit rmatch_opt_Lit_other eol_len_def numeral_2_eq_2
          split: list.splits option.splits)
  qed (simp add: rmatch_opt_Lit_other eol_len_def)
qed

lemma eol_len_hchar: "hchar x \<Longrightarrow> eol_len (x # s) = None"
  by (simp add: hchar_def eol_len_def)

lemma eol_len_le: "eol_len s = Some n \<Longrightarrow> 0 < n \<and> n \<le> length s"
  by (auto simp: eol_len_def split: list.splits if_splits)

lemma value_len_le: "value_len s = Some n \<Longrightarrow> n \<le> length s"
  using length_takeWhile_le [of hchar s]
  by (auto simp: value_len_def Let_def dest!: eol_len_le split: if_splits)

lemma hline_len_le: "hline_len s = Some n \<Longrightarrow> n \<le> length s"
proof -
  assume h: "hline_len s = Some n"
  define a where "a = length (takeWhile hchar s)"
  from h obtain t m where "drop a s = COLON # t" "value_len t = Some m" "n = a + Suc m"
    by (auto simp: hline_len_def Let_def a_def [symmetric] split: if_splits list.splits)
  then show ?thesis
    using value_len_le [of t m] length_drop [of a s] by (simp del: length_drop)
qed

lemma det_header_line: "det HEADER_LINE_RE hline_len"
proof -
  have "det (Cat (Rep (Cls hchar) 0 500) EOL_RE) value_len"
    unfolding value_len_def by (rule det_cls_rep_Cat [OF det_EOL eol_len_hchar])
  from det_Cat [OF det_Lit this] have
    "det (Cat (Lit COLON) (Cat (Rep (Cls hchar) 0 500) EOL_RE))
       (\<lambda>s. case s of [] \<Rightarrow> None | y # t \<Rightarrow> if y = COLON then map_option Suc (value_len t) else None)"
    by (rule back_subst [where P = "det _"]) (auto simp: fun_eq_iff map_option_case split: list.splits option.splits)
  from det_cls_rep_Cat [OF this, where P = hchar and lo = 1 and hi = 500] show ?thesis
    unfolding HEADER_LINE_RE_def hline_len_def by (simp add: hchar_def)
qed

lemma rmatch_partial_line:
  "map_option snd (rmatch [Run (Cat (Rep (Cls hchar) 1 500)
      (Cat (Opt (Cat (Lit COLON) (Cat (Rep (Cls hchar) 0 500) (Opt (Lit CR))))) EndZ))] p s c) =
   (if partial_line s then Some ([], c) else None)"
proof -
  let ?V = "[Run (Opt (Lit CR)), Run (Rep (Cat (Lit COLON) (Cat (Rep (Cls hchar) 0 500) (Opt (Lit CR)))) 0 0), Run EndZ]"
  let ?K = "[Run (Cat (Opt (Cat (Lit COLON) (Cat (Rep (Cls hchar) 0 500) (Opt (Lit CR))))) EndZ)]"
  have V: "map_option snd (rmatch ?V p s c) = (if s = [] \<or> s = [CR] then Some ([], c) else None)" for p s c
    by (cases s) (auto simp: rmatch_rep split: option.splits)
  have V_dead: "rmatch ?V p (x # s) c = None" if "hchar x" for p x s c
    using V [of p "x # s" c] that by (auto simp: hchar_def)
  have K_dead: "rmatch ?K p (x # s) c = None" if "hchar x" for p x s c
    using that by (simp add: rmatch_rep hchar_def)
  have K: "map_option snd (rmatch ?K p s c) =
    (case s of [] \<Rightarrow> Some ([], c)
     | y # t \<Rightarrow> if y = COLON \<and> (let m = length (takeWhile hchar t)
                  in m \<le> 500 \<and> (drop m t = [] \<or> drop m t = [CR]))
                then Some ([], c) else None)" for p s c
  proof (cases s)
    case (Cons y t)
    have "rmatch ?K p (COLON # t) c = rmatch (Run (Rep (Cls hchar) 0 500) # ?V) (COLON # p) t c"
      by (simp add: rmatch_rep [of "Cat _ _" 0 "Suc 0"] split: option.splits)
    also have "\<dots> = (let m = length (takeWhile hchar t) in
      if m \<le> 500 then rmatch ?V (rev (take m t) @ COLON # p) (drop m t) c else None)"
      by (simp add: rmatch_cls_rep [OF V_dead])
    finally have colon: "rmatch ?K p (COLON # t) c = \<dots>" .
    show ?thesis
    proof (cases "y = COLON")
      case True
      define u where "u = drop (length (takeWhile hchar t)) t"
      show ?thesis
        unfolding Cons True colon Let_def list.case unfolding u_def [symmetric]
        using V [of "rev (take (length (takeWhile hchar t)) t) @ COLON # p" u c] by auto
    next
      case False
      with Cons show ?thesis by (simp add: rmatch_rep)
    qed
  qed (simp add: rmatch_rep)
  define n where "n = length (takeWhile hchar s)"
  have "rmatch [Run (Cat (Rep (Cls hchar) 1 500) (Cat (Opt (Cat (Lit COLON)
      (Cat (Rep (Cls hchar) 0 500) (Opt (Lit CR))))) EndZ))] p s c =
    (if 1 \<le> n \<and> n \<le> 500 then rmatch ?K (rev (take n s) @ p) (drop n s) c else None)"
    by (simp only: rmatch.simps(5) [of "Rep (Cls hchar) 1 500"] rmatch_cls_rep [OF K_dead] Let_def n_def)
  with K [of "rev (take n s) @ p" "drop n s" c] show ?thesis
    unfolding partial_line_def Let_def n_def [symmetric]
    by (cases "drop n s") (auto simp del: rmatch.simps)
qed

lemma upper_not: "upper x \<Longrightarrow> x \<noteq> NL \<and> x \<noteq> CR \<and> x \<noteq> COLON"
  by (auto simp: upper_def)

lemma hline_len_Some_not_partial: "hline_len s = Some n \<Longrightarrow> s \<noteq> [] \<and> hchar (hd s) \<and> \<not> partial_line s"
proof -
  assume h: "hline_len s = Some n"
  define a where "a = length (takeWhile hchar s)"
  from h obtain t where a: "1 \<le> a" and t: "drop a s = COLON # t" and v: "value_len t \<noteq> None"
    by (auto simp: hline_len_def Let_def a_def [symmetric] split: if_splits list.splits)
  from v have "drop (length (takeWhile hchar t)) t \<noteq> []" "drop (length (takeWhile hchar t)) t \<noteq> [CR]"
    by (auto simp: value_len_def Let_def eol_len_def split: if_splits list.splits)
  with t have "\<not> partial_line s"
    by (auto simp: partial_line_def Let_def a_def [symmetric])
  moreover from a have "s \<noteq> []" "hchar (hd s)"
    by (cases s; auto simp: a_def split: if_splits)+
  ultimately show ?thesis by simp
qed

definition CLOSING_RE :: "byte re" where
  "CLOSING_RE = Alt EndZ
     (Alt (Cat (Rep (Cls hchar) 1 500)
            (Cat (Opt (Cat (Lit COLON) (Cat (Rep (Cls hchar) 0 500) (Opt (Lit CR))))) EndZ))
          (Cat (Opt (Lit CR)) (Alt EndZ (Grp 3 (Lit NL)))))"

lemma rmatch_closing:
  "map_option snd (rmatch [Run CLOSING_RE] p s c) =
     (if s = [] \<or> partial_line s \<or> s = [CR] then Some ([], c)
      else (case eol_len s of None \<Rightarrow> None | Some n \<Rightarrow> Some (drop n s, c(3 \<mapsto> [NL]))))"
proof -
  let ?P = "Run (Cat (Rep (Cls hchar) 1 500)
            (Cat (Opt (Cat (Lit COLON) (Cat (Rep (Cls hchar) 0 500) (Opt (Lit CR))))) EndZ))"
  let ?E = "Run (Cat (Opt (Lit CR)) (Alt EndZ (Grp 3 (Lit NL))))"
  have E: "map_option snd (rmatch [?E] p s c) =
    (if s = [] \<or> s = [CR] then Some ([], c)
     else (case eol_len s of None \<Rightarrow> None | Some n \<Rightarrow> Some (drop n s, c(3 \<mapsto> [NL]))))"
    by (cases s) (auto simp: rmatch_rep eol_len_def numeral_2_eq_2 split: list.splits option.splits)
  have "map_option snd (rmatch [Run CLOSING_RE] p s c) =
    (if s = [] then Some ([], c)
     else case map_option snd (rmatch [?P] p s c) of
            None \<Rightarrow> map_option snd (rmatch [?E] p s c) | Some m \<Rightarrow> Some m)"
    by (simp add: CLOSING_RE_def split: option.splits)
  then show ?thesis
    unfolding rmatch_partial_line E by auto
qed

lemma rmatch_lines:
  "map_option snd (rmatch [Run (Cat (Grp 2 (Rep HEADER_LINE_RE 0 50)) CLOSING_RE)] p s c) =
     (let n = scan_rep hline_len 50 s
      in map_option snd (rmatch [Run CLOSING_RE] (rev (take n s) @ p) (drop n s) (c(2 \<mapsto> take n s))))"
proof -
  have dead: "rmatch [Close 2 s, Run CLOSING_RE] p t c = None" if "hline_len t = Some n" for p t n
  proof -
    from hline_len_Some_not_partial [OF that] have "t \<noteq> []" "\<not> partial_line t" "hchar (hd t)" by auto
    moreover from this have "eol_len t = None" "t \<noteq> [CR]"
      by (cases t; simp add: eol_len_hchar hchar_def)+
    ultimately have "map_option snd (rmatch [Run CLOSING_RE] p t (c(2 \<mapsto> take (length s - length t) s))) = None"
      by (simp only: rmatch_closing) simp
    then show ?thesis by simp
  qed
  show ?thesis
    using scan_rep_le [of hline_len 50 s, OF hline_len_le]
    by (simp add: rmatch_det_rep [OF det_header_line dead] Let_def)
qed

text \<open>
  The pattern of a head and its scanner agree on every input: the scanner never
  backtracks, so the head is read in one pass.
\<close>

lemma HEAD_RE_closing:
  "HEAD_RE =
     Alt EndZ
      (Cat (Grp 1 (Rep (Cls upper) 1 50)) (Alt EndZ
       (Cat (Opt (Lit CR)) (Alt EndZ
        (Cat (Lit NL) (Cat (Grp 2 (Rep HEADER_LINE_RE 0 50)) CLOSING_RE))))))"
  by (simp add: HEAD_RE_def CLOSING_RE_def)

lemma rmatch_after_command:
  "map_option snd (rmatch [Run (Alt EndZ (Cat (Opt (Lit CR)) (Alt EndZ (Cat (Lit NL) X))))] p s c) =
     (if s = [] \<or> s = [CR] then Some ([], c)
      else (case eol_len s of None \<Rightarrow> None
            | Some n \<Rightarrow> map_option snd (rmatch [Run X] (rev (take n s) @ p) (drop n s) c)))"
  by (cases s) (auto simp: rmatch_rep eol_len_def numeral_2_eq_2 split: list.splits option.splits)

lemma scan_head_correct: "head_view (re_match HEAD_RE s) = scan_head s"
proof (cases "s = []")
  case True
  then show ?thesis by (simp add: re_match_def HEAD_RE_def head_view_def scan_head_def)
next
  case False
  let ?L = "Cat (Grp 2 (Rep HEADER_LINE_RE 0 50)) CLOSING_RE"
  let ?A = "Run (Alt EndZ (Cat (Opt (Lit CR)) (Alt EndZ (Cat (Lit NL) ?L))))"
  define n where "n = length (takeWhile upper s)"
  have dead: "rmatch [Close 1 s, ?A] p (x # t) (\<lambda>_. None) = None" if "upper x" for x p t
    using upper_not [OF that] by (simp add: rmatch_rep)
  have cmd: "rmatch (Run (Rep (Cls upper) 1 50) # [Close 1 s, ?A]) [] s (\<lambda>_. None) =
    (let n = length (takeWhile upper s) in if 1 \<le> n \<and> n \<le> 50
     then rmatch [Close 1 s, ?A] (rev (take n s) @ []) (drop n s) (\<lambda>_. None) else None)"
    by (rule rmatch_cls_rep) (rule dead)
  have "re_match HEAD_RE s = map_option snd (rmatch (Run (Rep (Cls upper) 1 50) # [Close 1 s, ?A]) [] s (\<lambda>_. None))"
    using False by (simp add: re_match_def HEAD_RE_closing)
  also have "\<dots> = (if 1 \<le> n \<and> n \<le> 50
    then map_option snd (rmatch [?A] (rev (take n s)) (drop n s) ((\<lambda>_. None)(1 \<mapsto> take n s))) else None)"
    unfolding cmd n_def [symmetric] Let_def
    using length_takeWhile_le [of upper s] by (simp add: n_def del: rmatch.simps(5,6))
  finally show ?thesis
    using False
    unfolding rmatch_after_command rmatch_lines rmatch_closing Let_def
    by (auto simp: head_view_def scan_head_def scan_lines_def scan_closing_def Let_def
        n_def [symmetric] split: option.splits)
qed

definition hb_len :: "bytes \<Rightarrow> nat" where
  "hb_len s = scan_rep eol_len (Suc (length s)) s"

lemma hb_len_le: "hb_len s \<le> length s"
  unfolding hb_len_def by (rule scan_rep_le) (simp add: eol_len_le)

lemma heartbeat_scan:
  "map_option fst (re_match HEARTBEAT_RE s) = (if hb_len s = 0 then None else Some (drop (hb_len s) s))"
proof -
  have start: "rmatch [Run HEARTBEAT_RE] [] s (\<lambda>_. None) =
    rmatch [Run EOL_RE, Run (Rep EOL_RE 0 (length s))] [] s (\<lambda>_. None)"
    by (simp add: HEARTBEAT_RE_def rmatch_plus rmatch_rep [of EOL_RE "Suc 0"])
  have first: "rmatch [Run EOL_RE, Run (Rep EOL_RE 0 (length s))] [] s (\<lambda>_. None) =
    (case eol_len s of None \<Rightarrow> None
     | Some n \<Rightarrow> rmatch [Run (Rep EOL_RE 0 (length s))] (rev (take n s)) (drop n s) (\<lambda>_. None))"
    using detD [OF det_EOL, of "[Run (Rep EOL_RE 0 (length s))]" "[]" s "\<lambda>_. None"]
    by (simp split: option.splits)
  have last: "map_option snd (rmatch [Run (Rep EOL_RE 0 (length s))] p t c) =
      Some (drop (scan_rep eol_len (length s) t) t, c)" for p t c
    using rmatch_det_rep_last [OF det_EOL, of "length s" p t c] by auto
  have eq: "re_match HEARTBEAT_RE s = (case eol_len s of None \<Rightarrow> None
    | Some n \<Rightarrow> map_option snd (rmatch [Run (Rep EOL_RE 0 (length s))] (rev (take n s)) (drop n s) (\<lambda>_. None)))"
    by (simp add: re_match_def start first split: option.splits)
  show ?thesis
  proof (cases "eol_len s")
    case (Some n)
    with eol_len_le [OF Some] show ?thesis
      unfolding eq by (simp add: last hb_len_def add.commute)
  qed (simp add: eq hb_len_def)
qed

definition sep_len :: "bytes \<Rightarrow> nat option" where
  "sep_len s = (case eol_len s of
     Some n \<Rightarrow> Some n
   | None \<Rightarrow> (case s of [] \<Rightarrow> None | x # _ \<Rightarrow> if x = COLON then Some 1 else None))"

lemma separator_scan: "map_option fst (re_match HEADER_SEPARATOR_RE s) = map_option (\<lambda>n. drop n s) (sep_len s)"
  by (auto simp: re_match_def HEADER_SEPARATOR_RE_def detD [OF det_EOL] sep_len_def
      split: option.splits list.splits)

definition esc_len :: "bytes \<Rightarrow> nat option" where
  "esc_len s = (case s of x # y # _ \<Rightarrow> if x = BSL \<and> y \<noteq> NL then Some 2 else None | _ \<Rightarrow> None)"

lemma escape_scan: "map_option fst (re_match HEADER_UNESCAPE_RE s) = map_option (\<lambda>n. drop n s) (esc_len s)"
proof -
  have "rmatch [Run (Cls (\<lambda>c. c \<noteq> NL))] p t c =
    (case t of [] \<Rightarrow> None | y # u \<Rightarrow> if y \<noteq> NL then Some (y # p, u, c) else None)" for p t c
    by (cases t) simp_all
  then show ?thesis
    by (auto simp: re_match_def HEADER_UNESCAPE_RE_def esc_len_def numeral_2_eq_2 split: list.splits)
qed

section \<open>The steps of the parser, by their scanners\<close>

lemma parse_heartbeats_scan:
  assumes "p_current_pos p \<le> length (p_data p)"
  shows "parse_heartbeats p =
    p\<lparr>p_current_pos := p_current_pos p + hb_len (drop (p_current_pos p) (p_data p))\<rparr>"
proof -
  let ?s = "drop (p_current_pos p) (p_data p)"
  have "hb_len ?s \<le> length (p_data p) - p_current_pos p"
    using hb_len_le [of ?s] by simp
  moreover have "hb_len [] = 0" by (simp add: hb_len_def eol_len_def)
  ultimately show ?thesis
    using assms heartbeat_scan [of ?s]
    by (auto simp: parse_heartbeats_def split: option.splits if_splits)
qed

lemma parse_command_scan:
  "parse_command p =
     (let s = drop (p_current_pos p) (p_data p) in
      if length (p_data p) = p_current_pos p then (Inr False, p)
      else (case scan_head s of
              Invalid \<Rightarrow> (Inl (ProtocolError (lit ''Invalid frame.'')), p)
            | Partial \<Rightarrow> (Inr False, p)
            | Head cmd lines rest \<Rightarrow>
                (let pos = length (p_data p) - length rest;
                     p1 = p\<lparr>p_current_pos := pos, p_command := map of_char cmd\<rparr>
                 in case parse_headers lines of
                      Inl e \<Rightarrow> (Inl e, p1)
                    | Inr h \<Rightarrow>
                        (let p2 = p1\<lparr>p_headers := h\<rparr>; n = content_length h
                         in if int BODY_MAX_LENGTH < n
                            then (Inl (ProtocolError (lit ''Content-length is too large.'')), p2)
                            else (Inr True, p2\<lparr>p_body_end := int pos + n\<rparr>)))))"
  unfolding parse_command_def scan_head_correct [symmetric] head_view_def Let_def
  by (auto split: option.splits sum.splits)

lemma scan_closing_Head:
  "scan_closing cmd ls t = Head cmd' ls' rest \<Longrightarrow> cmd' = cmd \<and> ls' = ls \<and> (\<exists>e. t = e @ rest \<and> e \<noteq> [])"
proof -
  assume "scan_closing cmd ls t = Head cmd' ls' rest"
  then obtain n where "eol_len t = Some n" and "cmd' = cmd" "ls' = ls" "rest = drop n t"
    by (auto simp: scan_closing_def split: if_splits option.splits)
  with eol_len_le [of t n] show ?thesis
    by (auto intro!: exI [of _ "take n t"])
qed

text \<open>A complete head is a non-empty prefix of the data, and its command is not empty.\<close>

lemma scan_head_Head:
  assumes "scan_head s = Head cmd lines rest"
  shows "cmd \<noteq> []" and "list_all upper cmd" and "length rest < length s"
    and "\<exists>h. s = h @ rest"
proof -
  define n where "n = length (takeWhile upper s)"
  define u where "u = drop n s"
  from assms obtain m where s: "s \<noteq> []" and n: "1 \<le> n" and m: "eol_len u = Some m"
    and sl: "scan_lines (take n s) (drop m u) = Head cmd lines rest"
    by (auto simp: scan_head_def Let_def n_def [symmetric] u_def [symmetric] split: if_splits option.splits)
  from sl [unfolded scan_lines_def Let_def] obtain e where
    cmd: "cmd = take n s" and e: "drop (scan_rep hline_len 50 (drop m u)) (drop m u) = e @ rest"
    using scan_closing_Head by metis
  have tw: "take n s = takeWhile upper s"
    by (simp add: n_def take_takeWhile_length)
  show "cmd \<noteq> []" using cmd s n by auto
  show "list_all upper cmd" using cmd tw by (auto simp: list_all_iff dest: set_takeWhileD)
  have u: "s = take n s @ u" by (simp add: u_def)
  define w where "w = m + scan_rep hline_len 50 (drop m u)"
  from e have "drop w u = e @ rest" by (simp add: w_def add.commute)
  then have "s = (take n s @ take w u @ e) @ rest"
    using u append_take_drop_id [of w u] by simp
  then show ex: "\<exists>h. s = h @ rest" by blast
  from \<open>s = (take n s @ take w u @ e) @ rest\<close> have "length s = length (take n s) + length (take w u @ e @ rest)"
    by (metis append_assoc length_append)
  moreover have "0 < length (take n s)" using s n by simp
  ultimately show "length rest < length s" by (simp del: length_take)
qed

end
