(* ===== verification/Stomp_Loop.thy ===== *)
theory Stomp_Loop
  imports Stomp_Parser
begin

text \<open>
  When the loop of \<^verbatim>\<open>StompParser.add_bytes\<close> returns. It returns on every input in which no
  frame head declares a negative \<^verbatim>\<open>content-length\<close>, and it then leaves a buffer of bounded
  size. It does not return on every input: a head with a negative \<^verbatim>\<open>content-length\<close> lets the
  parser find a frame terminator that it has already consumed, move back, and parse the
  same head again.
\<close>

section \<open>Termination\<close>

definition negative_head :: "bytes \<Rightarrow> bool" where
  "negative_head s =
     (case scan_head s of
        Head _ lines _ \<Rightarrow> (case parse_headers lines of Inr h \<Rightarrow> content_length h < 0 | Inl _ \<Rightarrow> False)
      | _ \<Rightarrow> False)"

definition declares_negative_length :: "bytes \<Rightarrow> bool" where
  "declares_negative_length d \<longleftrightarrow> list_ex (\<lambda>i. negative_head (drop i d)) [0..<length d]"

text \<open>
  The invariant of the parser between two blocks: the position is inside the buffer, and
  the body that is being read does not end before it starts.
\<close>

definition parser_ok :: "stomp_parser \<Rightarrow> bool" where
  "parser_ok p \<longleftrightarrow> p_current_pos p \<le> length (p_data p) \<and>
     (p_command p \<noteq> [] \<longrightarrow>
        int (p_current_pos p) \<le> p_body_end p \<and>
        p_body_end p \<le> int (p_current_pos p + BODY_MAX_LENGTH))"

lemma parser_ok_reset: "parser_ok reset"
  by (simp add: parser_ok_def reset_def)

lemma parser_ok_extend: "parser_ok p \<Longrightarrow> parser_ok (p\<lparr>p_data := p_data p @ d\<rparr>)"
  by (simp add: parser_ok_def)

lemma not_negative_head:
  "\<not> declares_negative_length d \<Longrightarrow> i < length d \<Longrightarrow> \<not> negative_head (drop i d)"
  by (auto simp: declares_negative_length_def list_ex_iff)

text \<open>
  The longest head that is still incomplete: a command, its line end, fifty header lines
  and the beginning of one more.
\<close>

definition PENDING_MAX :: nat where
  "PENDING_MAX = 50 + 2 + 50 * 1003 + 1002"

lemma hline_len_bound: "hline_len s = Some n \<Longrightarrow> n \<le> 1003"
proof -
  have "value_len t = Some m \<Longrightarrow> m \<le> 502" for t m
    by (auto simp: value_len_def eol_len_def Let_def split: if_splits list.splits)
  then show "hline_len s = Some n \<Longrightarrow> n \<le> 1003"
    by (fastforce simp: hline_len_def Let_def split: if_splits list.splits)
qed

lemma partial_line_bound: "partial_line s \<Longrightarrow> length s \<le> 1002"
proof -
  assume p: "partial_line s"
  define n where "n = length (takeWhile hchar s)"
  from p have n: "n \<le> 500" by (auto simp: partial_line_def Let_def n_def)
  have "length (drop n s) \<le> 502"
  proof (cases "drop n s")
    case (Cons y t)
    define m where "m = length (takeWhile hchar t)"
    from p Cons have "m \<le> 500" "drop m t = [] \<or> drop m t = [CR]"
      by (auto simp: partial_line_def Let_def n_def [symmetric] m_def [symmetric])
    then have "length t \<le> 501"
      using length_drop [of m t] by (auto simp del: length_drop)
    with Cons show ?thesis by simp
  qed simp
  with n show ?thesis by simp
qed

lemma scan_head_Partial_bound: "scan_head s = Partial \<Longrightarrow> length s \<le> PENDING_MAX"
proof -
  assume s: "scan_head s = Partial"
  define n where "n = length (takeWhile upper s)"
  define u where "u = drop n s"
  from s consider "s = []" | "n \<le> 50" "length u \<le> 1"
    | m where "n \<le> 50" "eol_len u = Some m" "scan_lines (take n s) (drop m u) = Partial"
    by (auto simp: scan_head_def Let_def n_def [symmetric] u_def [symmetric] split: if_splits option.splits)
  then show ?thesis
  proof cases
    case 3
    define t where "t = drop m u"
    define k where "k = scan_rep hline_len 50 t"
    have "k \<le> 50 * 1003"
      unfolding k_def by (rule scan_rep_bound) (rule hline_len_bound)
    moreover have "drop k t = [] \<or> partial_line (drop k t) \<or> drop k t = [CR]"
      using 3(3)
      by (auto simp: scan_lines_def scan_closing_def Let_def t_def [symmetric] k_def [symmetric]
          split: if_splits option.splits)
    then have "length (drop k t) \<le> 1002"
      using partial_line_bound [of "drop k t"] by (auto simp del: length_drop)
    moreover have "m \<le> 2" using 3(2) by (auto simp: eol_len_def split: list.splits if_splits)
    ultimately show ?thesis
      using 3(1) by (simp add: PENDING_MAX_def t_def u_def)
  qed (simp_all add: PENDING_MAX_def u_def)
qed

lemma parse_command_ok:
  assumes "parser_ok p" and "p_command p = []" and "\<not> declares_negative_length (p_data p)"
    and "parse_command p = (Inr b, p')"
  shows "parser_ok p' \<and> p_data p' = p_data p \<and> p_frames p' = p_frames p \<and>
    (if b then p_current_pos p < p_current_pos p'
     else length (p_data p') - p_current_pos p' \<le> PENDING_MAX)"
proof -
  define s where "s = drop (p_current_pos p) (p_data p)"
  from assms(4) consider "b = False" "p' = p" "length (p_data p) = p_current_pos p \<or> scan_head s = Partial"
    | cmd ls rest h where "b" "length (p_data p) \<noteq> p_current_pos p" "scan_head s = Head cmd ls rest"
      "parse_headers ls = Inr h" "\<not> int BODY_MAX_LENGTH < content_length h"
      "p' = p\<lparr>p_current_pos := length (p_data p) - length rest, p_command := map of_char cmd,
               p_headers := h, p_body_end := int (length (p_data p) - length rest) + content_length h\<rparr>"
    unfolding parse_command_scan s_def [symmetric] Let_def
    by (auto split: if_splits scan.splits sum.splits)
  then show ?thesis
  proof cases
    case 1
    with assms(1) scan_head_Partial_bound [of s] show ?thesis by (auto simp: s_def)
  next
    case (2 cmd ls rest h)
    have "length rest < length s" using scan_head_Head(3) 2(3) .
    moreover have "length s = length (p_data p) - p_current_pos p" by (simp add: s_def)
    moreover have "0 \<le> content_length h"
      using not_negative_head [OF assms(3), of "p_current_pos p"] 2(2-4) assms(1)
      by (auto simp: negative_head_def s_def [symmetric] parser_ok_def)
    ultimately show ?thesis
      using 2 assms(1) by (auto simp: parser_ok_def)
  qed
qed

lemma parse_body_ok:
  assumes "parser_ok p" and "p_command p \<noteq> []" and "parse_body p = (Inr b, p')"
  shows "parser_ok p' \<and> p_data p' = p_data p \<and>
    (if b then p_current_pos p < p_current_pos p'
     else p_current_pos p' = p_current_pos p \<and> p_command p' = p_command p \<and>
       length (p_data p) - p_current_pos p \<le> BODY_MAX_LENGTH)"
proof (cases "p_body_end p < int (length (p_data p))")
  case True
  let ?stop = "int (p_current_pos p + BODY_MAX_LENGTH + 1)"
  show ?thesis
  proof (cases "py_find (p_data p) NUL (p_body_end p) ?stop")
    case None
    with True assms show ?thesis
      by (auto simp: parse_body_def Let_def parser_ok_def split: if_splits)
  next
    case (Some stop)
    have "clip (length (p_data p)) (p_body_end p) = nat (p_body_end p)"
      using True assms(1,2) by (simp add: parser_ok_def)
    with py_find_bounds(1,2) [OF Some] clip_le [of "length (p_data p)" ?stop]
    have "nat (p_body_end p) \<le> stop" "stop < length (p_data p)" by simp_all
    with Some True assms show ?thesis
      by (auto simp: parse_body_def Let_def parser_ok_def)
  qed
next
  case False
  with assms show ?thesis
    by (auto simp: parse_body_def parser_ok_def)
qed

lemma parse_heartbeats_ok:
  assumes "parser_ok p" and "p_command p = []"
  shows "parser_ok (parse_heartbeats p)" "p_data (parse_heartbeats p) = p_data p"
    "p_frames (parse_heartbeats p) = p_frames p" "p_command (parse_heartbeats p) = []"
    "p_current_pos p \<le> p_current_pos (parse_heartbeats p)"
  using assms hb_len_le [of "drop (p_current_pos p) (p_data p)"]
  by (auto simp: parser_ok_def parse_heartbeats_scan)

lemma parse_block_ok:
  assumes "parser_ok p" and "\<not> declares_negative_length (p_data p)" and "parse_block p = (Inr b, p')"
  shows "parser_ok p' \<and> p_data p' = p_data p \<and> (if b then p_current_pos p < p_current_pos p'
    else length (p_data p') - p_current_pos p' \<le> PENDING_MAX)"
proof (cases "p_command p = []")
  case True
  note hb = parse_heartbeats_ok [OF assms(1) True]
  have "parse_command (parse_heartbeats p) = (Inr b, p')"
    using assms(3) True by (simp add: parse_block_def)
  with parse_command_ok [OF hb(1) hb(4) _ this] assms(2) hb show ?thesis
    by (auto split: if_splits)
next
  case False
  with assms(3) have "parse_body p = (Inr b, p')" by (simp add: parse_block_def)
  from parse_body_ok [OF assms(1) False this] show ?thesis
    by (auto simp: PENDING_MAX_def BODY_MAX_LENGTH_def split: if_splits)
qed

lemma parse_loop_returns:
  assumes "parser_ok p" and "\<not> declares_negative_length (p_data p)"
  shows "\<exists>e p'. parse_loop p = Some (e, p') \<and> (e = None \<longrightarrow> parser_ok p' \<and>
    p_data p' = p_data p \<and> length (p_data p') - p_current_pos p' \<le> PENDING_MAX)"
  using assms
proof (induction "length (p_data p) - p_current_pos p" arbitrary: p rule: less_induct)
  case less
  obtain r p1 where block: "parse_block p = (r, p1)" by fastforce
  show ?case
  proof (cases r)
    case (Inl e)
    with block show ?thesis by (simp add: parse_loop.simps [of p])
  next
    case (Inr b)
    with block have ok: "parser_ok p1 \<and> p_data p1 = p_data p \<and> (if b then p_current_pos p < p_current_pos p1
      else length (p_data p1) - p_current_pos p1 \<le> PENDING_MAX)"
      using parse_block_ok [OF less.prems] by blast
    show ?thesis
    proof (cases b)
      case True
      with ok have "length (p_data p1) - p_current_pos p1 < length (p_data p) - p_current_pos p"
        using less.prems(1) by (auto simp: parser_ok_def)
      from less.hyps [OF this] ok less.prems block Inr True show ?thesis
        by (simp add: parse_loop.simps [of p])
    next
      case False
      with block Inr ok show ?thesis by (auto simp: parse_loop.simps [of p])
    qed
  qed
qed

lemma parser_ok_compact:
  "parser_ok p \<Longrightarrow> parser_ok (compact p) \<and> p_current_pos (compact p) = 0 \<and>
     p_data (compact p) = drop (p_current_pos p) (p_data p) \<and> p_frames (compact p) = p_frames p"
  by (auto simp: compact_def parser_ok_def Let_def)

lemma add_bytes_total:
  assumes "parser_ok p" and "\<not> declares_negative_length (p_data p @ d)"
  shows "\<exists>r p'. add_bytes d p = Some (r, p') \<and> (r = Inr () \<longrightarrow> parser_ok p' \<and>
    p_current_pos p' = 0 \<and> length (p_data p') \<le> PENDING_MAX)"
proof -
  obtain e p1 where loop: "parse_loop (p\<lparr>p_data := p_data p @ d\<rparr>) = Some (e, p1)"
    and ok: "e = None \<longrightarrow> parser_ok p1 \<and> length (p_data p1) - p_current_pos p1 \<le> PENDING_MAX"
    using parse_loop_returns [OF parser_ok_extend [OF assms(1), of d]] assms(2) by auto
  show ?thesis
    using loop ok parser_ok_compact [of p1]
    by (cases e) (auto simp: add_bytes_def)
qed

section \<open>Divergence\<close>

text \<open>
  A set of states that the loop never leaves makes it run forever: the only way to prove
  of a partial function that it does not return.
\<close>

lemma parse_loop_diverges:
  assumes "p \<in> S" and closed: "\<And>p. p \<in> S \<Longrightarrow> \<exists>p'. parse_block p = (Inr True, p') \<and> p' \<in> S"
  shows "parse_loop p = None"
proof (rule ccontr)
  assume "parse_loop p \<noteq> None"
  then obtain r where "parse_loop p = Some r" by auto
  then have "p \<notin> S"
  proof (rule parse_loop.raw_induct [where P = "\<lambda>p r. p \<notin> S", rotated])
    fix f p r
    assume IH: "\<And>p r. f p = Some r \<Longrightarrow> p \<notin> S"
      and eq: "(case parse_block p of (Inl e, p') \<Rightarrow> Some (Some e, p')
        | (Inr b, p') \<Rightarrow> if b then f p' else Some (None, p')) = Some r"
    show "p \<notin> S"
    proof
      assume "p \<in> S"
      with closed obtain p' where "parse_block p = (Inr True, p')" "p' \<in> S" by blast
      with eq IH show False by auto
    qed
  qed
  with assms(1) show False by simp
qed

section \<open>Evaluating the parser\<close>

text \<open>
  Rules that evaluate the parser on a concrete input through its scanners. The numeral
  in a repetition is counted down by \<open>scan_rep_eval\<close>.
\<close>

lemma scan_rep_eval:
  "scan_rep f h s = (if h = 0 then 0 else case f s of None \<Rightarrow> 0 | Some n \<Rightarrow> n + scan_rep f (h - 1) (drop n s))"
  by (cases h) (simp_all split: option.splits)

lemma re_split_eval:
  "re_split_from HEADER_SEPARATOR_RE acc s =
     (case s of [] \<Rightarrow> [rev acc]
      | x # xs \<Rightarrow> (case sep_len s of
                     Some n \<Rightarrow> rev acc # re_split_from HEADER_SEPARATOR_RE [] (drop n s)
                   | None \<Rightarrow> re_split_from HEADER_SEPARATOR_RE (x # acc) xs))"
proof -
  have "sep_len s = Some n \<Longrightarrow> 0 < n \<and> n \<le> length s" for n
    using eol_len_le [of s] by (auto simp: sep_len_def split: option.splits list.splits if_splits)
  with separator_scan [of s] show ?thesis
    by (subst re_split_from.simps) (auto split: list.splits option.splits)
qed

lemma re_sub_eval:
  "re_sub HEADER_UNESCAPE_RE f s =
     (case s of [] \<Rightarrow> Inr []
      | x # xs \<Rightarrow> (case esc_len s of
                     Some n \<Rightarrow> bindE (f (take n s)) (\<lambda>u. map_sum id ((@) u) (re_sub HEADER_UNESCAPE_RE f (drop n s)))
                   | None \<Rightarrow> map_sum id ((#) x) (re_sub HEADER_UNESCAPE_RE f xs)))"
proof -
  have "esc_len s = Some n \<Longrightarrow> 0 < n \<and> n \<le> length s" for n
    by (auto simp: esc_len_def split: list.splits if_splits)
  with escape_scan [of s] show ?thesis
    by (subst re_sub.simps) (auto split: list.splits option.splits)
qed

lemmas parser_eval =
  parse_block_def parse_heartbeats_scan parse_command_scan parse_body_def Let_def
  scan_head_def scan_lines_def scan_closing_def partial_line_def hline_len_def value_len_def
  eol_len_def sep_len_def esc_len_def hb_len_def upper_def hchar_def scan_rep_eval
  parse_headers_def HEADER_MAX_LENGTH_def BODY_MAX_LENGTH_def re_split_def re_split_eval
  decode_header_def substitute_header_escape_chars_def re_sub_eval unescape_char_def
  utf8_decode.simps(2) content_length_def CONTENT_LENGTH_def
  dict_add_def py_find_def py_slice_def clip_def

lemmas int_eval =
  py_int_def to_ascii_def blank_def scan_number_def digit_val_def skip_prefix_def

end
