(* ===== verification/Stomp_Stream.thy ===== *)
theory Stomp_Stream
  imports Stomp_Loop
begin

text \<open>
  Printing and parsing are inverse to each other on streams of frames. A frame that obeys
  the limits of the parser (\<open>wf_frame\<close>) is printed by \<^verbatim>\<open>StompFrame.__bytes__\<close> as a head, the
  body and a terminator; any sequence of such frames and heartbeats, cut into chunks at
  any place, makes \<^verbatim>\<open>StompParser.add_bytes\<close> return without error on every chunk and
  produce exactly these frames, in order.
\<close>

section \<open>Frames on the wire\<close>

definition wire_headers :: "stomp_frame \<Rightarrow> headers" where
  "wire_headers f =
     f_headers f @
     (if f_body f \<noteq> [] \<and> map_of (f_headers f) CONTENT_LENGTH = None
      then [(CONTENT_LENGTH, dec_of_nat (length (f_body f)))] else [])"

definition enc :: "str \<Rightarrow> bytes" where
  "enc s = concat (map utf8_char (translate s))"

definition hdr_bytes :: "str \<times> str \<Rightarrow> bytes" where
  "hdr_bytes h = enc (fst h) @ [COLON] @ enc (snd h) @ [NL]"

definition head_lines :: "stomp_frame \<Rightarrow> bytes" where
  "head_lines f = concat (map hdr_bytes (wire_headers f))"

definition head_bytes :: "stomp_frame \<Rightarrow> bytes" where
  "head_bytes f = map char_of (f_command f) @ [NL] @ head_lines f @ [NL]"

definition wire :: "stomp_frame \<Rightarrow> bytes" where
  "wire f = head_bytes f @ f_body f @ [NUL]"

definition wf_header :: "str \<times> str \<Rightarrow> bool" where
  "wf_header h \<longleftrightarrow> list_all scalar (fst h) \<and> list_all scalar (snd h) \<and>
     1 \<le> length (enc (fst h)) \<and> length (enc (fst h)) \<le> 500 \<and> length (enc (snd h)) \<le> 500"

text \<open>
  The frames that fit the limits of the parser. The last line says that the declared
  length (0 if there is none) leads the parser to the frame's own terminator.
\<close>

definition wf_frame :: "stomp_frame \<Rightarrow> bool" where
  "wf_frame f \<longleftrightarrow>
     1 \<le> length (f_command f) \<and> length (f_command f) \<le> 50 \<and>
     list_all (\<lambda>cp. 65 \<le> cp \<and> cp \<le> 90) (f_command f) \<and>
     distinct (map fst (f_headers f)) \<and> list_all wf_header (wire_headers f) \<and>
     length (wire_headers f) \<le> 50 \<and> length (head_lines f) \<le> HEADER_MAX_LENGTH \<and>
     length (f_body f) \<le> BODY_MAX_LENGTH \<and>
     0 \<le> content_length (wire_headers f) \<and>
     content_length (wire_headers f) \<le> int (length (f_body f)) \<and>
     NUL \<notin> set (drop (nat (content_length (wire_headers f))) (f_body f))"

text \<open>What the parser makes of a frame: the headers as printed.\<close>

definition parsed :: "stomp_frame \<Rightarrow> stomp_frame" where
  "parsed f = \<lparr>f_command = f_command f, f_headers = wire_headers f, f_body = f_body f\<rparr>"

section \<open>Escaping\<close>

lemma char_of_escapes [simp]:
  "char_of (92::nat) = BSL" "char_of (114::nat) = CHR ''r''" "char_of (110::nat) = CHR ''n''"
  "char_of (99::nat) = CHR ''c''" "char_of (13::nat) = CR" "char_of (10::nat) = NL"
  "char_of (58::nat) = COLON"
  by (simp_all add: char_of_def bit_0)

lemma unescape_char_simps [simp]:
  "unescape_char [BSL, CHR ''r''] = Inr [CR]" "unescape_char [BSL, CHR ''n''] = Inr [NL]"
  "unescape_char [BSL, CHR ''c''] = Inr [COLON]" "unescape_char [BSL, BSL] = Inr [BSL]"
  by (simp_all add: unescape_char_def)

lemma translate_Nil [simp]: "translate [] = []"
  and translate_Cons [simp]: "translate (cp # s) = esc_char cp @ translate s"
  and translate_append [simp]: "translate (s @ t) = translate s @ translate t"
  by (simp_all add: translate_def)

lemma esc_char_scalar: "scalar cp \<Longrightarrow> list_all scalar (esc_char cp)"
  by (simp add: esc_char_def scalar_def surrogate_def)

lemma translate_scalar: "list_all scalar s \<Longrightarrow> list_all scalar (translate s)"
  by (induction s) (simp_all add: esc_char_scalar)

lemma translate_scalar_iff: "list_all scalar (translate s) \<longleftrightarrow> list_all scalar s"
  by (induction s) (auto simp: esc_char_def scalar_def surrogate_def)

lemma enc_Nil [simp]: "enc [] = []"
  and enc_Cons: "enc (cp # s) = concat (map utf8_char (esc_char cp)) @ enc s"
  by (simp_all add: enc_def)

lemma utf8_char_no_ascii: "scalar cp \<Longrightarrow> 0x80 \<le> cp \<Longrightarrow> of_char b < (0x80::nat) \<Longrightarrow> b \<notin> set (utf8_char cp)"
  using utf8_char_high [of cp b] by (auto simp: scalar_def)

lemma utf8_char_plain:
  assumes "scalar cp" and "cp \<noteq> of_char b" and "of_char b < (0x80::nat)"
  shows "b \<notin> set (utf8_char cp)"
proof (cases "cp < 0x80")
  case True
  with assms show ?thesis by (auto simp: utf8_char_ascii)
next
  case False
  with assms show ?thesis by (simp add: utf8_char_no_ascii)
qed

lemma enc_hchar: "list_all scalar s \<Longrightarrow> list_all hchar (enc s)"
proof (induction s)
  case (Cons cp s)
  have "list_all hchar (concat (map utf8_char (esc_char cp)))"
    using Cons.prems utf8_char_plain [of cp NL] utf8_char_plain [of cp CR] utf8_char_plain [of cp COLON]
    by (auto simp: esc_char_def utf8_char_ascii hchar_def list_all_iff)
  with Cons show ?case by (simp add: enc_Cons)
qed simp

lemma re_sub_plain:
  "BSL \<notin> set w \<Longrightarrow> re_sub HEADER_UNESCAPE_RE f (w @ t) = map_sum id ((@) w) (re_sub HEADER_UNESCAPE_RE f t)"
proof (induction w)
  case (Cons x w)
  then have "esc_len (x # w @ t) = None"
    by (auto simp: esc_len_def split: list.splits)
  with Cons show ?case
    by (simp add: re_sub_eval [of f "x # w @ t"] sum.map_comp comp_def)
qed (cases "re_sub HEADER_UNESCAPE_RE f t"; simp)

lemma re_sub_escape:
  "x \<noteq> NL \<Longrightarrow> f [BSL, x] = Inr u \<Longrightarrow>
     re_sub HEADER_UNESCAPE_RE f (BSL # x # t) = map_sum id ((@) u) (re_sub HEADER_UNESCAPE_RE f t)"
  by (simp add: re_sub_eval [of f "BSL # x # t"] esc_len_def)

lemma unescape_enc:
  "list_all scalar s \<Longrightarrow> substitute_header_escape_chars (enc s) = Inr (concat (map utf8_char s))"
  unfolding substitute_header_escape_chars_def
proof (induction s)
  case Nil
  then show ?case by (simp add: re_sub_eval)
next
  case (Cons cp s)
  from Cons have IH: "re_sub HEADER_UNESCAPE_RE unescape_char (enc s) = Inr (concat (map utf8_char s))"
    by simp
  consider "cp = 13" | "cp = 10" | "cp = 58" | "cp = 92" | "cp \<notin> {13, 10, 58, 92}" by auto
  then show ?case
  proof cases
    case 5
    then have e: "enc (cp # s) = utf8_char cp @ enc s" by (simp add: enc_Cons esc_char_def)
    have "BSL \<notin> set (utf8_char cp)"
      using 5 Cons.prems by (intro utf8_char_plain) auto
    with IH show ?thesis by (simp add: e re_sub_plain)
  qed (use IH in \<open>simp_all add: enc_Cons esc_char_def utf8_char_ascii re_sub_escape\<close>)
qed

lemma decode_header_enc: "list_all scalar s \<Longrightarrow> decode_header (enc s) = Inr s"
  by (simp add: decode_header_def unescape_enc utf8_decode_concat)

section \<open>Header lines\<close>

lemma re_split_hchar:
  "list_all hchar w \<Longrightarrow>
     re_split_from HEADER_SEPARATOR_RE acc (w @ t) = re_split_from HEADER_SEPARATOR_RE (rev w @ acc) t"
proof (induction w arbitrary: acc)
  case (Cons x w)
  then have "sep_len (x # w @ t) = None"
    by (simp add: sep_len_def eol_len_hchar) (simp add: hchar_def)
  with Cons show ?case
    by (simp add: re_split_eval [of acc "x # w @ t"])
qed simp

lemma re_split_sep:
  "c \<in> {COLON, NL} \<Longrightarrow> re_split_from HEADER_SEPARATOR_RE acc (c # t) = rev acc # re_split_from HEADER_SEPARATOR_RE [] t"
  by (auto simp: re_split_eval [of acc "c # t"] sep_len_def eol_len_def)

lemma re_split_hdr:
  assumes "list_all wf_header hs"
  shows "re_split HEADER_SEPARATOR_RE (concat (map hdr_bytes hs)) =
    concat (map (\<lambda>h. [enc (fst h), enc (snd h)]) hs) @ [[]]"
  unfolding re_split_def
  using assms
proof (induction hs)
  case Nil
  then show ?case by (simp add: re_split_eval)
next
  case (Cons h hs)
  then have "list_all hchar (enc (fst h))" "list_all hchar (enc (snd h))"
    by (simp_all add: wf_header_def enc_hchar)
  with Cons show ?case
    by (simp add: hdr_bytes_def re_split_hchar re_split_sep)
qed

lemma headers_loop_enc:
  assumes "list_all wf_header hs" and "distinct (map fst (d @ hs))"
  shows "headers_loop (concat (map (\<lambda>h. [enc (fst h), enc (snd h)]) hs) @ [[]]) d = Inr (d @ hs)"
  using assms
proof (induction hs arbitrary: d)
  case (Cons h hs)
  then have "dict_add (fst h) (snd h) d = d @ [h]"
    by (auto simp: dict_add_new)
  with Cons show ?case
    by (simp add: wf_header_def decode_header_enc)
qed simp

lemma wire_headers_distinct:
  "distinct (map fst (f_headers f)) \<Longrightarrow> distinct (map fst (wire_headers f))"
  by (auto simp: wire_headers_def map_of_eq_None_iff)

lemma parse_headers_wire:
  assumes "wf_frame f"
  shows "parse_headers (head_lines f) = Inr (wire_headers f)"
proof -
  from assms have "list_all wf_header (wire_headers f)" "distinct (map fst ([] @ wire_headers f))"
    "length (head_lines f) \<le> HEADER_MAX_LENGTH"
    by (simp_all add: wf_frame_def wire_headers_distinct)
  with headers_loop_enc [of "wire_headers f" "[]"] show ?thesis
    by (simp add: parse_headers_def head_lines_def re_split_hdr)
qed

lemma takeWhile_append_stop:
  "list_all P w \<Longrightarrow> \<not> P x \<Longrightarrow> takeWhile P (w @ x # t) = w"
  by (induction w) auto

lemma hline_len_hdr:
  assumes "wf_header h"
  shows "hline_len (hdr_bytes h @ t) = Some (length (hdr_bytes h))"
proof -
  have "list_all hchar (enc (fst h))" "list_all hchar (enc (snd h))" "\<not> hchar COLON" "\<not> hchar NL"
    using assms by (simp_all add: wf_header_def enc_hchar hchar_def)
  with assms show ?thesis
    by (simp add: hdr_bytes_def hline_len_def value_len_def eol_len_def Let_def
        takeWhile_append_stop wf_header_def)
qed

lemma takeWhile_all: "list_all P w \<Longrightarrow> takeWhile P w = w"
  by (induction w) auto

lemma strict_prefix_hdr_partial:
  assumes "wf_header h" and "hdr_bytes h = q @ r" and "q \<noteq> []" and "r \<noteq> []"
  shows "partial_line q" and "hline_len q = None"
proof -
  let ?k = "enc (fst h)" and ?v = "enc (snd h)"
  have hc: "list_all hchar ?k" "list_all hchar ?v" "\<not> hchar COLON"
    using assms(1) by (simp_all add: wf_header_def enc_hchar hchar_def)
  have len: "1 \<le> length ?k" "length ?k \<le> 500" "length ?v \<le> 500"
    using assms(1) by (simp_all add: wf_header_def)
  from assms(2) have "?k @ COLON # ?v @ [NL] = q @ r" by (simp add: hdr_bytes_def)
  then consider u where "?k = q @ u" | u w where "q = ?k @ COLON # u" "?v = u @ w"
    using assms(4)
    by (auto simp: append_eq_append_conv2 Cons_eq_append_conv)
  then have "partial_line q \<and> hline_len q = None"
  proof cases
    case 1
    with hc(1) have "list_all hchar q" by simp
    with 1 len assms(3) show ?thesis
      by (cases q) (simp_all add: partial_line_def hline_len_def Let_def takeWhile_all)
  next
    case 2
    with hc(2) have "list_all hchar u" by simp
    with 2 hc len show ?thesis
      by (simp add: partial_line_def hline_len_def value_len_def eol_len_def Let_def takeWhile_all
          takeWhile_append_stop)
  qed
  then show "partial_line q" and "hline_len q = None" by simp_all
qed

section \<open>Heads\<close>

lemma scan_rep_hdrs:
  "list_all wf_header hs \<Longrightarrow> length hs \<le> n \<Longrightarrow>
     scan_rep hline_len n (concat (map hdr_bytes hs) @ NL # t) = length (concat (map hdr_bytes hs))"
proof (induction hs arbitrary: n)
  case Nil
  have "hline_len (NL # t) = None" by (simp add: hline_len_def hchar_def)
  then show ?case by (cases n) simp_all
next
  case (Cons h hs)
  then obtain m where "n = Suc m" "length hs \<le> m" by (cases n) auto
  with Cons show ?case by (simp add: hline_len_hdr)
qed

lemma scan_rep_hdrs_prefix:
  assumes "list_all wf_header hs" and "length hs \<le> n" and "concat (map hdr_bytes hs) = q @ r"
  shows "drop (scan_rep hline_len n q) q = [] \<or> partial_line (drop (scan_rep hline_len n q) q)"
  using assms
proof (induction hs arbitrary: n q)
  case Nil
  then show ?case by simp
next
  case (Cons h hs)
  from Cons.prems(2) obtain m where n: "n = Suc m" "length hs \<le> m" by (cases n) auto
  from Cons.prems(3) consider q' where "q = hdr_bytes h @ q'" "concat (map hdr_bytes hs) = q' @ r"
    | u where "hdr_bytes h = q @ u" "u \<noteq> []"
    by (simp add: append_eq_append_conv2) (metis append_Nil append_Nil2)
  then show ?case
  proof cases
    case 1
    with Cons n show ?thesis by (simp add: hline_len_hdr)
  next
    case 2
    show ?thesis
    proof (cases "q = []")
      case False
      with strict_prefix_hdr_partial [OF _ 2(1) False 2(2)] Cons.prems(1) n show ?thesis by simp
    qed simp
  qed
qed

definition cmd_bytes :: "stomp_frame \<Rightarrow> bytes" where
  "cmd_bytes f = map char_of (f_command f)"

lemma cmd_bytes_upper:
  assumes "wf_frame f"
  shows "list_all upper (cmd_bytes f)" "map of_char (cmd_bytes f) = f_command f"
    "length (cmd_bytes f) = length (f_command f)"
proof -
  from assms have "list_all (\<lambda>cp. 65 \<le> cp \<and> cp \<le> 90) (f_command f)" by (simp add: wf_frame_def)
  then show "list_all upper (cmd_bytes f)" "map of_char (cmd_bytes f) = f_command f"
    by (auto simp: cmd_bytes_def upper_def list_all_iff comp_def intro!: map_idI)
  show "length (cmd_bytes f) = length (f_command f)" by (simp add: cmd_bytes_def)
qed

lemma scan_head_complete:
  assumes "wf_frame f"
  shows "scan_head (head_bytes f @ t) = Head (cmd_bytes f) (head_lines f) t"
proof -
  note cmd = cmd_bytes_upper [OF assms]
  have hs: "list_all wf_header (wire_headers f)" "length (wire_headers f) \<le> 50"
    and len: "1 \<le> length (f_command f)" "length (f_command f) \<le> 50"
    using assms by (simp_all add: wf_frame_def)
  have "\<not> upper NL" by (simp add: upper_def)
  with cmd have tw: "takeWhile upper (cmd_bytes f @ NL # u) = cmd_bytes f" for u
    by (simp add: takeWhile_append_stop)
  have "scan_lines (cmd_bytes f) (head_lines f @ NL # t) = Head (cmd_bytes f) (head_lines f) t"
    using scan_rep_hdrs [OF hs(1,2), of t]
    by (simp add: scan_lines_def scan_closing_def head_lines_def [symmetric] partial_line_def hchar_def
        eol_len_def)
  with len cmd show ?thesis
    by (simp add: head_bytes_def cmd_bytes_def [symmetric] scan_head_def tw eol_len_def Let_def)
qed

lemma scan_head_incomplete:
  assumes "wf_frame f" and "head_bytes f = q @ r" and "r \<noteq> []"
  shows "scan_head q = Partial"
proof -
  note cmd = cmd_bytes_upper [OF assms(1)]
  have hs: "list_all wf_header (wire_headers f)" "length (wire_headers f) \<le> 50"
    and len: "1 \<le> length (f_command f)" "length (f_command f) \<le> 50"
    using assms(1) by (simp_all add: wf_frame_def)
  have "\<not> upper NL" by (simp add: upper_def)
  with cmd have tw: "takeWhile upper (cmd_bytes f @ NL # u) = cmd_bytes f" for u
    by (simp add: takeWhile_append_stop)
  from assms(2) have "cmd_bytes f @ NL # head_lines f @ [NL] = q @ r"
    by (simp add: head_bytes_def cmd_bytes_def)
  then consider u where "cmd_bytes f = q @ u" | u w where "q = cmd_bytes f @ NL # u" "head_lines f = u @ w"
    using assms(3) by (auto simp: append_eq_append_conv2 Cons_eq_append_conv)
  then show ?thesis
  proof cases
    case 1
    with cmd have "list_all upper q" "length q \<le> 50" using len by (simp_all flip: cmd(3))
    then show ?thesis by (cases q) (simp_all add: scan_head_def Let_def takeWhile_all)
  next
    case 2
    from scan_rep_hdrs_prefix [OF hs 2(2) [unfolded head_lines_def]]
    have "scan_lines (cmd_bytes f) u = Partial"
      by (auto simp: scan_lines_def scan_closing_def Let_def)
    with 2(1) len cmd show ?thesis
      by (simp add: scan_head_def tw eol_len_def Let_def)
  qed
qed

section \<open>The printer\<close>

lemma translate_plain: "list_all (\<lambda>cp. cp \<notin> {10, 13, 58, 92}) s \<Longrightarrow> translate s = s"
  by (induction s) (simp_all add: esc_char_def)

lemma digits_plain: "list_all is_digit s \<Longrightarrow> list_all (\<lambda>cp. cp \<notin> {10, 13, 58, 92}) s"
  by (auto simp: list_all_iff is_digit_def)

lemma header_lines_wire: "header_lines f = concat (map header_line (wire_headers f))"
proof -
  have "translate CONTENT_LENGTH = CONTENT_LENGTH"
    by (rule translate_plain) (simp add: CONTENT_LENGTH_def)
  moreover have "translate (dec_of_nat n) = dec_of_nat n" for n
    by (intro translate_plain digits_plain dec_of_nat_digits)
  ultimately show ?thesis
    by (simp add: header_lines_def wire_headers_def header_line_def)
qed

lemma header_lines_bytes:
  "list_all wf_header hs \<Longrightarrow> list_all scalar (concat (map header_line hs)) \<and>
     concat (map utf8_char (concat (map header_line hs))) = concat (map hdr_bytes hs)"
proof (induction hs)
  case (Cons h hs)
  then have "list_all scalar (translate (fst h))" "list_all scalar (translate (snd h))"
    by (simp_all add: wf_header_def translate_scalar)
  with Cons show ?case
    by (simp add: header_line_def hdr_bytes_def enc_def utf8_char_ascii scalar_def [of 58] scalar_def [of 10]
        surrogate_def)
qed simp

lemma frame_bytes_wire: "wf_frame f \<Longrightarrow> frame_bytes f = Inr (wire f)"
proof -
  assume wf: "wf_frame f"
  then have "list_all wf_header (wire_headers f)"
    and cmd: "list_all (\<lambda>cp. cp < 0x80) (f_command f)"
    by (auto simp: wf_frame_def list_all_iff)
  from header_lines_bytes [OF this(1)] have "utf8_encode (header_lines f) = Inr (head_lines f)"
    by (simp add: utf8_encode_def header_lines_wire head_lines_def)
  with cmd show ?thesis
    by (simp add: frame_bytes_def ascii_encode_def wire_def head_bytes_def)
qed

section \<open>Streams\<close>

datatype item = Beat | Frame stomp_frame

fun item_bytes :: "item \<Rightarrow> bytes" where
  "item_bytes Beat = [NL]"
| "item_bytes (Frame f) = wire f"

fun wf_item :: "item \<Rightarrow> bool" where
  "wf_item Beat = True"
| "wf_item (Frame f) = wf_frame f"

definition stream :: "item list \<Rightarrow> bytes" where
  "stream items = concat (map item_bytes items)"

fun frames_of :: "item list \<Rightarrow> stomp_frame list" where
  "frames_of [] = []"
| "frames_of (Beat # items) = frames_of items"
| "frames_of (Frame f # items) = f # frames_of items"

text \<open>
  The parser is in step with a stream: the unread part of its buffer, followed by the bytes
  still to come (\<open>rest\<close>), is the remaining stream, or the remainder of the body of the
  frame \<open>f\<close> and the stream after it.
\<close>

definition unread :: "stomp_parser \<Rightarrow> bytes" where
  "unread p = drop (p_current_pos p) (p_data p)"

fun tracks :: "stomp_parser \<Rightarrow> bytes \<Rightarrow> stomp_frame option \<Rightarrow> item list \<Rightarrow> bool" where
  "tracks p rest None items \<longleftrightarrow>
     p_current_pos p \<le> length (p_data p) \<and> list_all wf_item items \<and>
     p_command p = [] \<and> unread p @ rest = stream items"
| "tracks p rest (Some f) items \<longleftrightarrow>
     p_current_pos p \<le> length (p_data p) \<and> list_all wf_item items \<and> wf_frame f \<and>
     p_command p = f_command f \<and> p_headers p = wire_headers f \<and>
     unread p @ rest = f_body f @ NUL # stream items \<and>
     (\<exists>k. p_body_end p = int (p_current_pos p + k) \<and> k \<le> length (f_body f) \<and> NUL \<notin> set (drop k (f_body f)))"

fun pending :: "stomp_frame option \<Rightarrow> item list \<Rightarrow> stomp_frame list" where
  "pending None items = map parsed (frames_of items)"
| "pending (Some f) items = parsed f # map parsed (frames_of items)"

lemma stream_Nil [simp]: "stream [] = []"
  and stream_Cons [simp]: "stream (i # items) = item_bytes i @ stream items"
  by (simp_all add: stream_def)

lemma wire_not_eol: "wf_frame f \<Longrightarrow> \<exists>c t. wire f = c # t \<and> upper c"
  using cmd_bytes_upper [of f]
  by (cases "cmd_bytes f") (auto simp: wire_def head_bytes_def cmd_bytes_def [symmetric] wf_frame_def)

lemma hb_len_stop: "eol_len s = None \<Longrightarrow> hb_len s = 0"
  by (simp add: hb_len_def)

lemma hb_len_NL: "hb_len (NL # s) = Suc (hb_len s)"
  by (simp add: hb_len_def eol_len_def)

text \<open>Skipping heartbeats keeps the parser in step, and leaves a frame or nothing in front.\<close>

lemma hb_len_stream:
  assumes "list_all wf_item items" and "d @ rest = stream items"
  shows "\<exists>items'. list_all wf_item items' \<and> drop (hb_len d) d @ rest = stream items' \<and>
    frames_of items' = frames_of items \<and>
    (drop (hb_len d) d = [] \<or> (\<exists>f items''. items' = Frame f # items''))"
  using assms
proof (induction items arbitrary: d)
  case Nil
  then show ?case by (auto simp: hb_len_stop eol_len_def intro!: exI [of _ "[]"])
next
  case (Cons i items)
  show ?case
  proof (cases d)
    case Nil
    with Cons.prems show ?thesis
      by (auto simp: hb_len_stop eol_len_def intro!: exI [of _ "i # items"])
  next
    case d: (Cons c d')
    show ?thesis
    proof (cases i)
      case Beat
      with Cons.prems d have "c = NL" "d' @ rest = stream items" "list_all wf_item items" by auto
      with Cons.IH [of d'] d Beat show ?thesis by (simp add: hb_len_NL)
    next
      case (Frame f)
      with Cons.prems wire_not_eol [of f] d have "upper c" by auto
      then have "hb_len d = 0"
        using upper_not [of c] d by (simp add: hb_len_stop eol_len_def)
      with Cons.prems Frame show ?thesis
        by (auto intro!: exI [of _ "i # items"])
    qed
  qed
qed

lemma tracks_heartbeats:
  assumes "tracks p rest None items"
  shows "\<exists>items'. tracks (parse_heartbeats p) rest None items' \<and> frames_of items' = frames_of items \<and>
    p_frames (parse_heartbeats p) = p_frames p \<and> p_data (parse_heartbeats p) = p_data p \<and>
    p_current_pos p \<le> p_current_pos (parse_heartbeats p) \<and>
    (unread (parse_heartbeats p) = [] \<or> (\<exists>f items''. items' = Frame f # items''))"
proof -
  from assms obtain items' where "list_all wf_item items'"
    "drop (hb_len (unread p)) (unread p) @ rest = stream items'" "frames_of items' = frames_of items"
    "drop (hb_len (unread p)) (unread p) = [] \<or> (\<exists>f items''. items' = Frame f # items'')"
    using hb_len_stream [of items "unread p" rest] by auto
  moreover have "parse_heartbeats p = p\<lparr>p_current_pos := p_current_pos p + hb_len (unread p)\<rparr>"
    using assms by (simp add: parse_heartbeats_scan unread_def)
  moreover have "p_current_pos p + hb_len (unread p) \<le> length (p_data p)"
    using assms hb_len_le [of "unread p"] by (auto simp: unread_def)
  ultimately show ?thesis
    using assms by (intro exI [of _ items']) (simp add: unread_def add.commute)
qed

text \<open>One block: the outcome that keeps the parser in step.\<close>

definition block_ok :: "stomp_parser \<Rightarrow> bytes \<Rightarrow> stomp_frame list \<Rightarrow> (parse_exc + bool) \<times> stomp_parser \<Rightarrow> bool" where
  "block_ok p rest fs r \<longleftrightarrow>
     (\<exists>b p' cur items. r = (Inr b, p') \<and> tracks p' rest cur items \<and>
        p_frames p' @ pending cur items = fs \<and> p_data p' = p_data p \<and>
        (if b then p_current_pos p < p_current_pos p'
         else rest = [] \<longrightarrow> cur = None \<and> items = [] \<and> unread p' = []))"

lemma block_ok_stay:
  assumes "r = (Inr False, p')" and "tracks p' rest cur items" and "p_frames p' @ pending cur items = fs"
    and "p_data p' = p_data p" and "rest = [] \<Longrightarrow> cur = None \<and> items = [] \<and> unread p' = []"
  shows "block_ok p rest fs r"
  unfolding block_ok_def using assms
  by (intro exI [of _ False] exI [of _ p'] exI [of _ cur] exI [of _ items]) simp

lemma block_ok_move:
  assumes "r = (Inr True, p')" and "tracks p' rest cur items" and "p_frames p' @ pending cur items = fs"
    and "p_data p' = p_data p" and "p_current_pos p < p_current_pos p'"
  shows "block_ok p rest fs r"
  unfolding block_ok_def using assms
  by (intro exI [of _ True] exI [of _ p'] exI [of _ cur] exI [of _ items]) simp

lemma block_ok_back:
  assumes "block_ok q rest fs r" and "p_data q = p_data p" and "p_current_pos p \<le> p_current_pos q"
  shows "block_ok p rest fs r"
  using assms unfolding block_ok_def by (metis order_le_less_trans)

lemma length_unread: "p_current_pos p \<le> length (p_data p) \<Longrightarrow> length (unread p) = length (p_data p) - p_current_pos p"
  by (simp add: unread_def)

lemma data_unread: "p_data p = take (p_current_pos p) (p_data p) @ unread p"
  by (simp add: unread_def)

lemma stream_not_empty: "list_all wf_item items \<Longrightarrow> stream items = [] \<Longrightarrow> items = []"
  by (cases items; cases "hd items") (auto simp: wire_def)

lemma parse_command_complete:
  assumes t: "tracks p rest None (Frame f # items)"
    and u: "unread p = head_bytes f @ u" "u @ rest = f_body f @ NUL # stream items"
  shows "block_ok p rest (p_frames p @ pending None (Frame f # items)) (parse_command p)"
proof -
  define n where "n = content_length (wire_headers f)"
  define pos where "pos = length (p_data p) - length u"
  have wf: "wf_frame f" using t by simp
  have ne: "length (p_data p) \<noteq> p_current_pos p" using u(1) by (auto simp: unread_def head_bytes_def)
  have n: "0 \<le> n" "n \<le> int (length (f_body f))" "\<not> int BODY_MAX_LENGTH < n" "NUL \<notin> set (drop (nat n) (f_body f))"
    using wf by (auto simp: wf_frame_def n_def)
  define p' where "p' = p\<lparr>p_current_pos := pos, p_command := f_command f, p_headers := wire_headers f,
    p_body_end := int pos + n\<rparr>"
  have "scan_head (unread p) = Head (cmd_bytes f) (head_lines f) u"
    using u(1) scan_head_complete [OF wf] by simp
  then have step: "parse_command p = (Inr True, p')"
    using ne n(3) parse_headers_wire [OF wf] cmd_bytes_upper(2) [OF wf]
    by (simp add: parse_command_scan Let_def unread_def pos_def p'_def n_def)
  have "p_data p = (take (p_current_pos p) (p_data p) @ head_bytes f) @ u"
    using data_unread [of p] u(1) by simp
  then have "drop pos (p_data p) = u"
    unfolding pos_def by (metis append_eq_conv_conj length_append add_diff_cancel_right')
  then have "unread p' = u" by (simp add: unread_def p'_def)
  then have "tracks p' rest (Some f) items"
    using t wf u(2) n by (simp add: p'_def pos_def) (intro exI [of _ "nat n"], auto)
  moreover have "p_current_pos p < pos"
    using u(1) t length_unread [of p] by (auto simp: pos_def head_bytes_def)
  ultimately show ?thesis
    using step by (intro block_ok_move [of _ p' _ "Some f" items]) (simp_all add: p'_def)
qed

lemma parse_command_tracks:
  assumes t: "tracks p rest None items" and "unread p = [] \<or> (\<exists>f items'. items = Frame f # items')"
  shows "block_ok p rest (p_frames p @ pending None items) (parse_command p)"
proof (cases "unread p = []")
  case True
  with t have "length (p_data p) = p_current_pos p" by (auto simp: unread_def)
  then have "parse_command p = (Inr False, p)" by (simp add: parse_command_scan)
  moreover from True t have "rest = [] \<Longrightarrow> items = []" by (auto dest: stream_not_empty)
  ultimately show ?thesis
    using t True by (intro block_ok_stay [of _ p _ None items]) auto
next
  case False
  with assms(2) obtain f items' where items: "items = Frame f # items'" by auto
  with t have wf: "wf_frame f" and w: "unread p @ rest = head_bytes f @ f_body f @ NUL # stream items'"
    by (simp_all add: wire_def)
  have ne: "length (p_data p) \<noteq> p_current_pos p" using False by (auto simp: unread_def)
  from w consider r where "head_bytes f = unread p @ r" "r \<noteq> []"
    | u where "unread p = head_bytes f @ u" "u @ rest = f_body f @ NUL # stream items'"
    by (simp add: append_eq_append_conv2) (metis append_Nil append_Nil2)
  then show ?thesis
  proof cases
    case 1
    then have "scan_head (unread p) = Partial" by (rule scan_head_incomplete [OF wf])
    then have "parse_command p = (Inr False, p)"
      using ne by (simp add: parse_command_scan unread_def)
    moreover have "rest \<noteq> []" using 1 w by auto
    ultimately show ?thesis
      using t by (intro block_ok_stay [of _ p _ None items]) auto
  next
    case 2
    with t items show ?thesis using parse_command_complete by simp
  qed
qed

lemma parse_body_complete:
  assumes t: "tracks p rest (Some f) items" and u: "unread p = f_body f @ NUL # u" "u @ rest = stream items"
  shows "block_ok p rest (p_frames p @ pending (Some f) items) (parse_body p)"
proof -
  let ?pos = "p_current_pos p" and ?xs = "take (p_current_pos p) (p_data p) @ f_body f"
  from t obtain k where k: "p_body_end p = int (?pos + k)" "k \<le> length (f_body f)" "NUL \<notin> set (drop k (f_body f))"
    and body: "length (f_body f) \<le> BODY_MAX_LENGTH" and pos: "?pos \<le> length (p_data p)" by (auto simp: wf_frame_def)
  have len: "length (p_data p) = ?pos + length (unread p)" using pos by (simp add: length_unread)
  have data: "p_data p = ?xs @ NUL # u" using data_unread [of p] u(1) by simp
  have xs: "length ?xs = ?pos + length (f_body f)" using pos by simp
  have "py_find (?xs @ NUL # u) NUL (int (?pos + k)) (int (?pos + BODY_MAX_LENGTH + 1)) = Some (length ?xs)"
    using k(2,3) body pos xs by (intro py_find_append) (auto simp: drop_append)
  then have find: "py_find (p_data p) NUL (p_body_end p) (int (?pos + BODY_MAX_LENGTH + 1)) = Some (?pos + length (f_body f))"
    using data xs k(1) by simp
  have slice: "py_slice (p_data p) (int ?pos) (int (?pos + length (f_body f))) = f_body f"
    using u(1) len by (subst py_slice_inside) (simp_all flip: unread_def)
  define p' where "p' = p\<lparr>p_frames := p_frames p @ [parsed f], p_current_pos := ?pos + length (f_body f) + 1, p_command := []\<rparr>"
  have "parse_body p = (Inr True, p')"
    using t k(1,2) len u(1) find slice by (simp add: parse_body_def Let_def p'_def parsed_def)
  moreover have "unread p' = u"
    using arg_cong [OF u(1), of "drop (Suc (length (f_body f)))"] by (simp add: unread_def p'_def add.commute)
  ultimately show ?thesis
    using t u len by (intro block_ok_move [of _ p' _ None items]) (simp_all add: p'_def)
qed

lemma parse_body_waits:
  assumes t: "tracks p rest (Some f) items" and r: "f_body f = unread p @ r" "rest = r @ NUL # stream items"
  shows "block_ok p rest (p_frames p @ pending (Some f) items) (parse_body p)"
proof -
  let ?pos = "p_current_pos p" and ?D = "unread p" and ?p = "p\<lparr>p_body_end := int (length (p_data p))\<rparr>"
  from t obtain k where k: "p_body_end p = int (?pos + k)" "NUL \<notin> set (drop k (f_body f))"
    and body: "length (f_body f) \<le> BODY_MAX_LENGTH" and pos: "?pos \<le> length (p_data p)" by (auto simp: wf_frame_def)
  have len: "length (p_data p) = ?pos + length ?D" using pos by (simp add: length_unread)
  show ?thesis
  proof (cases "length ?D \<le> k")
    case True
    then have "parse_body p = (Inr False, p)" by (simp add: parse_body_def k(1) len)
    then show ?thesis using t r(2) by (intro block_ok_stay [of _ p _ "Some f" items]) auto
  next
    case False
    have "drop k (f_body f) = drop k ?D @ r" using r(1) False by simp
    with k(2) have "NUL \<notin> set (drop k ?D)" by simp
    moreover have "set (py_slice (p_data p) (p_body_end p) j) \<subseteq> set (drop k ?D)" for j
    proof -
      have "clip (length (p_data p)) (p_body_end p) = ?pos + k" using k(1) False len by simp
      moreover have "drop (?pos + k) (p_data p) = drop k ?D" by (simp add: unread_def add.commute)
      ultimately show ?thesis by (simp add: py_slice_def set_take_subset)
    qed
    ultimately have "py_find (p_data p) NUL (p_body_end p) j = None" for j by (auto simp: py_find_None_iff)
    then have "parse_body p = (Inr False, ?p)" using False k(1) len r(1) body by (auto simp: parse_body_def Let_def)
    moreover have "NUL \<notin> set (drop (length ?D) (f_body f))" using k(2) r(1) False by (auto simp: drop_append)
    moreover have "length ?D \<le> length (f_body f)" using r(1) by simp
    moreover have "unread ?p = ?D" by (simp add: unread_def)
    ultimately have "tracks ?p rest (Some f) items" using t len by simp
    moreover note \<open>parse_body p = _\<close>
    ultimately show ?thesis using r(2) by (intro block_ok_stay [of _ ?p _ "Some f" items]) auto
  qed
qed

lemma parse_body_tracks:
  assumes t: "tracks p rest (Some f) items"
  shows "block_ok p rest (p_frames p @ pending (Some f) items) (parse_body p)"
proof -
  from t have "unread p @ rest = f_body f @ NUL # stream items" by simp
  then consider u where "unread p = f_body f @ NUL # u" "u @ rest = stream items"
    | r where "f_body f = unread p @ r" "rest = r @ NUL # stream items"
    by (fastforce simp: append_eq_append_conv2 append_eq_Cons_conv Cons_eq_append_conv)
  then show ?thesis
    by cases (use parse_body_complete [OF t] parse_body_waits [OF t] in blast)+
qed

lemma parse_block_tracks:
  assumes "tracks p rest cur items"
  shows "block_ok p rest (p_frames p @ pending cur items) (parse_block p)"
proof (cases cur)
  case None
  with assms obtain items' where t: "tracks (parse_heartbeats p) rest None items'"
    and eq: "frames_of items' = frames_of items" "p_frames (parse_heartbeats p) = p_frames p"
      "p_data (parse_heartbeats p) = p_data p" "p_current_pos p \<le> p_current_pos (parse_heartbeats p)"
    and "unread (parse_heartbeats p) = [] \<or> (\<exists>f items''. items' = Frame f # items'')"
    using tracks_heartbeats [of p rest items] by blast
  from parse_command_tracks [OF t this(6)] eq have
    "block_ok p rest (p_frames p @ pending cur items) (parse_command (parse_heartbeats p))"
    unfolding None by (auto intro: block_ok_back)
  moreover have "p_command p = []" using assms None by simp
  ultimately show ?thesis by (simp add: parse_block_def)
next
  case (Some f)
  then have "p_command p \<noteq> []" using assms by (auto simp: wf_frame_def)
  with parse_body_tracks [of p rest f items] assms Some show ?thesis by (simp add: parse_block_def)
qed

lemma parse_loop_tracks:
  assumes "tracks p rest cur items"
  shows "\<exists>p' cur' items'. parse_loop p = Some (None, p') \<and> tracks p' rest cur' items' \<and>
    p_frames p' @ pending cur' items' = p_frames p @ pending cur items \<and>
    (rest = [] \<longrightarrow> cur' = None \<and> items' = [] \<and> unread p' = [])"
  using assms
proof (induction "length (p_data p) - p_current_pos p" arbitrary: p cur items rule: less_induct)
  case less
  from parse_block_tracks [OF less.prems] obtain b p1 cur1 items1 where
    block: "parse_block p = (Inr b, p1)" and t1: "tracks p1 rest cur1 items1"
    and fs: "p_frames p1 @ pending cur1 items1 = p_frames p @ pending cur items" and data: "p_data p1 = p_data p"
    and b: "if b then p_current_pos p < p_current_pos p1
      else rest = [] \<longrightarrow> cur1 = None \<and> items1 = [] \<and> unread p1 = []"
    unfolding block_ok_def by blast
  show ?case
  proof (cases b)
    case True
    have "p_current_pos p1 \<le> length (p_data p1)" using t1 by (cases cur1) auto
    with True b data have "length (p_data p1) - p_current_pos p1 < length (p_data p) - p_current_pos p"
      by simp
    from less.hyps [OF this t1] show ?thesis
      using block True fs by (simp add: parse_loop.simps [of p])
  next
    case False
    with block t1 fs b show ?thesis
      by (intro exI [of _ p1] exI [of _ cur1] exI [of _ items1]) (simp add: parse_loop.simps [of p])
  qed
qed

lemma tracks_compact: "tracks p rest cur items \<Longrightarrow> tracks (compact p) rest cur items"
  by (cases cur) (auto simp: compact_def Let_def unread_def)

lemma tracks_extend: "tracks p (d @ rest) cur items \<Longrightarrow> tracks (p\<lparr>p_data := p_data p @ d\<rparr>) rest cur items"
  by (cases cur) (auto simp: unread_def)

lemma add_bytes_tracks:
  assumes "tracks p (d @ rest) cur items"
  shows "\<exists>p' cur' items'. add_bytes d p = Some (Inr (), p') \<and> tracks p' rest cur' items' \<and>
    p_frames p' @ pending cur' items' = p_frames p @ pending cur items \<and>
    (rest = [] \<longrightarrow> cur' = None \<and> items' = [] \<and> p_data p' = [])"
proof -
  from parse_loop_tracks [OF tracks_extend [OF assms]] obtain p1 cur' items' where
    "parse_loop (p\<lparr>p_data := p_data p @ d\<rparr>) = Some (None, p1)" "tracks p1 rest cur' items'"
    "p_frames p1 @ pending cur' items' = p_frames p @ pending cur items"
    "rest = [] \<longrightarrow> cur' = None \<and> items' = [] \<and> unread p1 = []" by auto
  then show ?thesis
    using tracks_compact [of p1 rest cur' items']
    by (intro exI [of _ "compact p1"] exI [of _ cur'] exI [of _ items'])
      (auto simp: add_bytes_def compact_def Let_def unread_def)
qed

text \<open>Chunk after chunk, as \<^verbatim>\<open>data_received\<close> hands them over; the first error ends the run.\<close>

fun feed :: "bytes list \<Rightarrow> stomp_parser \<Rightarrow> ((parse_exc + unit) \<times> stomp_parser) option" where
  "feed [] p = Some (Inr (), p)"
| "feed (d # ds) p =
     (case add_bytes d p of
        None \<Rightarrow> None
      | Some (Inl e, p') \<Rightarrow> Some (Inl e, p')
      | Some (Inr _, p') \<Rightarrow> feed ds p')"

text \<open>Nothing is left to do once the whole stream has been handed over.\<close>

definition settled :: "stomp_parser \<Rightarrow> bytes \<Rightarrow> stomp_frame option \<Rightarrow> item list \<Rightarrow> bool" where
  "settled p rest cur items \<longleftrightarrow> (rest = [] \<longrightarrow> cur = None \<and> items = [] \<and> p_data p = [])"

lemma feed_tracks:
  assumes "tracks p (concat chunks @ rest) cur items" and "settled p (concat chunks @ rest) cur items"
  shows "\<exists>p' cur' items'. feed chunks p = Some (Inr (), p') \<and> tracks p' rest cur' items' \<and>
    settled p' rest cur' items' \<and> p_frames p' @ pending cur' items' = p_frames p @ pending cur items"
  using assms
proof (induction chunks arbitrary: p cur items)
  case (Cons d chunks)
  then have "tracks p (d @ concat chunks @ rest) cur items" by simp
  from add_bytes_tracks [OF this] obtain p1 cur1 items1 where
    "add_bytes d p = Some (Inr (), p1)" "tracks p1 (concat chunks @ rest) cur1 items1"
    "settled p1 (concat chunks @ rest) cur1 items1"
    "p_frames p1 @ pending cur1 items1 = p_frames p @ pending cur items"
    unfolding settled_def by blast
  with Cons.IH [of p1 cur1 items1] show ?case by simp
qed auto

lemma tracks_reset:
  assumes "list_all wf_item items" and "bs = stream items"
  shows "tracks reset bs None items" and "settled reset bs None items"
  using assms by (auto simp: reset_def unread_def settled_def dest: stream_not_empty)

text \<open>\<open>printed i b\<close>: the bytes that the program writes for an item.\<close>

fun printed :: "item \<Rightarrow> bytes \<Rightarrow> bool" where
  "printed Beat b \<longleftrightarrow> b = [NL]"
| "printed (Frame f) b \<longleftrightarrow> frame_bytes f = Inr b"

lemma printed_stream:
  assumes "list_all2 printed items bs" and "list_all wf_item items"
  shows "concat bs = stream items"
  using assms
proof (induction items bs rule: list_all2_induct)
  case (Cons i items b bs)
  then show ?case by (cases i) (auto simp: frame_bytes_wire)
qed simp

lemma feed_stream:
  assumes "list_all wf_item items" and "list_all2 printed items bs" and "concat chunks @ rest = concat bs"
  shows "\<exists>p cur items'. feed chunks reset = Some (Inr (), p) \<and> tracks p rest cur items' \<and>
    settled p rest cur items' \<and> p_frames p @ pending cur items' = map parsed (frames_of items)"
proof -
  have "concat chunks @ rest = stream items"
    using assms printed_stream by metis
  from tracks_reset [OF assms(1) this] show ?thesis
    using feed_tracks [of reset chunks rest None items] by (simp add: reset_def)
qed

section \<open>Limits of the parsed frames\<close>

text \<open>
  Whatever the input, a frame in the queue has a command of one to fifty capital letters,
  unique header names and a body within the limit.
\<close>

definition frame_limits :: "stomp_frame \<Rightarrow> bool" where
  "frame_limits f \<longleftrightarrow> f_command f \<noteq> [] \<and> length (f_command f) \<le> 50 \<and>
     list_all (\<lambda>cp. 65 \<le> cp \<and> cp \<le> 90) (f_command f) \<and>
     distinct (map fst (f_headers f)) \<and> length (f_body f) \<le> BODY_MAX_LENGTH"

definition limits_ok :: "stomp_parser \<Rightarrow> bool" where
  "limits_ok p \<longleftrightarrow> list_all frame_limits (p_frames p) \<and> length (p_command p) \<le> 50 \<and>
     list_all (\<lambda>cp. 65 \<le> cp \<and> cp \<le> 90) (p_command p) \<and> distinct (map fst (p_headers p))"

lemma limits_ok_reset: "limits_ok reset"
  by (simp add: limits_ok_def reset_def)

lemma headers_loop_distinct:
  "headers_loop parts d = Inr h \<Longrightarrow> distinct (map fst d) \<Longrightarrow> distinct (map fst h)"
  by (induction parts d rule: headers_loop.induct) (auto simp: bindE_eq_Inr_conv dict_add_distinct)

lemma parse_headers_distinct: "parse_headers s = Inr h \<Longrightarrow> distinct (map fst h)"
  by (auto simp: parse_headers_def split: if_splits dest: headers_loop_distinct)

lemma scan_head_command_length: "scan_head s = Head cmd lines rest \<Longrightarrow> length cmd \<le> 50"
  by (auto simp: scan_head_def scan_lines_def Let_def split: if_splits option.splits dest!: scan_closing_Head)

lemma py_slice_length: "length (py_slice xs (int i) (int j)) \<le> j - i"
  by (simp add: py_slice_nat)

lemma limits_ok_command: "limits_ok p \<Longrightarrow> limits_ok (snd (parse_command p))"
proof -
  assume ok: "limits_ok p"
  have up: "list_all (\<lambda>cp. 65 \<le> cp \<and> cp \<le> 90) (map of_char cmd :: str)" "length cmd \<le> 50"
    if "scan_head s = Head cmd ls rest" for s cmd ls rest
    using scan_head_Head(2) [OF that] scan_head_command_length [OF that]
    by (auto simp: list_all_iff upper_def)
  show ?thesis
    using ok unfolding parse_command_scan Let_def
    by (auto simp: limits_ok_def up split: scan.splits sum.splits dest: up parse_headers_distinct)
qed

lemma limits_ok_body: "limits_ok p \<Longrightarrow> p_command p \<noteq> [] \<Longrightarrow> limits_ok (snd (parse_body p))"
proof -
  assume ok: "limits_ok p" "p_command p \<noteq> []"
  have "length (py_slice (p_data p) (int (p_current_pos p)) (int stop)) \<le> BODY_MAX_LENGTH"
    if "py_find (p_data p) NUL (p_body_end p) (int (p_current_pos p + BODY_MAX_LENGTH + 1)) = Some stop" for stop
    using py_find_bounds(2) [OF that] py_slice_length [of "p_data p" "p_current_pos p" stop] by auto
  with ok show ?thesis
    by (auto simp: parse_body_def Let_def limits_ok_def frame_limits_def split: option.splits)
qed

lemma limits_ok_block: "limits_ok p \<Longrightarrow> limits_ok (snd (parse_block p))"
proof -
  assume ok: "limits_ok p"
  then have "limits_ok (parse_heartbeats p)"
    by (auto simp: parse_heartbeats_def limits_ok_def split: option.splits)
  with ok show ?thesis by (simp add: parse_block_def limits_ok_command limits_ok_body)
qed

lemma limits_ok_loop:
  assumes "parse_loop p = Some r" and "limits_ok p"
  shows "limits_ok (snd r)"
proof -
  from assms(1) have "limits_ok p \<longrightarrow> limits_ok (snd r)"
  proof (rule parse_loop.raw_induct [where P = "\<lambda>p r. limits_ok p \<longrightarrow> limits_ok (snd r)", rotated])
    fix f p r
    assume "\<And>p r. f p = Some r \<Longrightarrow> limits_ok p \<longrightarrow> limits_ok (snd r)"
      and "(case parse_block p of (Inl e, p') \<Rightarrow> Some (Some e, p')
        | (Inr b, p') \<Rightarrow> if b then f p' else Some (None, p')) = Some r"
    then show "limits_ok p \<longrightarrow> limits_ok (snd r)"
      using limits_ok_block [of p] by (auto split: prod.splits sum.splits if_splits)
  qed
  with assms(2) show ?thesis by simp
qed

lemma limits_ok_add_bytes: "limits_ok p \<Longrightarrow> add_bytes d p = Some (r, p') \<Longrightarrow> limits_ok p'"
proof -
  assume "limits_ok p" and add: "add_bytes d p = Some (r, p')"
  then have ext: "limits_ok (p\<lparr>p_data := p_data p @ d\<rparr>)" by (simp add: limits_ok_def)
  from add obtain e p1 where loop: "parse_loop (p\<lparr>p_data := p_data p @ d\<rparr>) = Some (e, p1)"
    and p': "p' = p1 \<or> p' = compact p1"
    by (auto simp: add_bytes_def split: option.splits)
  from limits_ok_loop [OF loop ext] have "limits_ok p1" by simp
  with p' show ?thesis by (auto simp: limits_ok_def compact_def Let_def)
qed

lemma limits_ok_feed: "limits_ok p \<Longrightarrow> feed ds p = Some (r, p') \<Longrightarrow> limits_ok p'"
  by (induction ds p rule: feed.induct) (auto split: option.splits sum.splits dest: limits_ok_add_bytes)

section \<open>The properties\<close>

text \<open>
  C4: Round trip. Let the program print any sequence of heartbeats and of frames
  within the limits, and let the network cut the bytes into chunks anywhere. Then
  \<^verbatim>\<open>StompParser.add_bytes\<close> returns without an error on every chunk, the frames in the queue
  are exactly the printed ones in order, and no byte is left in the buffer.
\<close>

theorem stream_roundtrip:
  assumes "list_all wf_item items" and "list_all2 printed items bs" and "concat chunks = concat bs"
  shows "\<exists>p. feed chunks reset = Some (Inr (), p) \<and>
    p_frames p = map parsed (frames_of items) \<and> p_data p = [] \<and> p_command p = []"
proof -
  from feed_stream [OF assms(1,2), of chunks "[]"] assms(3) obtain p cur items' where
    "feed chunks reset = Some (Inr (), p)" "tracks p [] cur items'" "settled p [] cur items'"
    "p_frames p @ pending cur items' = map parsed (frames_of items)" by auto
  then show ?thesis by (auto simp: settled_def)
qed

definition hello :: stomp_frame where
  "hello = \<lparr>f_command = lit ''SEND'', f_headers = [(lit ''a:b'', lit ''1'')], f_body = ''x'' @ [NUL, NL]\<rparr>"

lemmas wire_eval = wire_def head_bytes_def head_lines_def hdr_bytes_def enc_def wire_headers_def
  CONTENT_LENGTH_def esc_char_def utf8_char_def dec_of_nat.simps char_of_def bit_0

lemma hello_wf: "wf_frame hello"
  by (simp add: hello_def wf_frame_def wf_header_def wire_eval scalar_def surrogate_def
      content_length_def int_eval Let_def HEADER_MAX_LENGTH_def BODY_MAX_LENGTH_def)

lemma hello_wire: "frame_bytes hello = Inr
    (''SEND'' @ NL # ''a'' @ BSL # ''cb:1'' @ NL # ''content-length:3'' @ [NL, NL] @ ''x'' @ [NUL, NL, NUL])"
  unfolding frame_bytes_wire [OF hello_wf] by (simp add: hello_def wire_eval)

theorem stream_roundtrip_witness:
  "\<exists>p. feed [[NL] @ ''SEND'' @ NL # ''a'' @ [BSL], ''cb:1'' @ NL # ''content-length:3'' @ [NL],
        [NL] @ ''x'' @ [NUL], [NL, NUL, NL]] reset = Some (Inr (), p) \<and>
     p_frames p = [parsed hello] \<and> p_data p = [] \<and> p_command p = []"
  using stream_roundtrip [of "[Beat, Frame hello, Beat]"
      "[[NL], ''SEND'' @ NL # ''a'' @ BSL # ''cb:1'' @ NL # ''content-length:3'' @ [NL, NL] @ ''x'' @ [NUL, NL, NUL], [NL]]"
      "[[NL] @ ''SEND'' @ NL # ''a'' @ [BSL], ''cb:1'' @ NL # ''content-length:3'' @ [NL],
        [NL] @ ''x'' @ [NUL], [NL, NUL, NL]]"] hello_wf hello_wire
  by simp

text \<open>
  C23: The regular expression of a frame head, run by a backtracking matcher, accepts, rejects
  or waits for more input exactly as a scanner that reads every byte once.
\<close>

theorem head_re_is_linear: "head_view (re_match HEAD_RE s) = scan_head s"
  by (rule scan_head_correct)

text \<open>
  C22: If no head in the buffer declares a negative length, \<^verbatim>\<open>add_bytes\<close> returns (with a
  result or with a \<^verbatim>\<open>ProtocolError\<close>), and after a return without an error the buffer
  holds at most \<^const>\<open>PENDING_MAX\<close> bytes.
\<close>

theorem add_bytes_returns:
  assumes "parser_ok p" and "\<not> declares_negative_length (p_data p @ d)"
  shows "\<exists>r p'. add_bytes d p = Some (r, p') \<and> (r = Inr () \<longrightarrow> parser_ok p' \<and>
    p_current_pos p' = 0 \<and> length (p_data p') \<le> PENDING_MAX)"
  using assms by (rule add_bytes_total)

theorem add_bytes_returns_witness:
  "\<exists>r p'. add_bytes (''GO'' @ [NL]) reset = Some (r, p') \<and> (r = Inr () \<longrightarrow> parser_ok p' \<and>
    p_current_pos p' = 0 \<and> length (p_data p') \<le> PENDING_MAX)"
proof (rule add_bytes_returns)
  show "\<not> declares_negative_length (p_data reset @ ''GO'' @ [NL])"
    by (simp add: declares_negative_length_def negative_head_def reset_def upt_rec numeral_nat parser_eval)
qed (rule parser_ok_reset)

definition looping_input :: bytes where
  "looping_input = ''A'' @ [NL] @ ''x:'' @ [NUL] @ ''B'' @ [NL] @ ''content-length:-23'' @ [NL, NL]"

definition looping_states :: "stomp_parser set" where
  "looping_states = {p. p_data p = looping_input \<and>
     (p_command p = [] \<and> p_current_pos p \<in> {0, 5} \<or>
      p_command p \<noteq> [] \<and> p_current_pos p = 27 \<and> p_body_end p = 4)}"

lemma looping_states_closed:
  assumes "p \<in> looping_states"
  shows "\<exists>p'. parse_block p = (Inr True, p') \<and> p' \<in> looping_states"
proof -
  from assms consider "p_command p = []" "p_current_pos p = 0" | "p_command p = []" "p_current_pos p = 5"
    | "p_command p \<noteq> []" "p_current_pos p = 27" "p_body_end p = 4"
    by (auto simp: looping_states_def)
  then show ?thesis
    using assms
    by cases (simp_all add: looping_states_def looping_input_def parser_eval int_eval)
qed

text \<open>
  C35: \<^verbatim>\<open>add_bytes\<close> does not always return. Twenty-seven bytes, two frame heads of
  which the second declares the length -23, make its loop parse the same bytes forever.
\<close>

theorem add_bytes_may_not_return: "add_bytes looping_input reset = None"
proof -
  have "reset\<lparr>p_data := p_data reset @ looping_input\<rparr> \<in> looping_states"
    by (simp add: looping_states_def reset_def)
  from parse_loop_diverges [OF this looping_states_closed] show ?thesis
    by (simp add: add_bytes_def)
qed

text \<open>
  C29: Every frame that \<^verbatim>\<open>add_bytes\<close> has put in the queue, also before an error, obeys the
  limits: a command of one to fifty capital letters, no repeated header, a body of at most
  \<^const>\<open>BODY_MAX_LENGTH\<close> bytes.
\<close>

theorem frames_within_limits:
  assumes "feed chunks reset = Some (r, p)"
  shows "list_all frame_limits (p_frames p)"
  using limits_ok_feed [OF limits_ok_reset assms] by (simp add: limits_ok_def)

theorem frames_within_limits_witness:
  "list_all frame_limits (p_frames (snd (the (feed [''A'' @ [NL, NL, NUL]] reset))))"
  by (rule frames_within_limits [of "[''A'' @ [NL, NL, NUL]]" "Inr ()"])
    (simp add: add_bytes_def parse_loop.simps reset_def parser_eval compact_def)

text \<open>
  A line end that a peer sends as a heartbeat between frames may be cut by the network.
  The bytes CR LF are accepted in one chunk and refused in two.
\<close>

theorem crlf_heartbeat_split:
  "(\<exists>p. feed [[CR, NL]] reset = Some (Inr (), p) \<and> p_data p = []) \<and>
   (\<exists>p. feed [[CR], [NL]] reset = Some (Inl (ProtocolError (lit ''Invalid frame.'')), p))"
  by (simp add: add_bytes_def parse_loop.simps reset_def parser_eval compact_def)

text \<open>
  A header text survives the wire: whatever the escaping table of \<^verbatim>\<open>__bytes__\<close> and the
  UTF-8 codec make of it, \<^verbatim>\<open>_parse_headers\<close> reads back.
\<close>

theorem header_text_roundtrip:
  assumes "utf8_encode (translate s) = Inr b"
  shows "decode_header b = Inr s"
proof -
  from assms have "list_all scalar (translate s)" and b: "b = enc s"
    by (auto simp: utf8_encode_def enc_def split: if_splits)
  then have "list_all scalar s" by (simp add: translate_scalar_iff)
  with b show ?thesis by (simp add: decode_header_enc)
qed

theorem header_text_roundtrip_witness: "decode_header (''a'' @ [BSL] @ ''cb'') = Inr (lit ''a:b'')"
  by (rule header_text_roundtrip)
    (simp add: utf8_encode_def scalar_def surrogate_def esc_char_def utf8_char_def char_of_def bit_0)

end
