(* ===== verification/Common.thy ===== *)
theory Common
  imports Prelude
begin

text \<open>
  The shared pieces of \<^verbatim>\<open>swpt_stomp/common.py\<close>: messages and server errors, the queue with
  watermarks, \<^verbatim>\<open>terminate_queue\<close> and the reading of a peer's serial number from its
  certificate.

  \<^verbatim>\<open>asyncio.Queue\<close> (standard library) is the record \<open>aqueue\<close>, and the class
  \<^verbatim>\<open>WatermarkQueue\<close> extends it as it does in the source. A callback is a value of the type
  parameter \<open>'cb\<close>: an operation that calls callbacks returns them in the order of the calls,
  and the component that registered them says what a call does.
\<close>

section \<open>Messages and errors\<close>

record message =
  m_id :: str
  m_type :: str
  m_body :: bytes
  m_content_type :: str

record server_error =
  e_message :: str
  e_receipt_id :: "str option"
  e_context :: "bytes option"
  e_context_type :: "str option"
  e_context_content_type :: "str option"

definition DEFAULT_MAX_NETWORK_DELAY :: int where
  "DEFAULT_MAX_NETWORK_DELAY = 10000"

text \<open>\<^verbatim>\<open>ServerError(msg)\<close>, with every optional argument left out.\<close>

definition ServerError :: "str \<Rightarrow> server_error" where
  "ServerError msg = \<lparr>e_message = msg, e_receipt_id = None, e_context = None,
     e_context_type = None, e_context_content_type = None\<rparr>"

text \<open>
  What a message processor puts into a send queue: messages or confirmations, and at the end
  \<^verbatim>\<open>None\<close> or a server error.
\<close>

datatype 'u send_item = Payload 'u | Stop "server_error option"

section \<open>The queue of the standard library\<close>

text \<open>
  \<open>aq_put_task\<close> is the attribute \<^verbatim>\<open>_EnsurePut__task\<close> that \<^verbatim>\<open>terminate_queue\<close> sets, with the
  item that its task waits to put, if it still waits.
\<close>

datatype 'a put_task = NoPutTask | Waiting 'a | Finished

record 'a aqueue =
  aq_items :: "'a list"
  aq_maxsize :: int
  aq_unfinished :: nat
  aq_put_task :: "'a put_task"

definition aq_new :: "int \<Rightarrow> 'a aqueue" where
  "aq_new maxsize = \<lparr>aq_items = [], aq_maxsize = maxsize, aq_unfinished = 0, aq_put_task = NoPutTask\<rparr>"

definition aq_full :: "('a, 'x) aqueue_scheme \<Rightarrow> bool" where
  "aq_full q \<longleftrightarrow> 0 < aq_maxsize q \<and> aq_maxsize q \<le> int (length (aq_items q))"

definition aq_put_nowait :: "'a \<Rightarrow> ('a, 'x) aqueue_scheme \<Rightarrow> exc + ('a, 'x) aqueue_scheme" where
  "aq_put_nowait x q =
     (if aq_full q then Inl QueueFull
      else Inr (q\<lparr>aq_items := aq_items q @ [x], aq_unfinished := aq_unfinished q + 1\<rparr>))"

text \<open>\<^verbatim>\<open>await queue.get()\<close>: \<^const>\<open>None\<close> while it has to wait.\<close>

definition aq_get :: "('a, 'x) aqueue_scheme \<Rightarrow> ('a \<times> ('a, 'x) aqueue_scheme) option" where
  "aq_get q = (case aq_items q of [] \<Rightarrow> None | x # xs \<Rightarrow> Some (x, q\<lparr>aq_items := xs\<rparr>))"

definition aq_task_done :: "('a, 'x) aqueue_scheme \<Rightarrow> exc + ('a, 'x) aqueue_scheme" where
  "aq_task_done q =
     (if aq_unfinished q = 0 then Inl ValueError
      else Inr (q\<lparr>aq_unfinished := aq_unfinished q - 1\<rparr>))"

section \<open>Terminating a queue\<close>

definition terminate_queue :: "('a, 'x) aqueue_scheme \<Rightarrow> 'a \<Rightarrow> ('a, 'x) aqueue_scheme" where
  "terminate_queue q item =
     (case aq_put_task q of
        NoPutTask \<Rightarrow>
          (case aq_put_nowait item q of
             Inr q' \<Rightarrow> q'
           | Inl _ \<Rightarrow> q\<lparr>aq_put_task := Waiting item\<rparr>)
      | _ \<Rightarrow> q)"

text \<open>The task of \<^verbatim>\<open>queue.put(item)\<close>: it waits for a free slot, then puts.\<close>

definition run_put_task :: "('a, 'x) aqueue_scheme \<Rightarrow> ('a, 'x) aqueue_scheme" where
  "run_put_task q =
     (case aq_put_task q of
        Waiting item \<Rightarrow>
          (case aq_put_nowait item q of Inr q' \<Rightarrow> q'\<lparr>aq_put_task := Finished\<rparr> | Inl _ \<Rightarrow> q)
      | _ \<Rightarrow> q)"

section \<open>The queue with watermarks\<close>

record ('a, 'cb) wqueue = "'a aqueue" +
  wq_paused :: bool
  wq_lw_callbacks :: "'cb list"
  wq_hw_callbacks :: "'cb list"
  wq_low_watermark :: int
  wq_high_watermark :: int

definition wq_new :: "int \<Rightarrow> int option \<Rightarrow> exc + ('a, 'cb) wqueue" where
  "wq_new high_watermark low =
     (let low_watermark = (case low of None \<Rightarrow> high_watermark div 4 | Some l \<Rightarrow> l) in
      if \<not> (0 \<le> low_watermark \<and> low_watermark \<le> high_watermark) then Inl ValueError
      else Inr \<lparr>aq_items = [], aq_maxsize = 0, aq_unfinished = 0, aq_put_task = NoPutTask,
                wq_paused = False, wq_lw_callbacks = [], wq_hw_callbacks = [],
                wq_low_watermark = low_watermark, wq_high_watermark = high_watermark\<rparr>)"

text \<open>The operations return the callbacks that they call.\<close>

definition put_nowait :: "'a \<Rightarrow> ('a, 'cb) wqueue \<Rightarrow> exc + ('cb list \<times> ('a, 'cb) wqueue)" where
  "put_nowait item q =
     bindE (aq_put_nowait item q) (\<lambda>q1.
       if \<not> wq_paused q1 \<and> wq_high_watermark q1 \<le> int (length (aq_items q1))
       then Inr (wq_hw_callbacks q1, q1\<lparr>wq_paused := True\<rparr>)
       else Inr ([], q1))"

definition task_done :: "('a, 'cb) wqueue \<Rightarrow> exc + ('cb list \<times> ('a, 'cb) wqueue)" where
  "task_done q =
     bindE (aq_task_done q) (\<lambda>q1.
       if wq_paused q1 \<and> int (length (aq_items q1)) \<le> wq_low_watermark q1
       then Inr (wq_lw_callbacks q1, q1\<lparr>wq_paused := False\<rparr>)
       else Inr ([], q1))"

definition add_high_watermark_callback :: "'cb \<Rightarrow> ('a, 'cb) wqueue \<Rightarrow> 'cb list \<times> ('a, 'cb) wqueue" where
  "add_high_watermark_callback cb q =
     (if wq_paused q then [cb] else [], q\<lparr>wq_hw_callbacks := wq_hw_callbacks q @ [cb]\<rparr>)"

definition add_low_watermark_callback :: "'cb \<Rightarrow> ('a, 'cb) wqueue \<Rightarrow> 'cb list \<times> ('a, 'cb) wqueue" where
  "add_low_watermark_callback cb q =
     (if \<not> wq_paused q then [cb] else [], q\<lparr>wq_lw_callbacks := wq_lw_callbacks q @ [cb]\<rparr>)"

definition remove_high_watermark_callback :: "'cb \<Rightarrow> ('a, 'cb) wqueue \<Rightarrow> exc + ('a, 'cb) wqueue" where
  "remove_high_watermark_callback cb q =
     (if cb \<in> set (wq_hw_callbacks q)
      then Inr (q\<lparr>wq_hw_callbacks := remove1 cb (wq_hw_callbacks q)\<rparr>) else Inl ValueError)"

definition remove_low_watermark_callback :: "'cb \<Rightarrow> ('a, 'cb) wqueue \<Rightarrow> exc + ('a, 'cb) wqueue" where
  "remove_low_watermark_callback cb q =
     (if cb \<in> set (wq_lw_callbacks q)
      then Inr (q\<lparr>wq_lw_callbacks := remove1 cb (wq_lw_callbacks q)\<rparr>) else Inl ValueError)"

section \<open>The serial number of a peer\<close>

text \<open>
  \<^verbatim>\<open>transport.get_extra_info('peercert')\<close>: nothing, or a dictionary whose \<^verbatim>\<open>subject\<close> (if
  present) is a sequence of relative distinguished names, each a sequence of pairs.
\<close>

type_synonym rdn = "(str \<times> str) list"
type_synonym peercert = "rdn list option option"

definition ORGANIZATION_NAME :: str where
  "ORGANIZATION_NAME = lit ''organizationName''"

definition SERIAL_NUMBER :: str where
  "SERIAL_NUMBER = lit ''serialNumber''"

definition NODES_REGISTRY :: str where
  "NODES_REGISTRY = lit ''Swaptacular Nodes Registry''"

text \<open>The loop over the subject: it stops at the first exception, and keeps what it has.\<close>

fun subject_data :: "rdn list \<Rightarrow> (str \<times> str) list \<Rightarrow> (str \<times> str) list" where
  "subject_data [] data = data"
| "subject_data ([] # rdns) data = data"
| "subject_data (((key, val) # others) # rdns) data =
     (if key \<in> {ORGANIZATION_NAME, SERIAL_NUMBER} then
        (if others \<noteq> [] \<or> map_of data key \<noteq> None then data
         else subject_data rdns (dict_set key val data))
      else subject_data rdns data)"

definition get_peer_serial_number :: "peercert \<Rightarrow> str option" where
  "get_peer_serial_number cert =
     (let data = (case cert of Some (Some subject) \<Rightarrow> subject_data subject [] | _ \<Rightarrow> []) in
      if map_of data ORGANIZATION_NAME \<noteq> Some NODES_REGISTRY then None
      else map_of data SERIAL_NUMBER)"

section \<open>First in, first out\<close>

text \<open>
  What the program relies on of a queue: an item is put at the end and taken from the
  front. Both queues of the program provide it.
\<close>

locale fifo_queue =
  fixes items :: "'q \<Rightarrow> 'a list" and room :: "'q \<Rightarrow> bool"
    and put :: "'a \<Rightarrow> 'q \<Rightarrow> 'q" and get :: "'q \<Rightarrow> ('a \<times> 'q) option"
  assumes items_put: "room q \<Longrightarrow> items (put x q) = items q @ [x]"
    and get_Nil: "items q = [] \<Longrightarrow> get q = None"
    and get_Cons: "items q = x # xs \<Longrightarrow> \<exists>q'. get q = Some (x, q') \<and> items q' = xs"
begin

lemma get_item: "get q = Some (x, q') \<Longrightarrow> items q = x # items q'"
  using get_Nil [of q] get_Cons [of q] by (cases "items q") fastforce+

lemma get_None_iff: "get q = None \<longleftrightarrow> items q = []"
  using get_Nil [of q] get_Cons [of q] by (cases "items q") fastforce+

text \<open>An item put into a queue of length \<open>n\<close> is taken by the get after the next \<open>n\<close>.\<close>

lemma put_get:
  assumes "room q"
  shows "\<exists>q'. get (put x q) = Some (hd (items q @ [x]), q') \<and> items q' = tl (items q @ [x])"
  using items_put [OF assms, of x] get_Cons [of "put x q"] by (cases "items q") auto

end

definition aq_put :: "'a \<Rightarrow> 'a aqueue \<Rightarrow> 'a aqueue" where
  "aq_put x q = (case aq_put_nowait x q of Inr q' \<Rightarrow> q' | Inl _ \<Rightarrow> q)"

definition wq_put :: "'a \<Rightarrow> ('a, 'cb) wqueue \<Rightarrow> ('a, 'cb) wqueue" where
  "wq_put x q = (case put_nowait x q of Inr (_, q') \<Rightarrow> q' | Inl _ \<Rightarrow> q)"

lemma aq_get_simps:
  "aq_items q = [] \<Longrightarrow> aq_get q = None"
  "aq_items q = x # xs \<Longrightarrow> aq_get q = Some (x, q\<lparr>aq_items := xs\<rparr>)"
  by (simp_all add: aq_get_def)

interpretation aq: fifo_queue aq_items "\<lambda>q. \<not> aq_full q" aq_put aq_get
  by unfold_locales (auto simp: aq_put_def aq_put_nowait_def aq_get_simps)

interpretation wq: fifo_queue aq_items "\<lambda>q. aq_maxsize q \<le> 0" wq_put aq_get
  by unfold_locales (auto simp: wq_put_def put_nowait_def aq_put_nowait_def aq_full_def aq_get_simps)

lemma put_nowait_unbounded:
  assumes "aq_maxsize q \<le> 0"
  shows "\<exists>cbs q'. put_nowait x q = Inr (cbs, q') \<and> aq_items q' = aq_items q @ [x] \<and>
    aq_maxsize q' = aq_maxsize q \<and> wq_lw_callbacks q' = wq_lw_callbacks q \<and>
    wq_hw_callbacks q' = wq_hw_callbacks q"
proof -
  let ?q = "q\<lparr>aq_items := aq_items q @ [x], aq_unfinished := aq_unfinished q + 1\<rparr>"
  have "aq_put_nowait x q = Inr ?q" using assms by (simp add: aq_put_nowait_def aq_full_def)
  then show ?thesis
    by (cases "\<not> wq_paused ?q \<and> wq_high_watermark ?q \<le> int (length (aq_items ?q))")
      (auto simp: put_nowait_def)
qed

lemma task_done_fields:
  "task_done q = Inr (cbs, q') \<Longrightarrow> aq_items q' = aq_items q \<and> aq_maxsize q' = aq_maxsize q \<and>
     wq_lw_callbacks q' = wq_lw_callbacks q \<and> wq_hw_callbacks q' = wq_hw_callbacks q"
  by (auto simp: task_done_def aq_task_done_def split: if_splits)

lemma wq_get_fields:
  "aq_get q = Some (x, q') \<Longrightarrow> aq_items q = x # aq_items q' \<and> aq_maxsize q' = aq_maxsize q \<and>
     wq_lw_callbacks q' = wq_lw_callbacks q \<and> wq_hw_callbacks q' = wq_hw_callbacks q"
  by (auto simp: aq_get_def split: list.splits)

section \<open>Lemmas on terminated queues\<close>

lemma aq_put_nowait_simps:
  "aq_full q \<Longrightarrow> aq_put_nowait x q = Inl QueueFull"
  "\<not> aq_full q \<Longrightarrow> aq_put_nowait x q =
     Inr (q\<lparr>aq_items := aq_items q @ [x], aq_unfinished := aq_unfinished q + 1\<rparr>)"
  by (simp_all add: aq_put_nowait_def)

text \<open>What is in the queue, and what its task will still put there.\<close>

definition aq_future :: "('a, 'x) aqueue_scheme \<Rightarrow> 'a list" where
  "aq_future q = aq_items q @ (case aq_put_task q of Waiting x \<Rightarrow> [x] | _ \<Rightarrow> [])"

lemma terminate_queue_future:
  "aq_put_task q = NoPutTask \<Longrightarrow> aq_future (terminate_queue q x) = aq_future q @ [x]"
  by (simp add: terminate_queue_def aq_future_def aq_put_nowait_def)

lemma run_put_task_future: "aq_future (run_put_task q) = aq_future q"
  by (auto simp: run_put_task_def aq_future_def aq_put_nowait_def split: put_task.splits)

lemma task_done_unfinished:
  "0 < aq_unfinished q \<Longrightarrow> \<exists>cbs q'. task_done q = Inr (cbs, q') \<and> aq_items q' = aq_items q \<and>
     aq_unfinished q' = aq_unfinished q - 1"
  by (auto simp: task_done_def aq_task_done_def)

lemma put_nowait_unfinished:
  "put_nowait x q = Inr (cbs, q') \<Longrightarrow> aq_items q' = aq_items q @ [x] \<and> aq_unfinished q' = aq_unfinished q + 1"
  by (auto simp: put_nowait_def aq_put_nowait_def split: if_splits)

lemma run_put_task_maxsize [simp]: "aq_maxsize (run_put_task q) = aq_maxsize q"
  by (auto simp: run_put_task_def aq_put_nowait_def split: put_task.splits)

lemma run_put_task_none: "aq_put_task q = NoPutTask \<Longrightarrow> run_put_task q = q"
  by (simp add: run_put_task_def)

lemma terminate_queue_maxsize [simp]: "aq_maxsize (terminate_queue q x) = aq_maxsize q"
  by (auto simp: terminate_queue_def aq_put_nowait_def split: put_task.splits)

definition aq_bounded :: "('a, 'x) aqueue_scheme \<Rightarrow> bool" where
  "aq_bounded q \<longleftrightarrow> (0 < aq_maxsize q \<longrightarrow> int (length (aq_items q)) \<le> aq_maxsize q)"

lemma terminate_queue_bounded: "aq_bounded q \<Longrightarrow> aq_bounded (terminate_queue q x)"
  by (auto simp: terminate_queue_def aq_bounded_def aq_put_nowait_def aq_full_def split: put_task.splits)

lemma run_put_task_bounded: "aq_bounded q \<Longrightarrow> aq_bounded (run_put_task q)"
  by (auto simp: run_put_task_def aq_bounded_def aq_put_nowait_def aq_full_def split: put_task.splits)

section \<open>Flow control\<close>

text \<open>
  The callbacks that \<^verbatim>\<open>connection_made\<close> registers, and the reading state of the transport
  that they change. A step is one operation of the producer (\<^verbatim>\<open>put_nowait\<close>) or of the
  consumer, which takes items and calls \<^verbatim>\<open>task_done\<close> once for each item it has taken.
\<close>

datatype flow_cb = PauseReading | ResumeReading

fun run_flow_cb :: "flow_cb \<Rightarrow> bool" where
  "run_flow_cb PauseReading = False"
| "run_flow_cb ResumeReading = True"

definition run_flow_cbs :: "flow_cb list \<Rightarrow> bool \<Rightarrow> bool" where
  "run_flow_cbs cbs reading = fold (\<lambda>cb _. run_flow_cb cb) cbs reading"

record 'a flow =
  fl_queue :: "('a, flow_cb) wqueue"
  fl_reading :: bool

definition flow_start :: "('a, flow_cb) wqueue \<Rightarrow> 'a flow" where
  "flow_start q =
     (let (cbs1, q1) = add_high_watermark_callback PauseReading q;
          (cbs2, q2) = add_low_watermark_callback ResumeReading q1
      in \<lparr>fl_queue = q2, fl_reading = run_flow_cbs (cbs1 @ cbs2) True\<rparr>)"

inductive flow_consume :: "'a flow \<Rightarrow> 'a flow \<Rightarrow> bool" where
  flow_get: "aq_get (fl_queue s) = Some (x, q) \<Longrightarrow> flow_consume s (s\<lparr>fl_queue := q\<rparr>)"
| flow_done: "length (aq_items (fl_queue s)) < aq_unfinished (fl_queue s) \<Longrightarrow>
     task_done (fl_queue s) = Inr (cbs, q) \<Longrightarrow>
     flow_consume s \<lparr>fl_queue = q, fl_reading = run_flow_cbs cbs (fl_reading s)\<rparr>"

inductive flow_step :: "'a flow \<Rightarrow> 'a flow \<Rightarrow> bool" where
  flow_put: "put_nowait x (fl_queue s) = Inr (cbs, q) \<Longrightarrow>
     flow_step s \<lparr>fl_queue = q, fl_reading = run_flow_cbs cbs (fl_reading s)\<rparr>"
| consume: "flow_consume s t \<Longrightarrow> flow_step s t"

inductive_cases flow_stepE: "flow_step s t"
inductive_cases flow_consumeE: "flow_consume s t"

definition flow_init :: "int \<Rightarrow> int option \<Rightarrow> 'a flow \<Rightarrow> bool" where
  "flow_init high low s \<longleftrightarrow> (\<exists>q. wq_new high low = Inr q \<and> s = flow_start q)"

text \<open>Below the high watermark; if the watermarks are equal, reading also goes on at that length.\<close>

definition flow_inv :: "int \<Rightarrow> int option \<Rightarrow> 'a flow \<Rightarrow> bool" where
  "flow_inv high low s \<longleftrightarrow>
     (let q = fl_queue s; n = length (aq_items q) in
      wq_high_watermark q = high \<and> wq_low_watermark q = (case low of None \<Rightarrow> high div 4 | Some l \<Rightarrow> l) \<and>
      0 \<le> wq_low_watermark q \<and> wq_low_watermark q \<le> high \<and>
      wq_hw_callbacks q = [PauseReading] \<and> wq_lw_callbacks q = [ResumeReading] \<and>
      n \<le> aq_unfinished q \<and> fl_reading s = (\<not> wq_paused q) \<and>
      (\<not> wq_paused q \<longrightarrow> int n < high \<or> int n \<le> wq_low_watermark q) \<and> (wq_paused q \<longrightarrow> 0 < aq_unfinished q))"

text \<open>What the consumer still has to do, each item once to take and once to finish.\<close>

definition flow_work :: "'a flow \<Rightarrow> nat" where
  "flow_work s = length (aq_items (fl_queue s)) + aq_unfinished (fl_queue s)"

lemma run_flow_cbs_simps [simp]:
  "run_flow_cbs [] b = b" "run_flow_cbs (cbs @ [cb]) b = run_flow_cb cb"
  "run_flow_cbs [cb] b = run_flow_cb cb"
  by (simp_all add: run_flow_cbs_def)

lemma flow_inv_put:
  "flow_inv high low s \<Longrightarrow> put_nowait x (fl_queue s) = Inr (cbs, q) \<Longrightarrow>
     flow_inv high low \<lparr>fl_queue = q, fl_reading = run_flow_cbs cbs (fl_reading s)\<rparr>"
  by (auto simp: flow_inv_def put_nowait_def aq_put_nowait_def Let_def split: if_splits)
    (metis run_flow_cbs_simps(3) run_flow_cb.simps(1))+

lemma flow_inv_consume:
  assumes "flow_consume s t" and "flow_inv high low s"
  shows "flow_inv high low t"
  using assms(1)
proof cases
  case (flow_get x q)
  with assms(2) show ?thesis by (auto simp: flow_inv_def aq_get_def Let_def split: list.splits)
next
  case (flow_done cbs q)
  with assms(2) show ?thesis
    by (auto simp: flow_inv_def task_done_def aq_task_done_def Let_def split: if_splits)
      (metis run_flow_cbs_simps(3) run_flow_cb.simps(2))+
qed

lemma flow_inv_init: "flow_init high low s \<Longrightarrow> flow_inv high low s"
  by (auto simp: flow_init_def flow_inv_def flow_start_def wq_new_def Let_def
      add_high_watermark_callback_def add_low_watermark_callback_def split: if_splits)

interpretation flow: inductive_invariant "flow_init high low" flow_step "flow_inv high low" for high low
  by unfold_locales
    (auto elim!: flow_stepE intro: flow_inv_init flow_inv_put flow_inv_consume)

text \<open>Each step of the consumer is a part of its work, and it has something to do while reading is stopped.\<close>

lemma flow_consume_work: "flow_consume s t \<Longrightarrow> Suc (flow_work t) = flow_work s"
  by (erule flow_consumeE)
    (auto simp: flow_work_def aq_get_def task_done_def aq_task_done_def split: list.splits if_splits)

lemma flow_consume_any:
  assumes "flow_inv high low s" and "\<not> fl_reading s"
  shows "\<exists>t. flow_consume s t"
proof (cases "aq_items (fl_queue s)")
  case Nil
  with assms have "length (aq_items (fl_queue s)) < aq_unfinished (fl_queue s)" by (simp add: flow_inv_def Let_def)
  moreover obtain cbs q where "task_done (fl_queue s) = Inr (cbs, q)"
    using calculation task_done_unfinished [of "fl_queue s"] by fastforce
  ultimately show ?thesis by (blast intro: flow_done)
next
  case (Cons x xs)
  then show ?thesis using flow_get [of s x] by (fastforce simp: aq_get_def)
qed

lemma flow_consume_run:
  assumes "(flow_consume ^^ n) s t" and "flow_inv high low s"
  shows "n + flow_work t = flow_work s \<and> flow_inv high low t"
  using assms
proof (induction n arbitrary: t)
  case (Suc n)
  then obtain u where "(flow_consume ^^ n) s u" "flow_consume u t" by auto
  with Suc flow_consume_work flow_inv_consume show ?case by fastforce
qed auto

section \<open>Lemmas on certificates\<close>

lemma subject_data_keep: "map_of data k = Some v \<Longrightarrow> map_of (subject_data rdns data) k = Some v"
proof (induction rdns data rule: subject_data.induct)
  case (3 key val others rdns data)
  then show ?case by (cases "k = key") auto
qed simp_all

lemma subject_data_sound:
  "map_of (subject_data rdns data) k = Some v \<Longrightarrow> map_of data k = None \<Longrightarrow> [(k, v)] \<in> set rdns"
proof (induction rdns data rule: subject_data.induct)
  case (3 key val others rdns data)
  show ?case
  proof (cases "k = key")
    case True
    with 3 subject_data_keep [of "dict_set key val data" key val rdns] show ?thesis
      by (auto split: if_splits)
  next
    case False
    with 3 show ?thesis by (auto split: if_splits)
  qed
qed simp_all

text \<open>The names of a subject that the loop does not pass over.\<close>

definition names_peer :: "rdn \<Rightarrow> bool" where
  "names_peer rdn \<longleftrightarrow> rdn = [] \<or> fst (hd rdn) \<in> {ORGANIZATION_NAME, SERIAL_NUMBER}"

lemma subject_data_filter: "subject_data rdns data = subject_data (filter names_peer rdns) data"
  by (induction rdns data rule: subject_data.induct) (auto simp: names_peer_def)

section \<open>The properties\<close>

text \<open>
  C17: Flow control. In every state that a queue with watermarks can reach, the transport reads if and
  only if the queue is not paused; it reads only while the queue is below its high watermark, or (which
  is more only if the two watermarks are equal) not above its low one. Reading never stops for good: a run of the
  consumer alone is bounded by its work, and it does not end before the transport reads again.
\<close>

theorem flow_control_safe:
  assumes "reaches (flow_init high low) flow_step s"
  shows "fl_reading s = (\<not> wq_paused (fl_queue s)) \<and>
    (fl_reading s \<longrightarrow> int (length (aq_items (fl_queue s))) < high \<or>
       int (length (aq_items (fl_queue s))) \<le> (case low of None \<Rightarrow> high div 4 | Some l \<Rightarrow> l)) \<and>
    (\<forall>n t. (flow_consume ^^ n) s t \<longrightarrow>
       n \<le> length (aq_items (fl_queue s)) + aq_unfinished (fl_queue s) \<and> (fl_reading t \<or> (\<exists>u. flow_consume t u)))"
proof -
  have inv: "flow_inv high low s" by (rule flow.reaches_inv [OF assms])
  have "n \<le> flow_work s \<and> (fl_reading t \<or> (\<exists>u. flow_consume t u))" if "(flow_consume ^^ n) s t" for n t
    using flow_consume_run [OF that inv] flow_consume_any [of high low t] by auto
  with inv show ?thesis by (auto simp: flow_inv_def Let_def flow_work_def)
qed

definition example_flow :: "nat flow" where
  "example_flow = \<lparr>fl_queue = \<lparr>aq_items = [7], aq_maxsize = 0, aq_unfinished = 1, aq_put_task = NoPutTask,
     wq_paused = True, wq_lw_callbacks = [ResumeReading], wq_hw_callbacks = [PauseReading],
     wq_low_watermark = 0, wq_high_watermark = 1\<rparr>, fl_reading = False\<rparr>"

lemma example_flow_reached: "reaches (flow_init 1 None) flow_step example_flow"
proof -
  let ?q = "\<lparr>aq_items = [], aq_maxsize = 0, aq_unfinished = 0, aq_put_task = NoPutTask,
     wq_paused = False, wq_lw_callbacks = [], wq_hw_callbacks = [],
     wq_low_watermark = 0, wq_high_watermark = 1\<rparr> :: (nat, flow_cb) wqueue"
  have "flow_init 1 None (flow_start ?q)" by (simp add: flow_init_def wq_new_def)
  moreover have "flow_step (flow_start ?q) example_flow"
    using flow_put [of 7 "flow_start ?q" "[PauseReading]" "fl_queue example_flow"]
    by (simp add: example_flow_def flow_start_def put_nowait_def aq_put_nowait_def aq_full_def
        add_high_watermark_callback_def add_low_watermark_callback_def)
  ultimately show ?thesis by (blast intro: reaches_init reaches_step)
qed

theorem flow_control_safe_witness:
  "reaches (flow_init 1 None) flow_step example_flow \<and> \<not> fl_reading example_flow \<and> wq_paused (fl_queue example_flow) \<and>
   (\<exists>u. flow_consume example_flow u)"
proof -
  have paused: "\<not> fl_reading example_flow" "wq_paused (fl_queue example_flow)" by (simp_all add: example_flow_def)
  have "(flow_consume ^^ 0) example_flow example_flow" by simp
  with flow_control_safe [OF example_flow_reached] paused(1) have "\<exists>u. flow_consume example_flow u" by blast
  with example_flow_reached paused show ?thesis by blast
qed

text \<open>
  The first \<^verbatim>\<open>terminate_queue\<close> on a queue makes its item the last one: in the queue at
  once when there is room, else through a task that puts it as soon as there is room. It
  never raises and never exceeds the size of the queue; a second call is ignored if such a
  task exists.
\<close>

theorem terminate_queue_last:
  assumes "aq_put_task q = NoPutTask" and "aq_bounded q"
  shows "aq_future (terminate_queue q x) = aq_items q @ [x] \<and> aq_bounded (terminate_queue q x) \<and>
    aq_future (run_put_task (terminate_queue q x)) = aq_items q @ [x] \<and>
    aq_bounded (run_put_task (terminate_queue q x)) \<and>
    (aq_full q \<longrightarrow> terminate_queue (terminate_queue q x) y = terminate_queue q x)"
  using assms terminate_queue_future [OF assms(1), of x]
  by (auto simp: run_put_task_future terminate_queue_bounded run_put_task_bounded aq_future_def [of q])
    (simp add: terminate_queue_def aq_put_nowait_simps)

theorem terminate_queue_last_witness:
  "aq_future (terminate_queue (aq_new 1) (5::nat)) = [5]"
proof -
  have "aq_put_task (aq_new 1 :: nat aqueue) = NoPutTask" "aq_bounded (aq_new 1 :: nat aqueue)"
    by (simp_all add: aq_new_def aq_bounded_def)
  from terminate_queue_last [OF this, of 5] show ?thesis by (simp add: aq_new_def)
qed

text \<open>
  C38: A serial number is taken only from a certificate whose subject has the organization
  of the nodes registry and that serial number, each as a name of its own. And it is taken
  from every such subject without an empty name or a second organization or serial number.
\<close>

theorem serial_number_sound:
  "(get_peer_serial_number cert = Some sn \<longrightarrow>
     (\<exists>subject. cert = Some (Some subject) \<and> [(SERIAL_NUMBER, sn)] \<in> set subject \<and>
        [(ORGANIZATION_NAME, NODES_REGISTRY)] \<in> set subject)) \<and>
   (filter names_peer subject \<in> {[[(ORGANIZATION_NAME, NODES_REGISTRY)], [(SERIAL_NUMBER, sn)]],
        [[(SERIAL_NUMBER, sn)], [(ORGANIZATION_NAME, NODES_REGISTRY)]]} \<longrightarrow>
     get_peer_serial_number (Some (Some subject)) = Some sn)"
proof (intro conjI impI)
  assume "get_peer_serial_number cert = Some sn"
  then obtain subject where "cert = Some (Some subject)"
    "map_of (subject_data subject []) SERIAL_NUMBER = Some sn"
    "map_of (subject_data subject []) ORGANIZATION_NAME = Some NODES_REGISTRY"
    by (auto simp: get_peer_serial_number_def Let_def split: if_splits option.splits)
  then show "\<exists>subject. cert = Some (Some subject) \<and> [(SERIAL_NUMBER, sn)] \<in> set subject \<and>
      [(ORGANIZATION_NAME, NODES_REGISTRY)] \<in> set subject"
    by (auto dest: subject_data_sound)
next
  assume "filter names_peer subject \<in> {[[(ORGANIZATION_NAME, NODES_REGISTRY)], [(SERIAL_NUMBER, sn)]],
      [[(SERIAL_NUMBER, sn)], [(ORGANIZATION_NAME, NODES_REGISTRY)]]}"
  then show "get_peer_serial_number (Some (Some subject)) = Some sn"
    using subject_data_filter [of subject "[]"]
    by (auto simp: get_peer_serial_number_def ORGANIZATION_NAME_def SERIAL_NUMBER_def)
qed

definition example_names :: "rdn list" where
  "example_names = [[(lit ''commonName'', lit ''x'')], [(SERIAL_NUMBER, lit ''1234'')], [(ORGANIZATION_NAME, NODES_REGISTRY)]]"

theorem serial_number_sound_witness:
  "get_peer_serial_number (Some (Some example_names)) = Some (lit ''1234'') \<and>
   (\<exists>subject. Some (Some example_names) = Some (Some subject) \<and> [(SERIAL_NUMBER, lit ''1234'')] \<in> set subject \<and>
      [(ORGANIZATION_NAME, NODES_REGISTRY)] \<in> set subject)"
proof -
  have "filter names_peer example_names = [[(SERIAL_NUMBER, lit ''1234'')], [(ORGANIZATION_NAME, NODES_REGISTRY)]]"
    by (simp add: example_names_def names_peer_def ORGANIZATION_NAME_def SERIAL_NUMBER_def)
  with serial_number_sound [of "Some (Some example_names)" "lit ''1234''" example_names] show ?thesis by blast
qed

text \<open>
  A second serial number in the subject does not make the certificate unusable: the
  exception that reports it is caught in the same function, and the first value is returned.
\<close>

theorem second_serial_number_ignored:
  "get_peer_serial_number (Some (Some
     [[(ORGANIZATION_NAME, NODES_REGISTRY)], [(SERIAL_NUMBER, a)], [(SERIAL_NUMBER, b)]])) = Some a"
  by (simp add: get_peer_serial_number_def ORGANIZATION_NAME_def SERIAL_NUMBER_def)

end
