(* ===== verification/Aio_Base.thy ===== *)
theory Aio_Base
  imports Complex_Main Stomp_Stream Common
begin

text \<open>
  What the STOMP client and the STOMP server of \<^verbatim>\<open>swpt_stomp/aio_protocols.py\<close> share: the
  heartbeat negotiation and the class \<^verbatim>\<open>_BaseStompProtocol\<close>. The fields of the class are the
  record \<open>proto\<close>, which the client and the server extend, and its methods are functions on
  every extension. A method the class leaves abstract (\<^verbatim>\<open>_close_with_error\<close> and others) is an
  argument of the methods that call it.

  A handler returns the exception that ended it, if any, together with the state it
  leaves. The event loop is the caller: the time it reads is an argument (a rational
  number of seconds), the callbacks it has scheduled are the list \<open>pr_timers\<close>, and a
  coroutine is the point at which it waits.
\<close>

section \<open>Heartbeats\<close>

definition DEFAULT_HB_SEND_MIN :: int where "DEFAULT_HB_SEND_MIN = 5000"
definition DEFAULT_HB_RECV_DESIRED :: int where "DEFAULT_HB_RECV_DESIRED = 30000"
definition DEFAULT_STOMP_HOST :: str where "DEFAULT_STOMP_HOST = lit ''/''"
definition DEFAULT_STOMP_DESTINATION :: str where "DEFAULT_STOMP_DESTINATION = lit ''/exchange/smp''"

definition calc_heartbeat :: "int \<Rightarrow> int \<Rightarrow> int" where
  "calc_heartbeat send_min recv_desired =
     (if send_min = 0 \<or> recv_desired = 0 then 0 else max send_min recv_desired)"

text \<open>
  \<^verbatim>\<open>[int(n) for n in peer_heartbeat.split(',', 2)]\<close> unpacked into two numbers, neither of
  them negative; \<^const>\<open>None\<close> is the \<^verbatim>\<open>ValueError\<close>.
\<close>

definition parse_heartbeat_header :: "str \<Rightarrow> (int \<times> int) option" where
  "parse_heartbeat_header s =
     (case map (py_int 10) (py_split 44 2 s) of
        [Some a, Some b] \<Rightarrow> if a < 0 \<or> b < 0 then None else Some (a, b)
      | _ \<Rightarrow> None)"

text \<open>The value of the header that both sides send.\<close>

definition heartbeat_header :: "int \<Rightarrow> int \<Rightarrow> str" where
  "heartbeat_header send_min recv_desired = dec_of_int send_min @ [44] @ dec_of_int recv_desired"

section \<open>The state of a protocol\<close>

record transport =
  t_out :: "bytes list"
  t_closing :: bool
  t_reading :: bool

datatype timer = ConnectedTimeout | Heartbeat

text \<open>Where the two coroutines of a protocol wait, and the tasks that are registered.\<close>

datatype writer = NoWriter | WaitStart | WaitItem | WriterDone
datatype watchdog = NoWatchdog | AtTop | Sleeping | WatchdogDone
datatype task = MessageProcessor | WriterTask | WatchdogTask

record ('u, 'v) proto =
  pr_send_queue :: "'u send_item aqueue"
  pr_recv_queue :: "('v option, flow_cb) wqueue"
  pr_connection_lost :: bool
  pr_hb_send_min :: int
  pr_hb_recv_desired :: int
  pr_max_network_delay :: int
  pr_connected :: bool
  pr_done :: bool
  pr_hb_send :: int
  pr_hb_recv :: int
  pr_started_at :: rat
  pr_data_received_at :: rat
  pr_parser :: stomp_parser
  pr_transport :: "transport option"
  pr_writer :: writer
  pr_watchdog :: watchdog
  pr_start_sending :: bool
  pr_timers :: "(rat \<times> timer) list"
  pr_tasks :: "task set"

definition proto_init ::
  "'u send_item aqueue \<Rightarrow> ('v option, flow_cb) wqueue \<Rightarrow> int \<Rightarrow> int \<Rightarrow> int \<Rightarrow> exc + ('u, 'v) proto" where
  "proto_init send_queue recv_queue hb_send_min hb_recv_desired max_network_delay =
     (if 0 \<le> hb_send_min \<and> 0 \<le> hb_recv_desired then
        Inr \<lparr>pr_send_queue = send_queue, pr_recv_queue = recv_queue, pr_connection_lost = False,
             pr_hb_send_min = hb_send_min, pr_hb_recv_desired = hb_recv_desired,
             pr_max_network_delay = max_network_delay, pr_connected = False, pr_done = False,
             pr_hb_send = 0, pr_hb_recv = 0, pr_started_at = 0, pr_data_received_at = 0,
             pr_parser = reset, pr_transport = None, pr_writer = NoWriter, pr_watchdog = NoWatchdog,
             pr_start_sending = True, pr_timers = [], pr_tasks = {}\<rparr>
      else Inl AssertionError)"

section \<open>Handlers that may raise\<close>

type_synonym 's res = "exc option \<times> 's"

text \<open>The next statement of a handler: not reached after an exception.\<close>

fun thenE :: "'s res \<Rightarrow> ('s \<Rightarrow> 's res) \<Rightarrow> 's res" where
  "thenE (Some e, s) k = (Some e, s)"
| "thenE (None, s) k = k s"

section \<open>The transport and the queues\<close>

definition transport_write :: "bytes \<Rightarrow> ('u, 'v, 'x) proto_scheme \<Rightarrow> ('u, 'v, 'x) proto_scheme res" where
  "transport_write b s =
     (case pr_transport s of
        None \<Rightarrow> (Some AssertionError, s)
      | Some t \<Rightarrow> (None, s\<lparr>pr_transport := Some (t\<lparr>t_out := t_out t @ [b]\<rparr>)\<rparr>))"

text \<open>\<^verbatim>\<open>assert self._transport; self._transport.write(bytes(frame))\<close>.\<close>

definition write_frame :: "stomp_frame \<Rightarrow> ('u, 'v, 'x) proto_scheme \<Rightarrow> ('u, 'v, 'x) proto_scheme res" where
  "write_frame f s =
     (if pr_transport s = None then (Some AssertionError, s)
      else (case frame_bytes f of Inl e \<Rightarrow> (Some e, s) | Inr b \<Rightarrow> transport_write b s))"

definition run_callbacks :: "flow_cb list \<Rightarrow> ('u, 'v, 'x) proto_scheme \<Rightarrow> ('u, 'v, 'x) proto_scheme" where
  "run_callbacks cbs s =
     s\<lparr>pr_transport := map_option (\<lambda>t. t\<lparr>t_reading := run_flow_cbs cbs (t_reading t)\<rparr>) (pr_transport s)\<rparr>"

definition recv_put :: "'v option \<Rightarrow> ('u, 'v, 'x) proto_scheme \<Rightarrow> ('u, 'v, 'x) proto_scheme res" where
  "recv_put x s =
     (case put_nowait x (pr_recv_queue s) of
        Inl e \<Rightarrow> (Some e, s)
      | Inr (cbs, q) \<Rightarrow> (None, run_callbacks cbs (s\<lparr>pr_recv_queue := q\<rparr>)))"

section \<open>The methods of the base class\<close>

definition base_connection_made ::
  "rat \<Rightarrow> bool \<Rightarrow> transport \<Rightarrow> ('u, 'v, 'x) proto_scheme \<Rightarrow> ('u, 'v, 'x) proto_scheme" where
  "base_connection_made now starts_processor t s =
     (let s1 = s\<lparr>pr_started_at := now, pr_transport := Some t\<rparr>;
          s2 = (if starts_processor then s1\<lparr>pr_tasks := insert MessageProcessor (pr_tasks s1)\<rparr> else s1);
          (cbs1, q1) = add_high_watermark_callback PauseReading (pr_recv_queue s2);
          s3 = run_callbacks cbs1 (s2\<lparr>pr_recv_queue := q1\<rparr>);
          (cbs2, q2) = add_low_watermark_callback ResumeReading (pr_recv_queue s3);
          s4 = run_callbacks cbs2 (s3\<lparr>pr_recv_queue := q2\<rparr>)
      in s4\<lparr>pr_timers := pr_timers s4 @
              [(now + of_int (pr_max_network_delay s4) / 1000, ConnectedTimeout)]\<rparr>)"

definition base_data_received :: "rat \<Rightarrow> ('u, 'v, 'x) proto_scheme \<Rightarrow> ('u, 'v, 'x) proto_scheme" where
  "base_data_received now s = s\<lparr>pr_data_received_at := now\<rparr>"

definition cancel_writer :: "('u, 'v, 'x) proto_scheme \<Rightarrow> ('u, 'v, 'x) proto_scheme" where
  "cancel_writer s =
     (if pr_writer s = NoWriter then s
      else s\<lparr>pr_writer := WriterDone, pr_tasks := pr_tasks s - {WriterTask}\<rparr>)"

definition cancel_watchdog :: "('u, 'v, 'x) proto_scheme \<Rightarrow> ('u, 'v, 'x) proto_scheme" where
  "cancel_watchdog s =
     (if pr_watchdog s = NoWatchdog then s
      else s\<lparr>pr_watchdog := WatchdogDone, pr_tasks := pr_tasks s - {WatchdogTask}\<rparr>)"

definition connection_lost :: "('u, 'v, 'x) proto_scheme \<Rightarrow> ('u, 'v, 'x) proto_scheme res" where
  "connection_lost s =
     (let s1 = cancel_watchdog (cancel_writer (s\<lparr>pr_connection_lost := True, pr_done := True\<rparr>)) in
      if pr_transport s1 = None then (Some AssertionError, s1)
      else case remove_high_watermark_callback PauseReading (pr_recv_queue s1) of
             Inl e \<Rightarrow> (Some e, s1)
           | Inr q1 \<Rightarrow>
               (let s2 = s1\<lparr>pr_recv_queue := q1\<rparr> in
                case remove_low_watermark_callback ResumeReading (pr_recv_queue s2) of
                  Inl e \<Rightarrow> (Some e, s2)
                | Inr q2 \<Rightarrow> recv_put None (s2\<lparr>pr_recv_queue := q2\<rparr>)))"

definition pause_writing :: "('u, 'v, 'x) proto_scheme \<Rightarrow> ('u, 'v, 'x) proto_scheme" where
  "pause_writing s = s\<lparr>pr_start_sending := False\<rparr>"

definition resume_writing :: "('u, 'v, 'x) proto_scheme \<Rightarrow> ('u, 'v, 'x) proto_scheme" where
  "resume_writing s = s\<lparr>pr_start_sending := True\<rparr>"

definition proto_close :: "('u, 'v, 'x) proto_scheme \<Rightarrow> ('u, 'v, 'x) proto_scheme res" where
  "proto_close s =
     (if pr_done s then (None, s)
      else case pr_transport s of
             None \<Rightarrow> (Some AssertionError, s)
           | Some t \<Rightarrow> (None, s\<lparr>pr_transport := Some (t\<lparr>t_closing := True\<rparr>), pr_done := True\<rparr>))"

definition proto_connect ::
  "(str \<Rightarrow> ('u, 'v, 'x) proto_scheme \<Rightarrow> ('u, 'v, 'x) proto_scheme res) \<Rightarrow>
   str \<Rightarrow> ('u, 'v, 'x) proto_scheme \<Rightarrow> ('u, 'v, 'x) proto_scheme res" where
  "proto_connect close_with_error peer_heartbeat s =
     (case parse_heartbeat_header peer_heartbeat of
        None \<Rightarrow> close_with_error (lit ''Received invalid heart-beat value.'') s
      | Some (hb_send_min, hb_recv_desired) \<Rightarrow>
          (let s1 = s\<lparr>pr_hb_send := calc_heartbeat (pr_hb_send_min s) hb_recv_desired,
                      pr_hb_recv := calc_heartbeat hb_send_min (pr_hb_recv_desired s)\<rparr>;
               s2 = (if pr_hb_send s1 \<noteq> 0
                     then s1\<lparr>pr_timers := pr_timers s1 @
                            [(pr_started_at s1 + of_int (pr_hb_send s1) / 1000, Heartbeat)]\<rparr>
                     else s1);
               s3 = (if pr_hb_recv s2 \<noteq> 0
                     then s2\<lparr>pr_watchdog := AtTop, pr_tasks := insert WatchdogTask (pr_tasks s2)\<rparr>
                     else s2)
           in (None, s3\<lparr>pr_writer := WaitStart, pr_tasks := insert WriterTask (pr_tasks s3),
                         pr_connected := True\<rparr>)))"

definition detect_connected_timeout :: "('u, 'v, 'x) proto_scheme \<Rightarrow> ('u, 'v, 'x) proto_scheme res" where
  "detect_connected_timeout s = (if \<not> pr_connected s then proto_close s else (None, s))"

definition send_heartbeat :: "rat \<Rightarrow> ('u, 'v, 'x) proto_scheme \<Rightarrow> ('u, 'v, 'x) proto_scheme res" where
  "send_heartbeat now s =
     (if pr_done s then (None, s)
      else thenE (transport_write [NL] s) (\<lambda>s.
        (None, s\<lparr>pr_timers := pr_timers s @ [(now + of_int (pr_hb_send s) / 1000, Heartbeat)]\<rparr>)))"

text \<open>The event loop runs a callback whose time has come and forgets it.\<close>

definition fire_timer ::
  "rat \<Rightarrow> nat \<Rightarrow> ('u, 'v, 'x) proto_scheme \<Rightarrow> ('u, 'v, 'x) proto_scheme res" where
  "fire_timer now i s =
     (if i < length (pr_timers s) \<and> fst (pr_timers s ! i) \<le> now then
        (let s1 = s\<lparr>pr_timers := take i (pr_timers s) @ drop (Suc i) (pr_timers s)\<rparr> in
         case snd (pr_timers s ! i) of
           ConnectedTimeout \<Rightarrow> detect_connected_timeout s1
         | Heartbeat \<Rightarrow> send_heartbeat now s1)
      else (None, s))"

text \<open>
  \<^verbatim>\<open>_check_aliveness\<close>, from one wait to the next. The text of the warning renders a
  number of seconds with three decimals (\<open>fmt\<close>).
\<close>

definition watchdog_seconds :: "('u, 'v, 'x) proto_scheme \<Rightarrow> rat" where
  "watchdog_seconds s =
     of_int DEFAULT_HB_SEND_MIN / 1000 + of_int (pr_hb_recv s + pr_max_network_delay s) / 1000"

definition end_watchdog :: "('u, 'v, 'x) proto_scheme \<Rightarrow> ('u, 'v, 'x) proto_scheme" where
  "end_watchdog s = s\<lparr>pr_watchdog := WatchdogDone, pr_tasks := pr_tasks s - {WatchdogTask}\<rparr>"

definition check_aliveness ::
  "(str \<Rightarrow> ('u, 'v, 'x) proto_scheme \<Rightarrow> ('u, 'v, 'x) proto_scheme res) \<Rightarrow> (rat \<Rightarrow> str) \<Rightarrow>
   rat \<Rightarrow> ('u, 'v, 'x) proto_scheme \<Rightarrow> ('u, 'v, 'x) proto_scheme res" where
  "check_aliveness close_with_warning fmt now s =
     (case pr_watchdog s of
        AtTop \<Rightarrow> (None, if pr_done s then end_watchdog s else s\<lparr>pr_watchdog := Sleeping\<rparr>)
      | Sleeping \<Rightarrow>
          if watchdog_seconds s < now - pr_data_received_at s then
            (let (e, s') = close_with_warning
               (lit ''No data received for '' @ fmt (watchdog_seconds s) @ lit '' seconds.'') s
             in (e, end_watchdog s'))
          else (None, s\<lparr>pr_watchdog := AtTop\<rparr>)
      | _ \<Rightarrow> (None, s))"

text \<open>
  \<^verbatim>\<open>_process_send_queue\<close>, from one wait to the next: first for permission to send, then
  for an item. An exception ends the task.
\<close>

definition end_writer :: "('u, 'v, 'x) proto_scheme \<Rightarrow> ('u, 'v, 'x) proto_scheme" where
  "end_writer s = s\<lparr>pr_writer := WriterDone, pr_tasks := pr_tasks s - {WriterTask}\<rparr>"

definition send_task_done :: "('u, 'v, 'x) proto_scheme \<Rightarrow> ('u, 'v, 'x) proto_scheme res" where
  "send_task_done s =
     (case aq_task_done (pr_send_queue s) of
        Inl e \<Rightarrow> (Some e, s) | Inr q \<Rightarrow> (None, s\<lparr>pr_send_queue := q\<rparr>))"

definition process_send_queue ::
  "('u \<Rightarrow> ('u, 'v, 'x) proto_scheme \<Rightarrow> ('u, 'v, 'x) proto_scheme res) \<Rightarrow>
   (server_error option \<Rightarrow> ('u, 'v, 'x) proto_scheme \<Rightarrow> ('u, 'v, 'x) proto_scheme res) \<Rightarrow>
   ('u, 'v, 'x) proto_scheme \<Rightarrow> ('u, 'v, 'x) proto_scheme res" where
  "process_send_queue send_frame close_gracefully s =
     (case pr_writer s of
        WaitStart \<Rightarrow> (None, if pr_start_sending s then s\<lparr>pr_writer := WaitItem\<rparr> else s)
      | WaitItem \<Rightarrow>
          (case aq_get (pr_send_queue s) of
             None \<Rightarrow> (None, s)
           | Some (Stop err, q) \<Rightarrow>
               (let (e, s') = thenE (close_gracefully err (s\<lparr>pr_send_queue := q\<rparr>)) send_task_done
                in (e, end_writer s'))
           | Some (Payload obj, q) \<Rightarrow>
               (case thenE (send_frame obj (s\<lparr>pr_send_queue := q\<rparr>)) send_task_done of
                  (Some e, s') \<Rightarrow> (Some e, end_writer s')
                | (None, s') \<Rightarrow> (None, s'\<lparr>pr_writer := WaitStart\<rparr>)))
      | _ \<Rightarrow> (None, s))"

text \<open>The task of the message processor ends, and \<^verbatim>\<open>_done_task\<close> forgets it.\<close>

definition processor_done :: "('u, 'v, 'x) proto_scheme \<Rightarrow> ('u, 'v, 'x) proto_scheme" where
  "processor_done s = s\<lparr>pr_tasks := pr_tasks s - {MessageProcessor}\<rparr>"

section \<open>Lemmas on the base class\<close>

text \<open>Literals stay folded from here on; two of them are compared as strings.\<close>

declare lit_simps [simp del]

declare lit_eq_iff [simp] lit_Nil_iff [simp]

lemma thenE_inv: "P (snd r) \<Longrightarrow> (\<And>s. P s \<Longrightarrow> P (snd (k s))) \<Longrightarrow> P (snd (thenE r k))"
  by (cases r; cases "fst r") auto

lemma thenE_fst_None: "fst (thenE r k) = None \<Longrightarrow> fst r = None"
  by (cases r; cases "fst r") auto

lemma recv_put_unbounded:
  assumes "aq_maxsize (pr_recv_queue s) \<le> 0"
  shows "\<exists>cbs q. recv_put x s = (None, run_callbacks cbs (s\<lparr>pr_recv_queue := q\<rparr>)) \<and>
    aq_items q = aq_items (pr_recv_queue s) @ [x] \<and> aq_maxsize q \<le> 0"
proof -
  from put_nowait_unbounded [OF assms, of x] obtain cbs q where
    "put_nowait x (pr_recv_queue s) = Inr (cbs, q)" "aq_items q = aq_items (pr_recv_queue s) @ [x]"
    "aq_maxsize q \<le> 0" using assms by auto
  then show ?thesis by (intro exI [of _ cbs] exI [of _ q]) (simp add: recv_put_def)
qed

text \<open>
  The end of a connection seen from outside: the transport is closed by the event loop
  after an exception in a callback, and it is closed when the connection is lost.
\<close>

definition abort :: "('u, 'v, 'x) proto_scheme \<Rightarrow> ('u, 'v, 'x) proto_scheme" where
  "abort s = s\<lparr>pr_transport := map_option (\<lambda>t. t\<lparr>t_closing := True\<rparr>) (pr_transport s)\<rparr>"

text \<open>
  The part of the invariant that the client and the server share. \<open>taken\<close> is what the
  consumer has taken from the receive queue so far: with what is still in the queue, it is
  a sequence of items, followed by one \<^const>\<open>None\<close> once the connection is lost.
\<close>

definition proto_inv :: "'v option list \<Rightarrow> ('u, 'v, 'x) proto_scheme \<Rightarrow> bool" where
  "proto_inv taken s \<longleftrightarrow>
     (pr_done s \<longrightarrow> (\<exists>t. pr_transport s = Some t \<and> t_closing t)) \<and>
     (pr_connection_lost s \<longrightarrow> pr_done s \<and> pr_writer s \<in> {NoWriter, WriterDone} \<and>
        pr_watchdog s \<in> {NoWatchdog, WatchdogDone}) \<and>
     (pr_connected s \<longrightarrow> pr_transport s \<noteq> None) \<and>
     aq_maxsize (pr_recv_queue s) \<le> 0 \<and>
     (pr_transport s = None \<longrightarrow> wq_hw_callbacks (pr_recv_queue s) = [] \<and> wq_lw_callbacks (pr_recv_queue s) = []) \<and>
     (pr_transport s \<noteq> None \<and> \<not> pr_connection_lost s \<longrightarrow>
        wq_hw_callbacks (pr_recv_queue s) = [PauseReading] \<and> wq_lw_callbacks (pr_recv_queue s) = [ResumeReading]) \<and>
     (\<exists>xs. taken @ aq_items (pr_recv_queue s) = map Some xs @ (if pr_connection_lost s then [None] else []))"

lemma proto_inv_write: "proto_inv taken s \<Longrightarrow> proto_inv taken (snd (transport_write b s))"
  by (cases "pr_transport s") (auto simp: proto_inv_def transport_write_def)

lemma proto_inv_write_frame: "proto_inv taken s \<Longrightarrow> proto_inv taken (snd (write_frame f s))"
  by (auto simp: write_frame_def proto_inv_write split: sum.splits)

lemma proto_inv_close: "proto_inv taken s \<Longrightarrow> proto_inv taken (snd (proto_close s))"
  by (auto simp: proto_inv_def proto_close_def split: option.splits)

lemma proto_inv_abort: "proto_inv taken s \<Longrightarrow> proto_inv taken (abort s)"
  by (cases "pr_transport s") (auto simp: proto_inv_def abort_def)

lemma proto_inv_run_callbacks: "proto_inv taken s \<Longrightarrow> proto_inv taken (run_callbacks cbs s)"
  by (cases "pr_transport s") (auto simp: proto_inv_def run_callbacks_def)

lemma proto_inv_recv_put:
  assumes "proto_inv taken s" and "\<not> pr_connection_lost s"
  shows "proto_inv taken (snd (recv_put (Some x) s))"
proof -
  have "aq_maxsize (pr_recv_queue s) \<le> 0" using assms(1) by (simp add: proto_inv_def)
  from put_nowait_unbounded [OF this, of "Some x"] obtain cbs q where
    put: "put_nowait (Some x) (pr_recv_queue s) = Inr (cbs, q)"
    and q: "aq_items q = aq_items (pr_recv_queue s) @ [Some x]" "aq_maxsize q = aq_maxsize (pr_recv_queue s)"
      "wq_lw_callbacks q = wq_lw_callbacks (pr_recv_queue s)" "wq_hw_callbacks q = wq_hw_callbacks (pr_recv_queue s)"
    by blast
  from assms obtain xs where xs: "taken @ aq_items (pr_recv_queue s) = map Some xs"
    by (auto simp: proto_inv_def)
  then have "taken @ aq_items q = map Some (xs @ [x])" by (simp add: q flip: append_assoc)
  then have "proto_inv taken (s\<lparr>pr_recv_queue := q\<rparr>)"
    using assms q by (auto simp: proto_inv_def simp del: map_append)
  then show ?thesis by (simp add: recv_put_def put proto_inv_run_callbacks)
qed

lemma proto_inv_connection_made:
  assumes "proto_inv taken s" and "pr_transport s = None"
  shows "proto_inv taken (base_connection_made now starts t s)"
  using assms
  by (auto simp: base_connection_made_def Let_def proto_inv_def run_callbacks_def
      add_high_watermark_callback_def add_low_watermark_callback_def)

lemma proto_inv_connection_lost:
  assumes "proto_inv taken s" and "pr_transport s \<noteq> None" and "\<not> pr_connection_lost s"
  shows "fst (connection_lost (abort s)) = None \<and> proto_inv taken (snd (connection_lost (abort s)))"
proof -
  let ?q = "(pr_recv_queue s)\<lparr>wq_hw_callbacks := [], wq_lw_callbacks := []\<rparr>"
  let ?s = "(cancel_watchdog (cancel_writer ((abort s)\<lparr>pr_connection_lost := True, pr_done := True\<rparr>)))\<lparr>pr_recv_queue := ?q\<rparr>"
  have cb: "wq_hw_callbacks (pr_recv_queue s) = [PauseReading]" "wq_lw_callbacks (pr_recv_queue s) = [ResumeReading]"
    and max: "aq_maxsize ?q \<le> 0"
    using assms by (simp_all add: proto_inv_def)
  from put_nowait_unbounded [OF max, of None] obtain cbs q where
    put: "put_nowait None ?q = Inr (cbs, q)"
    and q: "aq_items q = aq_items (pr_recv_queue s) @ [None]" "aq_maxsize q = aq_maxsize (pr_recv_queue s)"
      "wq_lw_callbacks q = []" "wq_hw_callbacks q = []"
    by auto
  have eq: "connection_lost (abort s) = (None, run_callbacks cbs (?s\<lparr>pr_recv_queue := q\<rparr>))"
    using cb put assms(2)
    by (simp add: connection_lost_def Let_def remove_high_watermark_callback_def
        remove_low_watermark_callback_def recv_put_def cancel_writer_def cancel_watchdog_def abort_def)
  from assms obtain xs where "taken @ aq_items (pr_recv_queue s) = map Some xs"
    by (auto simp: proto_inv_def)
  then have "taken @ aq_items q = map Some xs @ [None]" by (simp add: q flip: append_assoc)
  then have "proto_inv taken (?s\<lparr>pr_recv_queue := q\<rparr>)"
    using assms q by (auto simp: proto_inv_def cancel_writer_def cancel_watchdog_def abort_def)
  then show ?thesis by (simp add: eq proto_inv_run_callbacks)
qed

lemma proto_inv_timer: "proto_inv taken s \<Longrightarrow> proto_inv taken (snd (fire_timer now i s))"
proof -
  assume inv: "proto_inv taken s"
  define s1 where "s1 = s\<lparr>pr_timers := take i (pr_timers s) @ drop (Suc i) (pr_timers s)\<rparr>"
  have s1: "proto_inv taken s1" using inv by (simp add: proto_inv_def s1_def)
  have "proto_inv taken (snd (send_heartbeat now s1))"
    unfolding send_heartbeat_def
    by (auto intro!: thenE_inv [where P = "proto_inv taken"] proto_inv_write s1)
      (simp add: proto_inv_def)
  with inv s1 show ?thesis
    by (auto simp: fire_timer_def detect_connected_timeout_def s1_def [symmetric] Let_def proto_inv_close
        split: timer.splits)
qed

text \<open>What has been written so far.\<close>

definition out_of :: "('u, 'v, 'x) proto_scheme \<Rightarrow> bytes list" where
  "out_of s = (case pr_transport s of None \<Rightarrow> [] | Some t \<Rightarrow> t_out t)"

lemma out_processor_done [simp]: "out_of (processor_done s) = out_of s"
  by (simp add: out_of_def processor_done_def)

lemma out_of_fields [simp]:
  "out_of (s\<lparr>pr_recv_queue := rq\<rparr>) = out_of s" "out_of (s\<lparr>pr_send_queue := sq\<rparr>) = out_of s"
  "out_of (s\<lparr>pr_parser := p\<rparr>) = out_of s" "out_of (s\<lparr>pr_start_sending := b\<rparr>) = out_of s"
  "out_of (s\<lparr>pr_writer := w\<rparr>) = out_of s" "out_of (s\<lparr>pr_watchdog := d\<rparr>) = out_of s"
  "out_of (s\<lparr>pr_data_received_at := r\<rparr>) = out_of s" "out_of (s\<lparr>pr_started_at := r\<rparr>) = out_of s"
  "out_of (end_writer s) = out_of s" "out_of (end_watchdog s) = out_of s"
  "out_of (cancel_writer s) = out_of s" "out_of (cancel_watchdog s) = out_of s"
  "out_of (s\<lparr>pr_connection_lost := b, pr_done := b'\<rparr>) = out_of s"
  by (simp_all add: out_of_def end_writer_def end_watchdog_def cancel_writer_def cancel_watchdog_def)

lemma out_abort [simp]: "out_of (abort s) = out_of s"
  by (cases "pr_transport s") (simp_all add: abort_def out_of_def)

lemma out_run_callbacks [simp]: "out_of (run_callbacks cbs s) = out_of s"
  by (cases "pr_transport s") (simp_all add: run_callbacks_def out_of_def)

lemma out_recv_put [simp]: "out_of (snd (recv_put x s)) = out_of s"
  by (auto simp: recv_put_def split: sum.splits)

lemma out_close [simp]: "out_of (snd (proto_close s)) = out_of s"
  by (simp add: proto_close_def out_of_def split: option.splits)

lemma out_connection_lost [simp]: "out_of (snd (connection_lost s)) = out_of s"
  by (simp add: connection_lost_def Let_def split: sum.splits)

lemma out_write_frame:
  "out_of (snd (write_frame f s)) = out_of s \<or>
     (\<exists>b. frame_bytes f = Inr b \<and> out_of (snd (write_frame f s)) = out_of s @ [b])"
  by (cases "frame_bytes f") (auto simp: write_frame_def transport_write_def out_of_def)

lemma out_timer:
  "out_of (snd (fire_timer now i s)) = out_of s \<or>
     out_of (snd (fire_timer now i s)) = out_of s @ [[NL]] \<and> \<not> pr_done s"
  by (auto simp: fire_timer_def Let_def detect_connected_timeout_def proto_close_def send_heartbeat_def
      transport_write_def out_of_def split: timer.splits option.splits)

lemma proto_inv_fields [simp]:
  "proto_inv taken (s\<lparr>pr_start_sending := b\<rparr>) = proto_inv taken s"
  "proto_inv taken (s\<lparr>pr_send_queue := q\<rparr>) = proto_inv taken s"
  "proto_inv taken (s\<lparr>pr_parser := p\<rparr>) = proto_inv taken s"
  "proto_inv taken (s\<lparr>pr_data_received_at := r\<rparr>) = proto_inv taken s"
  "proto_inv taken (s\<lparr>pr_started_at := r\<rparr>) = proto_inv taken s"
  by (simp_all add: proto_inv_def)

text \<open>Before the connection is lost.\<close>

definition live :: "'v option list \<Rightarrow> ('u, 'v, 'x) proto_scheme \<Rightarrow> bool" where
  "live taken s \<longleftrightarrow> proto_inv taken s \<and> \<not> pr_connection_lost s"

lemma lost_write [simp]: "pr_connection_lost (snd (transport_write b s)) = pr_connection_lost s"
  by (simp add: transport_write_def split: option.splits)

lemma lost_write_frame [simp]: "pr_connection_lost (snd (write_frame f s)) = pr_connection_lost s"
  by (simp add: write_frame_def split: sum.splits)

lemma lost_close [simp]: "pr_connection_lost (snd (proto_close s)) = pr_connection_lost s"
  by (simp add: proto_close_def split: option.splits)

lemma lost_recv_put [simp]: "pr_connection_lost (snd (recv_put x s)) = pr_connection_lost s"
  by (auto simp: recv_put_def run_callbacks_def split: sum.splits)

lemma live_write_frame: "live taken s \<Longrightarrow> live taken (snd (write_frame f s))"
  by (simp add: live_def proto_inv_write_frame)

lemma live_close: "live taken s \<Longrightarrow> live taken (snd (proto_close s))"
  by (simp add: live_def proto_inv_close)

lemma live_recv_put: "live taken s \<Longrightarrow> live taken (snd (recv_put (Some x) s))"
  by (simp add: live_def proto_inv_recv_put)

lemma live_connect:
  assumes "live taken s" and "\<And>m. live taken (snd (cl m s))" and "pr_transport s \<noteq> None"
  shows "live taken (snd (proto_connect cl hb s))"
proof (cases "parse_heartbeat_header hb")
  case None
  then show ?thesis using assms(2) by (simp add: proto_connect_def)
next
  case (Some ab)
  obtain a b where "ab = (a, b)" by (cases ab)
  with Some assms(1,3) show ?thesis
    by (auto simp: proto_connect_def live_def proto_inv_def Let_def)
qed

lemma live_send_queue: "live taken s \<Longrightarrow> live taken (s\<lparr>pr_send_queue := q\<rparr>)"
  by (auto simp: live_def proto_inv_def)

lemma live_parser: "live taken s \<Longrightarrow> live taken (s\<lparr>pr_parser := p\<rparr>)"
  by (auto simp: live_def proto_inv_def)

lemma live_send_task_done: "live taken s \<Longrightarrow> live taken (snd (send_task_done s))"
  by (auto simp: send_task_done_def live_send_queue split: sum.splits)

lemma live_writer: "live taken s \<Longrightarrow> live taken (s\<lparr>pr_writer := w\<rparr>)"
  by (auto simp: live_def proto_inv_def)

lemma live_end_writer: "live taken s \<Longrightarrow> live taken (end_writer s)"
  by (auto simp: live_def proto_inv_def end_writer_def)

lemma live_end_watchdog: "live taken s \<Longrightarrow> live taken (end_watchdog s)"
  by (auto simp: live_def proto_inv_def end_watchdog_def)

lemma proto_inv_watchdog:
  assumes "proto_inv taken s" and "\<And>m. live taken s \<Longrightarrow> live taken (snd (cl m s))"
  shows "proto_inv taken (snd (check_aliveness cl fmt now s))"
proof (cases "pr_watchdog s \<in> {NoWatchdog, WatchdogDone}")
  case False
  then have live: "live taken s" using assms(1) by (auto simp: live_def proto_inv_def)
  have "live taken (s\<lparr>pr_watchdog := w\<rparr>)" for w using live by (auto simp: live_def proto_inv_def)
  with live assms(2) [OF live] have "live taken (snd (check_aliveness cl fmt now s))"
    by (auto simp: check_aliveness_def case_prod_beta live_end_watchdog split: watchdog.splits)
  then show ?thesis by (simp add: live_def)
qed (use assms(1) in \<open>auto simp: check_aliveness_def\<close>)

lemma live_process_send_queue:
  assumes "live taken s"
    and "\<And>x s. live taken s \<Longrightarrow> live taken (snd (sf x s))"
    and "\<And>x s. live taken s \<Longrightarrow> live taken (snd (cg x s))"
  shows "live taken (snd (process_send_queue sf cg s))"
proof -
  have 1: "live taken (snd (thenE (sf x (s\<lparr>pr_send_queue := q\<rparr>)) send_task_done))" for x q
    by (rule thenE_inv [where P = "live taken"]) (simp_all add: assms live_send_queue live_send_task_done)
  have 2: "live taken (snd (thenE (cg x (s\<lparr>pr_send_queue := q\<rparr>)) send_task_done))" for x q
    by (rule thenE_inv [where P = "live taken"]) (simp_all add: assms live_send_queue live_send_task_done)
  show ?thesis
  proof (cases "pr_writer s")
    case WaitItem
    then show ?thesis
    proof (cases "aq_get (pr_send_queue s)")
      case (Some r)
      obtain x q where r: "r = (x, q)" by (cases r)
      show ?thesis
      proof (cases x)
        case (Payload obj)
        then show ?thesis using WaitItem Some r 1 [of obj q]
          by (auto simp: process_send_queue_def live_end_writer live_writer split: prod.splits option.splits)
      next
        case (Stop err)
        then show ?thesis using WaitItem Some r 2 [of err q]
          by (auto simp: process_send_queue_def live_end_writer Let_def split: prod.splits)
      qed
    qed (use assms(1) in \<open>simp add: process_send_queue_def\<close>)
  qed (use assms(1) in \<open>simp_all add: process_send_queue_def live_writer\<close>)
qed

lemma proto_inv_process_send_queue:
  assumes "proto_inv taken s"
    and "\<And>x s. live taken s \<Longrightarrow> live taken (snd (sf x s))"
    and "\<And>x s. live taken s \<Longrightarrow> live taken (snd (cg x s))"
  shows "proto_inv taken (snd (process_send_queue sf cg s))"
proof (cases "pr_writer s \<in> {NoWriter, WriterDone}")
  case False
  then have "live taken s" using assms(1) by (auto simp: live_def proto_inv_def)
  from live_process_send_queue [where sf = sf and cg = cg, OF this assms(2,3)] show ?thesis
    by (simp add: live_def)
qed (use assms(1) in \<open>auto simp: process_send_queue_def\<close>)

lemma proto_inv_consume:
  assumes "proto_inv taken s" and "aq_get (pr_recv_queue s) = Some (x, q)"
  shows "proto_inv (taken @ [x]) (s\<lparr>pr_recv_queue := q\<rparr>)"
  using assms(1) wq_get_fields [OF assms(2)] by (simp add: proto_inv_def)

lemma proto_inv_consumed:
  assumes "proto_inv taken s" and "task_done (pr_recv_queue s) = Inr (cbs, q)"
  shows "proto_inv taken (run_callbacks cbs (s\<lparr>pr_recv_queue := q\<rparr>))"
proof -
  have "proto_inv taken (s\<lparr>pr_recv_queue := q\<rparr>)"
    using assms(1) task_done_fields [OF assms(2)] by (simp add: proto_inv_def)
  then show ?thesis by (rule proto_inv_run_callbacks)
qed

section \<open>Printing never fails on well-formed text\<close>

definition text_ok :: "str \<Rightarrow> bool" where
  "text_ok s \<longleftrightarrow> list_all scalar s"

definition headers_ok :: "headers \<Rightarrow> bool" where
  "headers_ok h \<longleftrightarrow> list_all (\<lambda>(k, v). text_ok k \<and> text_ok v) h"

lemma text_ok_simps [simp]:
  "text_ok []" "text_ok (x # s) \<longleftrightarrow> scalar x \<and> text_ok s" "text_ok (s @ t) \<longleftrightarrow> text_ok s \<and> text_ok t"
  by (auto simp: text_ok_def)

lemma headers_ok_simps [simp]:
  "headers_ok []" "headers_ok ((k, v) # h) \<longleftrightarrow> text_ok k \<and> text_ok v \<and> headers_ok h"
  by (auto simp: headers_ok_def)

lemma scalar_ascii: "x < 0x80 \<Longrightarrow> scalar x"
  by (simp add: scalar_def surrogate_def)

lemma scalar_of_char [simp]: "scalar (of_char c)"
proof -
  have "of_char c < (256::nat)" by simp
  then show ?thesis unfolding scalar_def surrogate_def by linarith
qed

lemma text_ok_lit [simp]: "text_ok (lit s)"
  by (induction s) (simp_all add: lit_simps)

lemma text_ok_dec_of_nat [simp]: "text_ok (dec_of_nat n)"
  using dec_of_nat_digits [of n]
  by (fastforce simp: text_ok_def list_all_iff is_digit_def scalar_def surrogate_def)

lemma text_ok_dec_of_int [simp]: "text_ok (dec_of_int n)"
  by (simp add: dec_of_int_def scalar_ascii)

lemma text_ok_heartbeat_header [simp]: "text_ok (heartbeat_header a b)"
  by (simp add: heartbeat_header_def scalar_ascii)

lemma text_ok_header_lines: "headers_ok h \<Longrightarrow> text_ok (concat (map header_line h))"
proof (induction h)
  case (Cons kv h)
  obtain k v where "kv = (k, v)" by (cases kv)
  with Cons show ?case
    by (simp add: header_line_def scalar_ascii) (simp add: text_ok_def translate_scalar)
qed simp

lemma headers_ok_dict_set: "headers_ok h \<Longrightarrow> text_ok k \<Longrightarrow> text_ok v \<Longrightarrow> headers_ok (dict_set k v h)"
  by (induction h) auto

lemma frame_bytes_ok:
  assumes "headers_ok (f_headers f)" and "list_all (\<lambda>cp. cp < 0x80) (f_command f)"
  shows "\<exists>b. frame_bytes f = Inr b"
proof -
  have "text_ok (header_lines f)"
    using text_ok_header_lines [OF assms(1)]
    by (simp add: header_lines_def CONTENT_LENGTH_def scalar_ascii)
  then have "\<exists>b. utf8_encode (header_lines f) = Inr b"
    by (simp add: utf8_encode_def text_ok_def)
  moreover have "\<exists>b. ascii_encode (f_command f) = Inr b"
    using assms(2) by (simp add: ascii_encode_def)
  ultimately show ?thesis by (auto simp: frame_bytes_def)
qed

section \<open>Heartbeat negotiation\<close>

lemma dec_of_nat_no_comma: "(44::nat) \<notin> set (dec_of_nat n)"
  using dec_of_nat_digits [of n] by (auto simp: list_all_iff is_digit_def)

lemma dec_of_int_no_comma: "(44::nat) \<notin> set (dec_of_int i)"
  by (simp add: dec_of_int_def dec_of_nat_no_comma)

lemma parse_heartbeat_header_inverse:
  assumes "0 \<le> a" and "0 \<le> b"
  shows "parse_heartbeat_header (heartbeat_header a b) = Some (a, b)"
proof -
  have "py_split 44 2 (heartbeat_header a b) = [dec_of_int a, dec_of_int b]"
    unfolding heartbeat_header_def numeral_2_eq_2
    by (simp add: py_split_append [OF dec_of_int_no_comma] py_split_no_sep [OF dec_of_int_no_comma]
        del: py_split.simps)
  with assms show ?thesis by (simp add: parse_heartbeat_header_def py_int_dec_of_int)
qed

text \<open>
  Both sides agree on the heartbeats. After a side has read the header that the other one
  sends, the interval at which it sends is the interval that the other one, having read
  its header, expects, in both directions; it is zero or at least what each side asked for.
\<close>

theorem heartbeat_agreement:
  assumes "0 \<le> a" "0 \<le> b" "0 \<le> c" "0 \<le> d"
  shows "\<exists>a' b' c' d'. parse_heartbeat_header (heartbeat_header a b) = Some (a', b') \<and>
    parse_heartbeat_header (heartbeat_header c d) = Some (c', d') \<and>
    calc_heartbeat a d' = calc_heartbeat a' d \<and> calc_heartbeat c' b = calc_heartbeat c b' \<and>
    (calc_heartbeat a d' = 0 \<or> a \<le> calc_heartbeat a d' \<and> d \<le> calc_heartbeat a d') \<and>
    (calc_heartbeat a d' = 0 \<longleftrightarrow> a = 0 \<or> d = 0)"
  using assms by (simp add: parse_heartbeat_header_inverse) (auto simp: calc_heartbeat_def max_def)

theorem heartbeat_agreement_witness:
  "\<exists>a' b' c' d'. parse_heartbeat_header (heartbeat_header 5000 30000) = Some (a', b') \<and>
    parse_heartbeat_header (heartbeat_header 0 90) = Some (c', d') \<and>
    calc_heartbeat 5000 d' = calc_heartbeat a' 90 \<and> calc_heartbeat c' 30000 = calc_heartbeat 0 b'"
  using heartbeat_agreement [of 5000 30000 0 90] by auto

section \<open>Receiving a stream in chunks\<close>

text \<open>Chunk after chunk with the time of its arrival, until an exception.\<close>

fun run_chunks :: "(rat \<Rightarrow> bytes \<Rightarrow> 's \<Rightarrow> 's res option) \<Rightarrow> (rat \<times> bytes) list \<Rightarrow> 's \<Rightarrow> 's res option" where
  "run_chunks dr [] s = Some (None, s)"
| "run_chunks dr ((now, d) # cs) s =
     (case dr now d s of
        None \<Rightarrow> None
      | Some (Some e, s') \<Rightarrow> Some (Some e, s')
      | Some (None, s') \<Rightarrow> run_chunks dr cs s')"

text \<open>
  The interface between a protocol and the parser. \<open>expects s fs\<close> says that in the state
  \<open>s\<close> the protocol is ready for the frames \<open>fs\<close>; the law is that \<^verbatim>\<open>data_received\<close> handles the
  frames that a chunk completes, without an exception, and is then ready for the others.
  What follows holds for the client and for the server: a printed stream, cut anywhere,
  is handled frame by frame.
\<close>

locale frame_reader =
  fixes data_received :: "rat \<Rightarrow> bytes \<Rightarrow> 's \<Rightarrow> 's res option"
    and parser_of :: "'s \<Rightarrow> stomp_parser"
    and expects :: "'s \<Rightarrow> stomp_frame list \<Rightarrow> bool"
  assumes receive: "expects s (fs @ gs) \<Longrightarrow> add_bytes d (parser_of s) = Some (Inr (), p) \<Longrightarrow>
    p_frames p = fs \<Longrightarrow>
    \<exists>s'. data_received now d s = Some (None, s') \<and> parser_of s' = p\<lparr>p_frames := []\<rparr> \<and> expects s' gs"
begin

lemma run_chunks_tracks:
  assumes "tracks (parser_of s) (concat (map snd chunks) @ rest) cur items"
    and "settled (parser_of s) (concat (map snd chunks) @ rest) cur items"
    and "p_frames (parser_of s) = []" and "expects s (pending cur items)"
  shows "\<exists>s' cur' items'. run_chunks data_received chunks s = Some (None, s') \<and>
    tracks (parser_of s') rest cur' items' \<and> settled (parser_of s') rest cur' items' \<and>
    p_frames (parser_of s') = [] \<and> expects s' (pending cur' items')"
  using assms
proof (induction chunks arbitrary: s cur items)
  case (Cons c chunks)
  obtain now d where c: "c = (now, d)" by (cases c)
  with Cons.prems(1) have "tracks (parser_of s) (d @ concat (map snd chunks) @ rest) cur items" by simp
  from add_bytes_tracks [OF this] obtain p cur1 items1 where
    add: "add_bytes d (parser_of s) = Some (Inr (), p)"
    and t: "tracks p (concat (map snd chunks) @ rest) cur1 items1"
    and se: "settled p (concat (map snd chunks) @ rest) cur1 items1"
    and fs: "p_frames p @ pending cur1 items1 = pending cur items"
    unfolding settled_def Cons.prems(3) append_Nil by blast
  from receive [OF _ add refl, of "pending cur1 items1" now] Cons.prems(4) fs obtain s1 where
    s1: "data_received now d s = Some (None, s1)" "parser_of s1 = p\<lparr>p_frames := []\<rparr>"
      "expects s1 (pending cur1 items1)" by auto
  have "tracks (parser_of s1) (concat (map snd chunks) @ rest) cur1 items1"
    using t s1(2) by (cases cur1) (simp_all add: unread_def)
  moreover have "settled (parser_of s1) (concat (map snd chunks) @ rest) cur1 items1"
    using se s1(2) by (simp add: settled_def)
  ultimately show ?case
    using Cons.IH [of s1 cur1 items1] s1 c by simp
qed auto

lemma run_chunks_stream:
  assumes "parser_of s = reset" and "list_all wf_item items" and "list_all2 printed items bs"
    and "concat (map snd chunks) = concat bs" and "expects s (map parsed (frames_of items))"
  shows "\<exists>s'. run_chunks data_received chunks s = Some (None, s') \<and> expects s' [] \<and>
    p_data (parser_of s') = [] \<and> p_frames (parser_of s') = []"
proof -
  have "concat (map snd chunks) @ [] = stream items"
    using assms(2-4) printed_stream by (metis append_Nil2)
  note t = tracks_reset [OF assms(2) this]
  from run_chunks_tracks [of s chunks "[]" None items] obtain s' cur' items' where
    "run_chunks data_received chunks s = Some (None, s')" "settled (parser_of s') [] cur' items'"
    "p_frames (parser_of s') = []" "expects s' (pending cur' items')"
    using assms(1,5) t by (auto simp: reset_def)
  then show ?thesis by (auto simp: settled_def)
qed

end

end
