(* ===== verification/Aio_Server.thy ===== *)
theory Aio_Server
  imports Aio_Base
begin

text \<open>
  The STOMP server of \<^verbatim>\<open>swpt_stomp/aio_protocols.py\<close>: the class \<^verbatim>\<open>StompServer\<close>, with one
  definition for each method, and the transition system of one connection, whose steps
  are the callbacks of the event loop, the coroutines of the protocol and the two parties
  at the other ends of its queues.
\<close>

section \<open>The class StompServer\<close>

record server = "(str, message) proto" +
  s_recv_destination :: str
  s_last_message_id :: "str option"
  s_last_receipt_id :: "str option"
  s_disconnect_receipt_id :: "str option"

definition server_init ::
  "str send_item aqueue \<Rightarrow> (message option, flow_cb) wqueue \<Rightarrow> int \<Rightarrow> int \<Rightarrow> int \<Rightarrow> str \<Rightarrow> exc + server" where
  "server_init send_queue recv_queue hb_send_min hb_recv_desired max_network_delay recv_destination =
     map_sum id (\<lambda>p. proto.extend p
       \<lparr>s_recv_destination = recv_destination, s_last_message_id = None, s_last_receipt_id = None,
        s_disconnect_receipt_id = None\<rparr>)
     (proto_init send_queue recv_queue hb_send_min hb_recv_desired max_network_delay)"

definition error_frame ::
  "str \<Rightarrow> str option \<Rightarrow> bytes option \<Rightarrow> str option \<Rightarrow> str option \<Rightarrow> stomp_frame" where
  "error_frame message receipt_id context context_type context_content_type =
     (let h0 = [(lit ''message'', message)];
          h1 = (case receipt_id of None \<Rightarrow> h0 | Some r \<Rightarrow> dict_set (lit ''receipt-id'') r h0);
          h2 = (case (context, context_type) of
                  (Some _, Some t) \<Rightarrow> dict_set (lit ''type'') t h1 | _ \<Rightarrow> h1);
          h3 = (case (context, context_content_type) of
                  (Some _, Some t) \<Rightarrow> dict_set (lit ''content-type'') t h2 | _ \<Rightarrow> h2)
      in \<lparr>f_command = lit ''ERROR'', f_headers = h3,
          f_body = (case context of None \<Rightarrow> [] | Some c \<Rightarrow> c)\<rparr>)"

definition send_error_frame ::
  "str \<Rightarrow> str option \<Rightarrow> bytes option \<Rightarrow> str option \<Rightarrow> str option \<Rightarrow> server \<Rightarrow> server res" where
  "send_error_frame message receipt_id context context_type context_content_type s =
     (case pr_transport s of
        None \<Rightarrow> (Some AssertionError, s)
      | Some t \<Rightarrow>
          if t_closing t then (None, s)
          else write_frame (error_frame message receipt_id context context_type context_content_type) s)"

definition server_close_with_error ::
  "str \<Rightarrow> str option \<Rightarrow> bytes option \<Rightarrow> str option \<Rightarrow> str option \<Rightarrow> server \<Rightarrow> server res" where
  "server_close_with_error message receipt_id context context_type context_content_type s =
     thenE (send_error_frame message receipt_id context context_type context_content_type s) proto_close"

text \<open>\<^verbatim>\<open>self._close_with_error(message)\<close>, with the default arguments.\<close>

definition server_error_close :: "str \<Rightarrow> server \<Rightarrow> server res" where
  "server_error_close message s = server_close_with_error message None None None None s"

definition server_close_with_warning :: "str \<Rightarrow> server \<Rightarrow> server res" where
  "server_close_with_warning message s =
     thenE (send_error_frame message None None None None s) proto_close"

definition server_close_gracefully :: "server_error option \<Rightarrow> server \<Rightarrow> server res" where
  "server_close_gracefully err s =
     (case err of
        Some e \<Rightarrow> server_close_with_error (e_message e) (e_receipt_id e) (e_context e)
                    (e_context_type e) (e_context_content_type e) s
      | None \<Rightarrow> server_error_close (lit ''The connection has been closed by the server.'') s)"

definition receipt_frame :: "str \<Rightarrow> stomp_frame" where
  "receipt_frame r = \<lparr>f_command = lit ''RECEIPT'', f_headers = [(lit ''receipt-id'', r)], f_body = []\<rparr>"

definition send_receipt_command :: "str \<Rightarrow> server \<Rightarrow> server res" where
  "send_receipt_command receipt_id s = write_frame (receipt_frame receipt_id) s"

definition server_send_frame :: "str \<Rightarrow> server \<Rightarrow> server res" where
  "server_send_frame receipt_id s =
     (if pr_done s then (None, s)
      else case s_disconnect_receipt_id s of
             Some d \<Rightarrow>
               if Some receipt_id = s_last_message_id s
               then thenE (send_receipt_command d s) proto_close
               else thenE (send_receipt_command receipt_id s)
                      (\<lambda>s. (None, s\<lparr>s_last_receipt_id := Some receipt_id\<rparr>))
           | None \<Rightarrow>
               thenE (send_receipt_command receipt_id s)
                 (\<lambda>s. (None, s\<lparr>s_last_receipt_id := Some receipt_id\<rparr>)))"

definition connected_frame :: "int \<Rightarrow> int \<Rightarrow> stomp_frame" where
  "connected_frame hb_send_min hb_recv_desired =
     \<lparr>f_command = lit ''CONNECTED'',
      f_headers = [(lit ''version'', lit ''1.2''),
                   (lit ''heart-beat'', heartbeat_header hb_send_min hb_recv_desired)],
      f_body = []\<rparr>"

definition received_connect_command :: "rat \<Rightarrow> stomp_frame \<Rightarrow> server \<Rightarrow> server res" where
  "received_connect_command now f s =
     (if pr_connected s then server_error_close (lit ''Received CONNECT command more than once.'') s
      else if lit ''1.2'' \<notin> set (py_split 44 10 (dict_get (lit ''accept-version'') [] (f_headers f)))
      then server_error_close (lit ''STOMP 1.2 is not supported by the client.'') s
      else thenE
        (proto_connect server_error_close (dict_get (lit ''heart-beat'') (lit ''0,0'') (f_headers f))
           (s\<lparr>pr_started_at := now\<rparr>))
        (\<lambda>s. if pr_connected s
             then write_frame (connected_frame (pr_hb_send_min s) (pr_hb_recv_desired s)) s
             else (None, s)))"

text \<open>The three lookups of \<^verbatim>\<open>_received_send_command\<close>: the first missing header is reported.\<close>

definition send_headers :: "headers \<Rightarrow> str + str \<times> str \<times> str" where
  "send_headers h =
     (case map_of h (lit ''receipt'') of
        None \<Rightarrow> Inl (lit ''receipt'')
      | Some message_id \<Rightarrow>
          (case map_of h (lit ''type'') of
             None \<Rightarrow> Inl (lit ''type'')
           | Some message_type \<Rightarrow>
               (case map_of h (lit ''destination'') of
                  None \<Rightarrow> Inl (lit ''destination'')
                | Some destination \<Rightarrow> Inr (message_id, message_type, destination))))"

definition received_send_command :: "stomp_frame \<Rightarrow> server \<Rightarrow> server res" where
  "received_send_command f s =
     (if \<not> pr_connected s then server_error_close (lit ''Received another command before CONNECT.'') s
      else
        (let content_type = dict_get (lit ''content-type'') (lit ''application/octet-stream'') (f_headers f) in
         case send_headers (f_headers f) of
           Inl header \<Rightarrow>
             server_error_close (lit ''SEND command without a '' @ header @ lit '' header.'') s
         | Inr (message_id, message_type, destination) \<Rightarrow>
             if destination \<noteq> s_recv_destination s then
               server_close_with_error
                 (lit ''Invalid SEND destination \"'' @ destination @ lit ''\".'')
                 (Some message_id) (Some (f_body f)) (Some message_type) (Some content_type) s
             else
               thenE
                 (recv_put (Some \<lparr>m_id = message_id, m_type = message_type, m_body = f_body f,
                                  m_content_type = content_type\<rparr>) s)
                 (\<lambda>s. (None, s\<lparr>s_last_message_id := Some message_id\<rparr>))))"

definition received_disconnect_command :: "stomp_frame \<Rightarrow> server \<Rightarrow> server res" where
  "received_disconnect_command f s =
     (if \<not> pr_connected s then server_error_close (lit ''Received DISCONNECT before CONNECT.'') s
      else case map_of (f_headers f) (lit ''receipt'') of
             None \<Rightarrow> proto_close s
           | Some r \<Rightarrow>
               (let s1 = s\<lparr>s_disconnect_receipt_id := Some r\<rparr> in
                if s_last_message_id s1 = None \<or> s_last_message_id s1 = s_last_receipt_id s1
                then thenE (send_receipt_command r s1) proto_close
                else (None, s1)))"

text \<open>The body of the loop of \<^verbatim>\<open>data_received\<close>: one frame.\<close>

definition server_frame :: "rat \<Rightarrow> stomp_frame \<Rightarrow> server \<Rightarrow> server res" where
  "server_frame now f s =
     (if s_disconnect_receipt_id s \<noteq> None
      then server_error_close (lit ''Received command after DISCONNECT.'') s
      else if f_command f = lit ''STOMP'' \<or> f_command f = lit ''CONNECT''
      then received_connect_command now f s
      else if f_command f = lit ''SEND'' then received_send_command f s
      else if f_command f = lit ''DISCONNECT'' then received_disconnect_command f s
      else server_error_close (lit ''Received unexpected command \"'' @ f_command f @ lit ''\".'') s)"

text \<open>
  \<^verbatim>\<open>for frame in parser\<close>: the frames that the parser has queued, each removed from the queue
  before it is handled; the loop ends when the connection is closed.
\<close>

primrec server_frames :: "rat \<Rightarrow> stomp_frame list \<Rightarrow> server \<Rightarrow> server res" where
  "server_frames now [] s = (None, s)"
| "server_frames now (f # fs) s =
     thenE (server_frame now f (s\<lparr>pr_parser := (pr_parser s)\<lparr>p_frames := fs\<rparr>\<rparr>))
       (\<lambda>s. if pr_done s then (None, s) else server_frames now fs s)"

text \<open>\<^const>\<open>None\<close>: \<^verbatim>\<open>add_bytes\<close>, and with it the handler, does not return.\<close>

definition server_data_received :: "rat \<Rightarrow> bytes \<Rightarrow> server \<Rightarrow> server res option" where
  "server_data_received now d s =
     (let s1 = base_data_received now s in
      if pr_done s1 then Some (None, s1)
      else case add_bytes d (pr_parser s1) of
             None \<Rightarrow> None
           | Some (Inl (ProtocolError message), p) \<Rightarrow>
               Some (server_error_close message (s1\<lparr>pr_parser := p\<rparr>))
           | Some (_, p) \<Rightarrow> Some (server_frames now (p_frames p) (s1\<lparr>pr_parser := p\<rparr>)))"

section \<open>Receiving messages\<close>

definition frame_message :: "stomp_frame \<Rightarrow> message" where
  "frame_message f =
     \<lparr>m_id = dict_get (lit ''receipt'') [] (f_headers f), m_type = dict_get (lit ''type'') [] (f_headers f),
      m_body = f_body f,
      m_content_type = dict_get (lit ''content-type'') (lit ''application/octet-stream'') (f_headers f)\<rparr>"

definition send_ok :: "str \<Rightarrow> stomp_frame \<Rightarrow> bool" where
  "send_ok destination f \<longleftrightarrow> f_command f = lit ''SEND'' \<and>
     map_of (f_headers f) (lit ''receipt'') \<noteq> None \<and> map_of (f_headers f) (lit ''type'') \<noteq> None \<and>
     map_of (f_headers f) (lit ''destination'') = Some destination"

definition connect_ok :: "stomp_frame \<Rightarrow> bool" where
  "connect_ok f \<longleftrightarrow> f_command f \<in> {lit ''STOMP'', lit ''CONNECT''} \<and>
     lit ''1.2'' \<in> set (py_split 44 10 (dict_get (lit ''accept-version'') [] (f_headers f))) \<and>
     parse_heartbeat_header (dict_get (lit ''heart-beat'') (lit ''0,0'') (f_headers f)) \<noteq> None"

text \<open>
  The server is ready for the rest of a session in which the client connects (unless it
  already has) and then sends the messages \<open>msgs\<close>, of which some are already in the queue.
\<close>

definition server_expects :: "message list \<Rightarrow> server \<Rightarrow> stomp_frame list \<Rightarrow> bool" where
  "server_expects msgs s fs \<longleftrightarrow>
     pr_transport s \<noteq> None \<and> \<not> pr_done s \<and> s_disconnect_receipt_id s = None \<and>
     aq_maxsize (pr_recv_queue s) \<le> 0 \<and>
     (\<exists>got todo. aq_items (pr_recv_queue s) = map Some got \<and> got @ map frame_message todo = msgs \<and>
        list_all (send_ok (s_recv_destination s)) todo \<and>
        (if pr_connected s then fs = todo else \<exists>f. connect_ok f \<and> fs = f # todo))"

lemma server_expects_parser [simp]: "server_expects msgs (s\<lparr>pr_parser := p\<rparr>) fs = server_expects msgs s fs"
  by (simp add: server_expects_def)

lemma server_expects_tick [simp]: "server_expects msgs (base_data_received now s) fs = server_expects msgs s fs"
  by (simp add: server_expects_def base_data_received_def)

lemma connected_frame_bytes: "\<exists>b. frame_bytes (connected_frame x y) = Inr b"
  by (rule frame_bytes_ok) (simp_all add: connected_frame_def, simp add: lit_simps)

lemma server_frame_connect:
  assumes "server_expects msgs s (f # fs)" and "\<not> pr_connected s"
  shows "\<exists>s'. server_frame now f s = (None, s') \<and> pr_parser s' = pr_parser s \<and> server_expects msgs s' fs"
proof -
  from assms have ok: "connect_ok f" by (auto simp: server_expects_def)
  then obtain a b where hb: "parse_heartbeat_header (dict_get (lit ''heart-beat'') (lit ''0,0'') (f_headers f)) = Some (a, b)"
    by (auto simp: connect_ok_def)
  from assms obtain t where t: "pr_transport s = Some t" by (auto simp: server_expects_def)
  obtain bs where bs: "frame_bytes (connected_frame (pr_hb_send_min s) (pr_hb_recv_desired s)) = Inr bs"
    using connected_frame_bytes by blast
  have "server_frame now f s = received_connect_command now f s"
    using assms(1) ok by (auto simp: server_frame_def server_expects_def connect_ok_def)
  then show ?thesis
    using assms ok hb t bs
    by (auto simp: received_connect_command_def connect_ok_def proto_connect_def Let_def write_frame_def
        transport_write_def server_expects_def)
qed

lemma server_frame_send:
  assumes "server_expects msgs s (f # fs)" and "pr_connected s"
  shows "\<exists>s'. server_frame now f s = (None, s') \<and> pr_parser s' = pr_parser s \<and> server_expects msgs s' fs"
proof -
  from assms obtain got where got: "aq_items (pr_recv_queue s) = map Some got"
    "got @ frame_message f # map frame_message fs = msgs"
    and ok: "send_ok (s_recv_destination s) f" "list_all (send_ok (s_recv_destination s)) fs"
    by (auto simp: server_expects_def)
  from ok(1) obtain i ty where h: "map_of (f_headers f) (lit ''receipt'') = Some i"
    "map_of (f_headers f) (lit ''type'') = Some ty"
    "map_of (f_headers f) (lit ''destination'') = Some (s_recv_destination s)"
    and cmd: "f_command f = lit ''SEND''"
    by (auto simp: send_ok_def)
  obtain cbs q where put: "recv_put (Some (frame_message f)) s = (None, run_callbacks cbs (s\<lparr>pr_recv_queue := q\<rparr>))"
    "aq_items q = map Some (got @ [frame_message f])" "aq_maxsize q \<le> 0"
    using recv_put_unbounded [of s "Some (frame_message f)"] assms(1) got(1)
    by (auto simp: server_expects_def)
  have "server_frame now f s = received_send_command f s"
    using assms(1) cmd by (simp add: server_frame_def server_expects_def)
  also have "\<dots> = thenE (recv_put (Some (frame_message f)) s) (\<lambda>s. (None, s\<lparr>s_last_message_id := Some i\<rparr>))"
    using assms(2) h
    by (simp add: received_send_command_def send_headers_def frame_message_def dict_get_def)
  finally show ?thesis
    using assms put got(2) ok(2)
    by (auto simp: run_callbacks_def server_expects_def intro!: exI [of _ "got @ [frame_message f]"])
qed

lemma server_frames_expects:
  assumes "server_expects msgs s (fs @ gs)"
  shows "\<exists>s'. server_frames now fs s = (None, s') \<and>
    (fs \<noteq> [] \<longrightarrow> pr_parser s' = (pr_parser s)\<lparr>p_frames := []\<rparr>) \<and> (fs = [] \<longrightarrow> s' = s) \<and> server_expects msgs s' gs"
  using assms
proof (induction fs arbitrary: s)
  case (Cons f fs)
  let ?s = "s\<lparr>pr_parser := (pr_parser s)\<lparr>p_frames := fs\<rparr>\<rparr>"
  have "server_expects msgs ?s (f # fs @ gs)" using Cons.prems by simp
  then obtain s1 where s1: "server_frame now f ?s = (None, s1)" "pr_parser s1 = pr_parser ?s"
    "server_expects msgs s1 (fs @ gs)"
    using server_frame_connect [of msgs ?s f "fs @ gs"] server_frame_send [of msgs ?s f "fs @ gs"] by blast
  moreover from s1(3) have "\<not> pr_done s1" by (simp add: server_expects_def)
  ultimately show ?case
    using Cons.IH [OF s1(3)] by (cases fs) auto
qed auto

interpretation srv: frame_reader server_data_received pr_parser "server_expects msgs" for msgs
proof unfold_locales
  fix s fs gs d p now
  assume e: "server_expects msgs s (fs @ gs)" and add: "add_bytes d (pr_parser s) = Some (Inr (), p)"
    and fs: "p_frames p = fs"
  let ?s = "(base_data_received now s)\<lparr>pr_parser := p\<rparr>"
  have "server_expects msgs ?s (fs @ gs)" using e by simp
  from server_frames_expects [OF this, of now] obtain s' where s': "server_frames now fs ?s = (None, s')"
    "fs \<noteq> [] \<longrightarrow> pr_parser s' = p\<lparr>p_frames := []\<rparr>" "fs = [] \<longrightarrow> s' = ?s" "server_expects msgs s' gs"
    by auto
  moreover have "\<not> pr_done s" using e by (simp add: server_expects_def)
  ultimately show "\<exists>s'. server_data_received now d s = Some (None, s') \<and>
      pr_parser s' = p\<lparr>p_frames := []\<rparr> \<and> server_expects msgs s' gs"
    using add fs
    by (intro exI [of _ s']) (cases "fs = []"; simp add: server_data_received_def base_data_received_def Let_def)
qed

section \<open>The transition system of a connection\<close>

text \<open>
  The state of a connection with what its environment has seen: the messages that the
  consumer has taken from the receive queue, the confirmations that the writer has
  taken from the send queue, all bytes that were passed to \<^verbatim>\<open>data_received\<close>, and whether it has
  raised an exception. The event loop then closes the transport and passes no more bytes.
\<close>

record server_sys =
  y_server :: server
  y_taken :: "message option list"
  y_confirmed :: "str list"
  y_received :: bytes
  y_broken :: bool

text \<open>The confirmation that the next step of the writer takes, if any.\<close>

definition next_payload :: "server \<Rightarrow> str list" where
  "next_payload s =
     (if pr_writer s = WaitItem
      then (case aq_items (pr_send_queue s) of Payload r # _ \<Rightarrow> [r] | _ \<Rightarrow> []) else [])"

definition server_writer :: "server \<Rightarrow> server res" where
  "server_writer s = process_send_queue server_send_frame server_close_gracefully s"

text \<open>
  The steps of the protocol itself: the callbacks of the event loop and the coroutines.
\<close>

inductive server_own :: "(rat \<Rightarrow> str) \<Rightarrow> server_sys \<Rightarrow> server_sys \<Rightarrow> bool" for fmt where
  step_made: "pr_transport (y_server y) = None \<Longrightarrow> t_out t = [] \<Longrightarrow>
    server_own fmt y (y\<lparr>y_server := base_connection_made now starts t (y_server y)\<rparr>)"
| step_data: "pr_transport (y_server y) \<noteq> None \<Longrightarrow> \<not> pr_connection_lost (y_server y) \<Longrightarrow> \<not> y_broken y \<Longrightarrow>
    server_data_received now d (y_server y) = Some (e, s) \<Longrightarrow>
    server_own fmt y (y\<lparr>y_server := if e = None then s else abort s, y_received := y_received y @ d, y_broken := e \<noteq> None\<rparr>)"
| step_lost: "pr_transport (y_server y) \<noteq> None \<Longrightarrow> \<not> pr_connection_lost (y_server y) \<Longrightarrow>
    server_own fmt y (y\<lparr>y_server := snd (connection_lost (abort (y_server y)))\<rparr>)"
| step_pause: "server_own fmt y (y\<lparr>y_server := pause_writing (y_server y)\<rparr>)"
| step_resume: "server_own fmt y (y\<lparr>y_server := resume_writing (y_server y)\<rparr>)"
| step_timer: "server_own fmt y (y\<lparr>y_server := snd (fire_timer now i (y_server y))\<rparr>)"
| step_watchdog: "server_own fmt y
    (y\<lparr>y_server := snd (check_aliveness server_close_with_warning fmt now (y_server y))\<rparr>)"
| step_writer: "server_own fmt y
    (y\<lparr>y_server := snd (server_writer (y_server y)),
       y_confirmed := y_confirmed y @ next_payload (y_server y)\<rparr>)"

text \<open>
  With the steps of the message processor on the two queues: it puts items into the send queue (and
  may leave a task behind that waits to put one), it takes an item from the receive queue, it
  calls \<^verbatim>\<open>task_done\<close>, and it ends.
\<close>

inductive server_step :: "(rat \<Rightarrow> str) \<Rightarrow> server_sys \<Rightarrow> server_sys \<Rightarrow> bool" for fmt where
  step_own: "server_own fmt y y' \<Longrightarrow> server_step fmt y y'"
| step_enqueue: "aq_items q = aq_items (pr_send_queue (y_server y)) @ xs \<Longrightarrow>
    server_step fmt y (y\<lparr>y_server := (y_server y)\<lparr>pr_send_queue := q\<rparr>\<rparr>)"
| step_consume: "aq_get (pr_recv_queue (y_server y)) = Some (x, q) \<Longrightarrow>
    server_step fmt y (y\<lparr>y_server := (y_server y)\<lparr>pr_recv_queue := q\<rparr>, y_taken := y_taken y @ [x]\<rparr>)"
| step_consumed: "task_done (pr_recv_queue (y_server y)) = Inr (cbs, q) \<Longrightarrow>
    server_step fmt y (y\<lparr>y_server := run_callbacks cbs ((y_server y)\<lparr>pr_recv_queue := q\<rparr>)\<rparr>)"
| step_processed: "server_step fmt y (y\<lparr>y_server := processor_done (y_server y)\<rparr>)"

inductive_cases server_ownE: "server_own fmt y y'"
inductive_cases server_stepE: "server_step fmt y y'"

text \<open>A new server on a new receive queue.\<close>

definition server_start :: "server_sys \<Rightarrow> bool" where
  "server_start y \<longleftrightarrow>
     (\<exists>sq rq high low a b delay dest s. wq_new high low = Inr rq \<and>
        server_init sq rq a b delay dest = Inr s \<and> y = \<lparr>y_server = s, y_taken = [], y_confirmed = [], y_received = [], y_broken = False\<rparr>)"

text \<open>
  What the server may write: heartbeats, CONNECTED, ERROR, and RECEIPT frames. A receipt
  is for a confirmation that the writer has taken, or it answers DISCONNECT when the last
  message received, if any, has been confirmed.
\<close>

definition all_confirmed :: "str list \<Rightarrow> server \<Rightarrow> bool" where
  "all_confirmed conf s \<longleftrightarrow> (case s_last_message_id s of None \<Rightarrow> True | Some m \<Rightarrow> m \<in> set conf)"

definition justified :: "str list \<Rightarrow> server \<Rightarrow> bytes \<Rightarrow> bool" where
  "justified conf s b \<longleftrightarrow> b = [NL] \<or>
     (\<exists>x y. frame_bytes (connected_frame x y) = Inr b) \<or>
     (\<exists>m r c ct cct. frame_bytes (error_frame m r c ct cct) = Inr b) \<or>
     (\<exists>r. frame_bytes (receipt_frame r) = Inr b \<and>
        (r \<in> set conf \<or> s_disconnect_receipt_id s = Some r \<and> all_confirmed conf s))"

definition server_inv :: "message option list \<Rightarrow> str list \<Rightarrow> server \<Rightarrow> bool" where
  "server_inv taken conf s \<longleftrightarrow> proto_inv taken s \<and>
     list_all (justified conf s) (out_of s) \<and>
     (\<forall>r. s_last_receipt_id s = Some r \<longrightarrow> r \<in> set conf)"

definition server_live :: "message option list \<Rightarrow> str list \<Rightarrow> server \<Rightarrow> bool" where
  "server_live taken conf s \<longleftrightarrow> server_inv taken conf s \<and> \<not> pr_connection_lost s"

lemma justified_cong:
  "s_last_message_id s = s_last_message_id s' \<Longrightarrow> s_disconnect_receipt_id s = s_disconnect_receipt_id s' \<Longrightarrow>
     justified conf s = justified conf s'"
  by (rule ext) (simp add: justified_def all_confirmed_def)

lemma justified_intros:
  "frame_bytes (connected_frame x y) = Inr b \<Longrightarrow> justified conf s b"
  "frame_bytes (error_frame m r c ct cct) = Inr b \<Longrightarrow> justified conf s b"
  "frame_bytes (receipt_frame i) = Inr b \<Longrightarrow> i \<in> set conf \<Longrightarrow> justified conf s b"
  "frame_bytes (receipt_frame i) = Inr b \<Longrightarrow> s_disconnect_receipt_id s = Some i \<Longrightarrow> all_confirmed conf s \<Longrightarrow>
     justified conf s b"
  "justified conf s [NL]"
  unfolding justified_def by blast+

lemma server_inv_mono: "server_inv taken conf s \<Longrightarrow> server_inv taken (conf @ extra) s"
proof -
  assume inv: "server_inv taken conf s"
  have "justified conf s b \<Longrightarrow> justified (conf @ extra) s b" for b
    by (auto simp: justified_def all_confirmed_def split: option.splits)
  with inv show ?thesis by (auto simp: server_inv_def list_all_iff)
qed

definition same_ids :: "server \<Rightarrow> server \<Rightarrow> bool" where
  "same_ids s s' \<longleftrightarrow> s_last_message_id s' = s_last_message_id s \<and>
     s_last_receipt_id s' = s_last_receipt_id s \<and> s_disconnect_receipt_id s' = s_disconnect_receipt_id s"

lemma server_inv_same:
  "server_inv taken conf s \<Longrightarrow> proto_inv taken' s' \<Longrightarrow> same_ids s s' \<Longrightarrow> out_of s' = out_of s \<Longrightarrow>
     server_inv taken' conf s'"
  using justified_cong [of s' s conf] by (simp add: server_inv_def same_ids_def)

lemma same_ids_write_frame: "same_ids s (snd (write_frame f s))"
  by (auto simp: same_ids_def write_frame_def transport_write_def split: sum.splits option.splits)

lemma same_ids_close: "same_ids s (snd (proto_close s))"
  by (simp add: same_ids_def proto_close_def split: option.splits)

lemma same_ids_run_callbacks [simp]: "same_ids s (run_callbacks cbs s') = same_ids s s'"
  by (simp add: same_ids_def run_callbacks_def)

lemma same_ids_recv_put: "same_ids s (snd (recv_put x s))"
  by (auto simp: recv_put_def run_callbacks_def same_ids_def split: sum.splits)

lemma server_live_write_frame:
  assumes "server_live taken conf s" and "\<And>b. frame_bytes f = Inr b \<Longrightarrow> justified conf s b"
  shows "server_live taken conf (snd (write_frame f s))"
proof -
  have "proto_inv taken (snd (write_frame f s))"
    using assms(1) by (simp add: server_live_def server_inv_def proto_inv_write_frame)
  moreover have "list_all (justified conf s) (out_of (snd (write_frame f s)))"
    using out_write_frame [of f s] assms by (auto simp: server_live_def server_inv_def)
  ultimately show ?thesis
    using same_ids_write_frame [of s f] justified_cong [of "snd (write_frame f s)" s conf] assms(1)
    by (simp add: server_live_def server_inv_def same_ids_def)
qed

lemma server_live_same:
  "server_live taken conf s \<Longrightarrow> live taken s' \<Longrightarrow> same_ids s s' \<Longrightarrow> out_of s' = out_of s \<Longrightarrow>
     server_live taken conf s'"
  using server_inv_same [of taken conf s taken s'] by (simp add: server_live_def live_def)

lemma server_live_live: "server_live taken conf s \<Longrightarrow> live taken s"
  by (simp add: server_live_def live_def server_inv_def)

lemma server_live_close: "server_live taken conf s \<Longrightarrow> server_live taken conf (snd (proto_close s))"
  by (rule server_live_same)
    (auto simp: same_ids_close out_close intro: live_close server_live_live)

lemma server_live_recv_put:
  "server_live taken conf s \<Longrightarrow> server_live taken conf (snd (recv_put (Some x) s))"
  by (rule server_live_same)
    (auto simp: same_ids_recv_put out_recv_put intro: live_recv_put server_live_live)

lemma server_live_error:
  "server_live taken conf s \<Longrightarrow> server_live taken conf (snd (send_error_frame m r c ct cct s))"
  by (auto simp: send_error_frame_def split: option.splits intro!: server_live_write_frame justified_intros)

lemma server_live_close_with_error:
  "server_live taken conf s \<Longrightarrow> server_live taken conf (snd (server_close_with_error m r c ct cct s))"
  unfolding server_close_with_error_def
  by (rule thenE_inv [where P = "server_live taken conf"]) (simp_all add: server_live_error server_live_close)

lemma server_live_error_close:
  "server_live taken conf s \<Longrightarrow> server_live taken conf (snd (server_error_close m s))"
  by (simp add: server_error_close_def server_live_close_with_error)

lemma server_live_close_with_warning:
  "server_live taken conf s \<Longrightarrow> server_live taken conf (snd (server_close_with_warning m s))"
  unfolding server_close_with_warning_def
  by (rule thenE_inv [where P = "server_live taken conf"]) (simp_all add: server_live_error server_live_close)

lemma server_live_close_gracefully:
  "server_live taken conf s \<Longrightarrow> server_live taken conf (snd (server_close_gracefully err s))"
  by (simp add: server_close_gracefully_def server_live_close_with_error server_live_error_close split: option.splits)

lemma server_live_connect:
  assumes "server_live taken conf s" and "pr_transport s \<noteq> None"
  shows "server_live taken conf (snd (proto_connect server_error_close hb s))"
proof (cases "parse_heartbeat_header hb")
  case None
  then show ?thesis using assms by (simp add: proto_connect_def server_live_error_close)
next
  case (Some ab)
  obtain a b where ab: "ab = (a, b)" by (cases ab)
  have "live taken (snd (proto_connect server_error_close hb s))"
    using assms server_live_live server_live_error_close by (intro live_connect) blast+
  moreover have "same_ids s (snd (proto_connect server_error_close hb s))"
    "out_of (snd (proto_connect server_error_close hb s)) = out_of s"
    using Some ab by (simp_all add: proto_connect_def Let_def same_ids_def out_of_def)
  ultimately show ?thesis using assms(1) server_live_same by blast
qed

lemma server_live_connect_command:
  assumes "server_live taken conf s" and "pr_transport s \<noteq> None"
  shows "server_live taken conf (snd (received_connect_command now f s))"
proof -
  have live: "server_live taken conf (s\<lparr>pr_started_at := now\<rparr>)"
    by (rule server_live_same [OF assms(1)])
      (use server_live_live [OF assms(1)] in \<open>auto simp: live_def proto_inv_def same_ids_def out_of_def\<close>)
  have "server_live taken conf (snd (if pr_connected s
      then write_frame (connected_frame (pr_hb_send_min s) (pr_hb_recv_desired s)) s else (None, s)))"
    if "server_live taken conf s" for s
    using that by (auto intro!: server_live_write_frame intro: justified_intros)
  with server_live_connect [OF live] assms show ?thesis
    unfolding received_connect_command_def
    by (auto simp: server_live_error_close intro!: thenE_inv [where P = "server_live taken conf"])
qed

lemma server_live_send_command:
  assumes "server_live taken conf s" and "s_disconnect_receipt_id s = None"
  shows "server_live taken conf (snd (received_send_command f s))"
proof -
  have put: "server_live taken conf (snd (thenE (recv_put (Some m) s) (\<lambda>s. (None, s\<lparr>s_last_message_id := i\<rparr>))))"
    for m i
  proof -
    let ?s = "snd (recv_put (Some m) s)"
    have "s_disconnect_receipt_id ?s = None"
      using same_ids_recv_put [of s "Some m"] assms(2) by (simp add: same_ids_def)
    then have "justified conf (?s\<lparr>s_last_message_id := i\<rparr>) b" if "justified conf ?s b" for b
      using that by (simp add: justified_def)
    with server_live_recv_put [OF assms(1), of m] have
      "server_live taken conf ?s" "server_live taken conf (?s\<lparr>s_last_message_id := i\<rparr>)"
      by (auto simp: server_live_def server_inv_def proto_inv_def out_of_def list_all_iff)
    then show ?thesis by (cases "recv_put (Some m) s"; cases "fst (recv_put (Some m) s)") auto
  qed
  show ?thesis
    using assms(1) put unfolding received_send_command_def Let_def
    by (auto simp: server_live_error_close server_live_close_with_error split: sum.splits)
qed

lemma server_live_receipt_close:
  assumes "server_live taken conf s" and "s_disconnect_receipt_id s = Some r" and "all_confirmed conf s"
  shows "server_live taken conf (snd (thenE (send_receipt_command r s) proto_close))"
  unfolding send_receipt_command_def
  by (rule thenE_inv [where P = "server_live taken conf"])
    (use assms in \<open>auto intro!: server_live_write_frame server_live_close intro: justified_intros\<close>)

lemma server_live_disconnect_command:
  assumes "server_live taken conf s" and "s_disconnect_receipt_id s = None"
  shows "server_live taken conf (snd (received_disconnect_command f s))"
proof -
  have live: "server_live taken conf (s\<lparr>s_disconnect_receipt_id := Some r\<rparr>)" for r
  proof -
    have "justified conf (s\<lparr>s_disconnect_receipt_id := Some r\<rparr>) b" if "justified conf s b" for b
      using that assms(2) by (auto simp: justified_def)
    with assms(1) show ?thesis
      by (auto simp: server_live_def server_inv_def proto_inv_def out_of_def list_all_iff)
  qed
  moreover have "all_confirmed conf (s\<lparr>s_disconnect_receipt_id := Some r\<rparr>)"
    if "s_last_message_id s = None \<or> s_last_message_id s = s_last_receipt_id s" for r
    using that assms(1) by (auto simp: all_confirmed_def server_live_def server_inv_def split: option.splits)
  ultimately show ?thesis
    using assms(1) unfolding received_disconnect_command_def Let_def
    by (auto simp: server_live_error_close server_live_close split: option.splits
        intro!: server_live_receipt_close)
qed

lemma server_live_frame:
  assumes "server_live taken conf s" and "pr_transport s \<noteq> None"
  shows "server_live taken conf (snd (server_frame now f s))"
  using assms
  by (auto simp: server_frame_def server_live_error_close server_live_connect_command
      server_live_send_command server_live_disconnect_command)

text \<open>No handler loses the transport.\<close>

lemma thenE_transport:
  "(\<And>s. (pr_transport (snd (k s)) = None) = (pr_transport s = None)) \<Longrightarrow>
     (pr_transport (snd (thenE r k)) = None) = (pr_transport (snd r) = None)"
  by (cases r; cases "fst r") auto

lemma transport_kept:
  "(pr_transport (snd (write_frame f s)) = None) = (pr_transport s = None)"
  "(pr_transport (snd (proto_close s)) = None) = (pr_transport s = None)"
  "(pr_transport (snd (recv_put x s)) = None) = (pr_transport s = None)"
  by (auto simp: write_frame_def transport_write_def proto_close_def recv_put_def run_callbacks_def
      split: option.splits sum.splits)

lemma transport_kept_error:
  "(pr_transport (snd (server_close_with_error m r c ct cct s)) = None) = (pr_transport s = None)"
  "(pr_transport (snd (server_error_close m s)) = None) = (pr_transport s = None)"
  by (cases "pr_transport s"; simp add: server_error_close_def server_close_with_error_def
      send_error_frame_def thenE_transport transport_kept del: not_None_eq)+

lemma transport_kept_frame: "(pr_transport (snd (server_frame now f s)) = None) = (pr_transport s = None)"
proof -
  have "(pr_transport (snd (proto_connect server_error_close hb s)) = None) = (pr_transport s = None)" for hb s
    by (auto simp: proto_connect_def Let_def transport_kept_error split: option.splits)
  then show ?thesis
    by (simp add: server_frame_def received_connect_command_def received_send_command_def
        received_disconnect_command_def send_receipt_command_def Let_def thenE_transport transport_kept
        transport_kept_error split: option.splits sum.splits)
qed

lemma server_live_parser: "server_live taken conf s \<Longrightarrow> server_live taken conf (s\<lparr>pr_parser := p\<rparr>)"
  by (rule server_live_same) (auto simp: same_ids_def out_of_def intro: live_parser server_live_live)

lemma server_live_frames:
  assumes "server_live taken conf s" and "pr_transport s \<noteq> None"
  shows "server_live taken conf (snd (server_frames now fs s))"
  using assms
proof (induction fs arbitrary: s)
  case (Cons f fs)
  let ?r = "server_frame now f (s\<lparr>pr_parser := (pr_parser s)\<lparr>p_frames := fs\<rparr>\<rparr>)"
  have "server_live taken conf (snd ?r)" "pr_transport (snd ?r) \<noteq> None"
    using Cons.prems by (simp_all add: server_live_frame server_live_parser transport_kept_frame)
  with Cons.IH [of "snd ?r"] show ?case
    by (cases ?r; cases "fst ?r") auto
qed simp

lemma server_live_data_received:
  assumes "server_live taken conf s" and "pr_transport s \<noteq> None"
    and "server_data_received now d s = Some (e, s')"
  shows "server_live taken conf s'"
proof -
  let ?s = "base_data_received now s"
  have live: "server_live taken conf ?s"
    by (rule server_live_same [OF assms(1)])
      (use server_live_live [OF assms(1)] in \<open>auto simp: base_data_received_def live_def proto_inv_def same_ids_def out_of_def\<close>)
  have tr: "pr_transport (?s\<lparr>pr_parser := p\<rparr>) \<noteq> None" for p
    using assms(2) by (simp add: base_data_received_def)
  show ?thesis
  proof (cases "pr_done ?s")
    case True
    with assms(3) live show ?thesis by (simp add: server_data_received_def Let_def)
  next
    case False
    with assms(3) obtain r p where "add_bytes d (pr_parser ?s) = Some (r, p)"
      and "(e, s') = (case r of Inl (ProtocolError m) \<Rightarrow> server_error_close m (?s\<lparr>pr_parser := p\<rparr>)
             | _ \<Rightarrow> server_frames now (p_frames p) (?s\<lparr>pr_parser := p\<rparr>))"
      by (auto simp: server_data_received_def Let_def split: option.splits sum.splits parse_exc.splits)
    then have "s' = snd (case r of Inl (ProtocolError m) \<Rightarrow> server_error_close m (?s\<lparr>pr_parser := p\<rparr>)
             | _ \<Rightarrow> server_frames now (p_frames p) (?s\<lparr>pr_parser := p\<rparr>))" by (metis snd_conv)
    with server_live_parser [OF live] tr show ?thesis
      by (auto simp: server_live_error_close server_live_frames split: sum.splits parse_exc.splits)
  qed
qed

lemma server_live_send_frame:
  assumes "server_live taken conf s" and "r \<in> set conf"
  shows "server_live taken conf (snd (server_send_frame r s))"
proof -
  have upd: "server_live taken conf (s\<lparr>s_last_receipt_id := Some r\<rparr>)" if "server_live taken conf s" for s
    using that assms(2) justified_cong [of "s\<lparr>s_last_receipt_id := Some r\<rparr>" s conf]
    by (auto simp: server_live_def server_inv_def proto_inv_def out_of_def)
  have "server_live taken conf (snd (thenE (send_receipt_command r s) (\<lambda>s. (None, s\<lparr>s_last_receipt_id := Some r\<rparr>))))"
    unfolding send_receipt_command_def
    by (rule thenE_inv [where P = "server_live taken conf"])
      (use assms upd in \<open>auto intro!: server_live_write_frame intro: justified_intros\<close>)
  moreover have "all_confirmed conf s" if "Some r = s_last_message_id s"
    using assms(2) by (simp add: all_confirmed_def flip: that)
  ultimately show ?thesis
    using assms(1) unfolding server_send_frame_def
    by (auto split: option.splits intro!: server_live_receipt_close)
qed

lemma server_live_fields:
  assumes "server_live taken conf s"
  shows "server_live taken conf (s\<lparr>pr_send_queue := q\<rparr>)" "server_live taken conf (s\<lparr>pr_writer := w\<rparr>)"
    "server_live taken conf (end_writer s)" "server_live taken conf (end_watchdog s)"
  using server_live_live [OF assms]
  by (rule server_live_same [OF assms live_send_queue] server_live_same [OF assms live_writer]
      server_live_same [OF assms live_end_writer] server_live_same [OF assms live_end_watchdog];
    simp add: same_ids_def out_of_def end_writer_def end_watchdog_def)+

lemma server_live_task_done: "server_live taken conf s \<Longrightarrow> server_live taken conf (snd (send_task_done s))"
  by (simp add: send_task_done_def server_live_fields split: sum.splits)

lemma server_live_writer:
  assumes "server_live taken conf s"
  shows "server_live taken (conf @ next_payload s) (snd (server_writer s))"
proof -
  let ?conf = "conf @ next_payload s"
  have live: "server_live taken ?conf s"
    using assms server_inv_mono by (simp add: server_live_def)
  have fin: "server_live taken ?conf (end_writer s)" "server_live taken ?conf (s\<lparr>pr_writer := w\<rparr>)"
    "server_live taken ?conf (s\<lparr>pr_send_queue := q\<rparr>)"
    if "server_live taken ?conf s" for s w q
    using that by (simp_all add: server_live_fields)
  show ?thesis
  proof (cases "pr_writer s = WaitItem \<and> aq_get (pr_send_queue s) \<noteq> None")
    case False
    with live fin show ?thesis
      by (cases "aq_get (pr_send_queue s)")
        (simp_all add: server_writer_def process_send_queue_def split: writer.splits)
  next
    case True
    then obtain x q where get: "aq_get (pr_send_queue s) = Some (x, q)" by auto
    show ?thesis
    proof (cases x)
      case (Payload r)
      then have "r \<in> set ?conf"
        using get True by (auto simp: next_payload_def aq_get_def split: list.splits)
      with live fin have "server_live taken ?conf (snd (thenE (server_send_frame r (s\<lparr>pr_send_queue := q\<rparr>)) send_task_done))"
        by (intro thenE_inv [where P = "server_live taken ?conf"]) (auto intro: server_live_send_frame server_live_task_done)
      with True get Payload fin show ?thesis
        by (auto simp: server_writer_def process_send_queue_def split: prod.splits option.splits)
    next
      case (Stop err)
      from live fin have "server_live taken ?conf (snd (thenE (server_close_gracefully err (s\<lparr>pr_send_queue := q\<rparr>)) send_task_done))"
        by (intro thenE_inv [where P = "server_live taken ?conf"]) (auto intro: server_live_close_gracefully server_live_task_done)
      with True get Stop fin show ?thesis
        by (auto simp: server_writer_def process_send_queue_def case_prod_beta)
    qed
  qed
qed

lemma server_inv_start: "server_start y \<Longrightarrow> server_inv (y_taken y) (y_confirmed y) (y_server y)"
  by (auto simp: server_start_def server_init_def proto_init_def wq_new_def server_inv_def proto_inv_def
      out_of_def proto.defs Let_def split: if_splits)

lemma server_inv_writer:
  assumes "server_inv taken conf s"
  shows "server_inv taken (conf @ next_payload s) (snd (server_writer s))"
proof (cases "pr_writer s \<in> {NoWriter, WriterDone}")
  case True
  with server_inv_mono [OF assms] show ?thesis
    by (auto simp: server_writer_def process_send_queue_def)
next
  case False
  with assms have "server_live taken conf s" by (auto simp: server_live_def server_inv_def proto_inv_def)
  from server_live_writer [OF this] show ?thesis by (simp add: server_live_def)
qed

lemma live_close_with_warning: "live taken s \<Longrightarrow> live taken (snd (server_close_with_warning m s))"
  unfolding server_close_with_warning_def
  by (rule thenE_inv [where P = "live taken"])
    (simp_all add: send_error_frame_def live_write_frame live_close split: option.splits)

lemma server_inv_watchdog:
  assumes "server_inv taken conf s"
  shows "server_inv taken conf (snd (check_aliveness server_close_with_warning fmt now s))"
proof -
  let ?s' = "snd (check_aliveness server_close_with_warning fmt now s)"
  show ?thesis
  proof (cases "pr_watchdog s = Sleeping \<and> watchdog_seconds s < now - pr_data_received_at s")
    case True
    with assms have "server_live taken conf s" by (auto simp: server_live_def server_inv_def proto_inv_def)
    with True have "server_live taken conf ?s'"
      by (auto simp: check_aliveness_def case_prod_beta intro: server_live_fields server_live_close_with_warning)
    then show ?thesis by (simp add: server_live_def)
  next
    case False
    then have "out_of ?s' = out_of s"
      by (simp add: check_aliveness_def split: watchdog.splits)
    moreover from False have "same_ids s ?s'"
      by (simp add: check_aliveness_def same_ids_def end_watchdog_def split: watchdog.splits)
    moreover have "proto_inv taken ?s'"
      using assms by (intro proto_inv_watchdog) (simp_all add: server_inv_def live_close_with_warning)
    ultimately show ?thesis using assms server_inv_same by blast
  qed
qed

lemma server_inv_timer:
  assumes "server_inv taken conf s"
  shows "server_inv taken conf (snd (fire_timer now i s))"
proof -
  let ?s' = "snd (fire_timer now i s)"
  have inv: "proto_inv taken ?s'" using assms by (simp add: server_inv_def proto_inv_timer)
  have ids: "same_ids s ?s'"
    by (simp add: fire_timer_def Let_def detect_connected_timeout_def proto_close_def send_heartbeat_def
        transport_write_def same_ids_def split: timer.splits option.splits)
  have "list_all (justified conf s) (out_of ?s')"
    using out_timer [of now i s] assms by (auto simp: server_inv_def intro: justified_intros)
  with inv ids assms show ?thesis
    using justified_cong [of ?s' s conf] by (simp add: server_inv_def same_ids_def)
qed

lemma server_inv_fields:
  assumes "server_inv taken conf s"
  shows "server_inv taken conf (s\<lparr>pr_start_sending := b\<rparr>)" "server_inv taken conf (s\<lparr>pr_send_queue := q\<rparr>)"
    "server_inv taken conf (abort s)"
proof -
  have inv: "proto_inv taken s" using assms by (simp add: server_inv_def)
  show "server_inv taken conf (abort s)"
    by (rule server_inv_same [OF assms proto_inv_abort [OF inv]])
      (simp_all add: same_ids_def, simp_all add: abort_def)
qed (rule server_inv_same [OF assms]; use assms in \<open>simp add: server_inv_def same_ids_def\<close>)+

lemma server_inv_made:
  assumes "server_inv taken conf s" and "pr_transport s = None" and "t_out t = []"
  shows "server_inv taken conf (base_connection_made now starts t s)"
  by (rule server_inv_same [OF assms(1) proto_inv_connection_made])
    (use assms in \<open>auto simp: server_inv_def base_connection_made_def Let_def same_ids_def out_of_def
      run_callbacks_def add_high_watermark_callback_def add_low_watermark_callback_def\<close>)

lemma server_inv_lost:
  assumes "server_inv taken conf s" and "pr_transport s \<noteq> None" and "\<not> pr_connection_lost s"
  shows "server_inv taken conf (snd (connection_lost (abort s)))"
proof (rule server_inv_same [OF assms(1)])
  show "proto_inv taken (snd (connection_lost (abort s)))"
    using assms by (simp add: server_inv_def proto_inv_connection_lost)
  show "out_of (snd (connection_lost (abort s))) = out_of s" by simp
  show "same_ids s (snd (connection_lost (abort s)))"
    by (simp add: connection_lost_def Let_def abort_def cancel_writer_def cancel_watchdog_def same_ids_def
        recv_put_def run_callbacks_def split: sum.splits)
qed

lemma server_inv_own:
  assumes "server_inv (y_taken y) (y_confirmed y) (y_server y)" and "server_own fmt y y'"
  shows "server_inv (y_taken y') (y_confirmed y') (y_server y')"
  using assms(2)
proof cases
  case (step_data now d e s)
  have "server_live (y_taken y) (y_confirmed y) (y_server y)"
    using assms(1) step_data(3) by (simp add: server_live_def)
  from server_live_data_received [OF this step_data(2,5)]
  have "server_live (y_taken y) (y_confirmed y) s" .
  with step_data(1) show ?thesis by (simp add: server_live_def server_inv_fields)
qed (use assms(1) in \<open>simp_all add: server_inv_fields server_inv_made server_inv_lost server_inv_timer
  server_inv_watchdog server_inv_writer pause_writing_def resume_writing_def\<close>)

lemma server_inv_step:
  assumes "server_inv (y_taken y) (y_confirmed y) (y_server y)" and "server_step fmt y y'"
  shows "server_inv (y_taken y') (y_confirmed y') (y_server y')"
  using assms(2)
proof cases
  case step_own
  then show ?thesis by (rule server_inv_own [OF assms(1)])
next
  case (step_consume x q)
  have "proto_inv (y_taken y @ [x]) ((y_server y)\<lparr>pr_recv_queue := q\<rparr>)"
    using assms(1) step_consume(2) by (intro proto_inv_consume) (simp_all add: server_inv_def)
  from server_inv_same [OF assms(1) this] step_consume(1) show ?thesis
    by (simp add: same_ids_def)
next
  case (step_consumed cbs q)
  have "proto_inv (y_taken y) (run_callbacks cbs ((y_server y)\<lparr>pr_recv_queue := q\<rparr>))"
    using assms(1) step_consumed(2) by (intro proto_inv_consumed) (simp_all add: server_inv_def)
  from server_inv_same [OF assms(1) this] step_consumed(1) show ?thesis
    by (simp add: same_ids_def [of "y_server y" "(y_server y)\<lparr>pr_recv_queue := q\<rparr>"])
next
  case step_processed
  have "proto_inv (y_taken y) (processor_done (y_server y))"
    using assms(1) by (simp add: server_inv_def proto_inv_def processor_done_def)
  from server_inv_same [OF assms(1) this] step_processed show ?thesis
    by (simp add: same_ids_def) (simp add: processor_done_def)
qed (use assms(1) in \<open>simp add: server_inv_fields\<close>)

interpretation srv_run: inductive_invariant server_start "server_step fmt"
  "\<lambda>y. server_inv (y_taken y) (y_confirmed y) (y_server y)" for fmt
  by unfold_locales (auto intro: server_inv_start server_inv_step)

section \<open>Silence after closing\<close>

lemma out_error_closing:
  "proto_inv taken s \<Longrightarrow> pr_done s \<Longrightarrow> out_of (snd (send_error_frame m r c ct cct s)) = out_of s"
  by (auto simp: proto_inv_def send_error_frame_def)

lemma done_thenE_close: "pr_done (snd r) \<Longrightarrow> out_of (snd (thenE r proto_close)) = out_of (snd r)"
  by (cases r; cases "fst r") simp_all

lemma done_error: "pr_done (snd (send_error_frame m r c ct cct s)) = pr_done s"
  by (simp add: send_error_frame_def write_frame_def transport_write_def split: option.splits sum.splits)

lemma out_done_close:
  assumes "proto_inv taken s" and "pr_done s"
  shows "out_of (snd (server_close_with_error m r c ct cct s)) = out_of s"
    "out_of (snd (server_close_with_warning m s)) = out_of s"
    "out_of (snd (server_close_gracefully err s)) = out_of s"
proof -
  show 1: "out_of (snd (server_close_with_error m r c ct cct s)) = out_of s" for m r c ct cct
    using assms by (simp add: server_close_with_error_def done_thenE_close done_error out_error_closing)
  show "out_of (snd (server_close_with_warning m s)) = out_of s"
    using assms by (simp add: server_close_with_warning_def done_thenE_close done_error out_error_closing)
  show "out_of (snd (server_close_gracefully err s)) = out_of s"
    by (simp add: server_close_gracefully_def server_error_close_def 1 split: option.splits)
qed

lemma out_thenE_task_done: "out_of (snd (thenE r send_task_done)) = out_of (snd r)"
  by (cases r; cases "fst r") (simp_all add: send_task_done_def split: sum.splits)

lemma out_done_writer:
  assumes "proto_inv taken s" and "pr_done s"
  shows "out_of (snd (server_writer s)) = out_of s"
proof -
  have cg: "out_of (snd (server_close_gracefully err (s\<lparr>pr_send_queue := q\<rparr>))) = out_of s" for err q
    using out_done_close(3) [of taken "s\<lparr>pr_send_queue := q\<rparr>" err] assms by simp
  have sf: "snd (server_send_frame r (s\<lparr>pr_send_queue := q\<rparr>)) = s\<lparr>pr_send_queue := q\<rparr>" for r q
    using assms(2) by (simp add: server_send_frame_def)
  show ?thesis
    unfolding server_writer_def process_send_queue_def
    by (simp add: out_thenE_task_done cg sf case_prod_beta split: writer.splits option.splits send_item.splits)
qed

lemma server_own_silent:
  assumes "server_inv (y_taken y) (y_confirmed y) (y_server y)" and "server_own fmt y y'"
    and "pr_done (y_server y)"
  shows "out_of (y_server y') = out_of (y_server y)"
proof -
  have inv: "proto_inv (y_taken y) (y_server y)" using assms(1) by (simp add: server_inv_def)
  show ?thesis
    using assms(2)
  proof cases
    case (step_made t now starts)
    with inv assms(3) show ?thesis by (simp add: proto_inv_def)
  next
    case (step_data now d e s)
    with assms(3) show ?thesis
      by (auto simp: server_data_received_def base_data_received_def)
  next
    case (step_timer now i)
    with out_timer [of now i "y_server y"] assms(3) show ?thesis by auto
  next
    case (step_watchdog now)
    with out_done_close(2) [OF inv assms(3)] show ?thesis
      by (simp add: check_aliveness_def case_prod_beta split: watchdog.splits)
  qed (use out_done_writer [OF inv assms(3)] in \<open>simp_all add: pause_writing_def resume_writing_def\<close>)
qed

lemma server_step_silent:
  assumes "server_inv (y_taken y) (y_confirmed y) (y_server y)" and "server_step fmt y y'"
    and "pr_done (y_server y)"
  shows "out_of (y_server y') = out_of (y_server y)"
  using assms(2) by cases (auto intro: server_own_silent assms)

section \<open>The properties\<close>

text \<open>
  C18: The receive queue of the server carries messages followed by one end mark. In every
  state that a connection can reach, whatever the peer sends and however the event loop
  orders the callbacks and the coroutines, what the consumer has taken and what is still in
  the queue are messages, and a single \<^verbatim>\<open>None\<close> comes after them exactly if the connection
  has been lost.
\<close>

theorem server_queue_protocol:
  assumes "reaches server_start (server_step fmt) y"
  shows "\<exists>ms. y_taken y @ aq_items (pr_recv_queue (y_server y)) =
    map Some ms @ (if pr_connection_lost (y_server y) then [None] else [])"
  using srv_run.reaches_inv [OF assms] by (auto simp: server_inv_def proto_inv_def)

text \<open>
  C34: Nothing is written by the server after it has closed the connection: no step of a
  connection whose \<^verbatim>\<open>_done\<close> flag is set adds to what has been written.
\<close>

theorem server_silent_after_close:
  assumes "reaches server_start (server_step fmt) y" and "server_step fmt y y'" and "pr_done (y_server y)"
  shows "out_of (y_server y') = out_of (y_server y)"
  using server_step_silent [OF srv_run.reaches_inv [OF assms(1)] assms(2,3)] .

text \<open>
  C7: The server confirms nothing on its own. Everything it writes is a heartbeat, a
  CONNECTED or an ERROR frame, a RECEIPT for an identifier that the publisher has put into
  the send queue, or the RECEIPT of a DISCONNECT, sent only when the publisher has
  confirmed the last message received.
\<close>

theorem server_receipts_justified:
  assumes "reaches server_start (server_step fmt) y"
  shows "list_all (justified (y_confirmed y) (y_server y)) (out_of (y_server y))"
  using srv_run.reaches_inv [OF assms] by (simp add: server_inv_def)

text \<open>A run of two steps for the witnesses: the connection is made, then lost.\<close>

definition example_queue :: "(message option, flow_cb) wqueue" where
  "example_queue = \<lparr>aq_items = [], aq_maxsize = 0, aq_unfinished = 0, aq_put_task = NoPutTask,
     wq_paused = False, wq_lw_callbacks = [], wq_hw_callbacks = [], wq_low_watermark = 0, wq_high_watermark = 1\<rparr>"

definition example_transport :: transport where
  "example_transport = \<lparr>t_out = [], t_closing = False, t_reading = True\<rparr>"

definition example_server :: server where
  "example_server = (case server_init (aq_new 1) example_queue 5000 30000 10000 DEFAULT_STOMP_DESTINATION of
     Inr s \<Rightarrow> base_connection_made 0 False example_transport s)"

definition example_sys :: server_sys where
  "example_sys = \<lparr>y_server = example_server, y_taken = [], y_confirmed = [], y_received = [], y_broken = False\<rparr>"

definition example_lost :: server_sys where
  "example_lost = example_sys\<lparr>y_server := snd (connection_lost (abort example_server))\<rparr>"

lemmas example_defs = example_lost_def example_sys_def example_server_def example_transport_def example_queue_def
  server_init_def proto_init_def proto.defs base_connection_made_def Let_def run_callbacks_def
  add_high_watermark_callback_def add_low_watermark_callback_def

lemma example_sys_reached: "reaches server_start (server_step fmt) example_sys"
proof -
  obtain s where s: "server_init (aq_new 1) example_queue 5000 30000 10000 DEFAULT_STOMP_DESTINATION = Inr s"
    and tr: "pr_transport s = None"
    by (auto simp: server_init_def proto_init_def proto.defs)
  let ?y = "\<lparr>y_server = s, y_taken = [], y_confirmed = [], y_received = [], y_broken = False\<rparr>"
  have "wq_new 1 None = Inr example_queue" by (simp add: wq_new_def example_queue_def)
  with s have "server_start ?y" unfolding server_start_def by blast
  moreover have "server_step fmt ?y (?y\<lparr>y_server := base_connection_made 0 False example_transport s\<rparr>)"
    using step_own [OF step_made [of ?y example_transport fmt 0 False]] by (simp add: tr example_transport_def)
  ultimately show ?thesis
    by (auto simp: example_sys_def example_server_def s intro: reaches_init reaches_step)
qed

lemma example_server_open: "pr_transport example_server \<noteq> None" "\<not> pr_connection_lost example_server"
  by (simp_all add: example_defs)

lemma example_lost_reached: "reaches server_start (server_step fmt) example_lost"
proof -
  have "server_step fmt example_sys (example_sys\<lparr>y_server := snd (connection_lost (abort (y_server example_sys)))\<rparr>)"
    using example_server_open by (intro step_own [OF step_lost]) (simp_all add: example_sys_def)
  then show ?thesis
    using reaches_step [OF example_sys_reached] by (simp add: example_lost_def) (simp add: example_sys_def)
qed

theorem server_queue_protocol_witness:
  "\<exists>ms. y_taken example_lost @ aq_items (pr_recv_queue (y_server example_lost)) =
    map Some ms @ (if pr_connection_lost (y_server example_lost) then [None] else [])"
  by (rule server_queue_protocol [OF example_lost_reached])

lemma example_lost_done: "pr_done (y_server example_lost)"
  by (simp add: example_defs connection_lost_def abort_def cancel_writer_def cancel_watchdog_def
      recv_put_def split: sum.splits)

theorem server_silent_after_close_witness:
  "out_of (pause_writing (y_server example_lost)) = out_of (y_server example_lost)"
  using server_silent_after_close [OF example_lost_reached step_own [OF step_pause] example_lost_done] by simp

theorem server_receipts_justified_witness:
  "list_all (justified (y_confirmed example_sys) (y_server example_sys)) (out_of (y_server example_sys))"
  by (rule server_receipts_justified [OF example_sys_reached])

section \<open>Delivery of a session\<close>

lemma map_of_wire_headers: "k \<noteq> CONTENT_LENGTH \<Longrightarrow> map_of (wire_headers f) k = map_of (f_headers f) k"
  by (auto simp: wire_headers_def map_add_def split: option.splits)

lemma dict_get_parsed: "k \<noteq> CONTENT_LENGTH \<Longrightarrow> dict_get k d (f_headers (parsed f)) = dict_get k d (f_headers f)"
  by (simp add: dict_get_def parsed_def map_of_wire_headers)

lemma parsed_frames [simp]:
  "frame_message (parsed f) = frame_message f" "send_ok dest (parsed f) = send_ok dest f"
  "connect_ok (parsed f) = connect_ok f"
  by (simp_all add: frame_message_def send_ok_def connect_ok_def dict_get_parsed CONTENT_LENGTH_def)
    (simp_all add: parsed_def map_of_wire_headers CONTENT_LENGTH_def)

lemma server_expects_start:
  assumes "server_init sq rq a b delay dest = Inr s" and "aq_items rq = []" and "aq_maxsize rq \<le> 0"
    and "connect_ok c" and "list_all (send_ok dest) fs"
  shows "server_expects (map frame_message fs) (base_connection_made now starts t s) (c # fs)"
    and "pr_parser (base_connection_made now starts t s) = reset"
  using assms
  by (auto simp: server_expects_def server_init_def proto_init_def proto.defs base_connection_made_def Let_def
      run_callbacks_def add_high_watermark_callback_def add_low_watermark_callback_def split: if_splits)

text \<open>
  A session is delivered completely and in order. A client connects and sends messages
  to the destination of the server; the bytes of its frames, with heartbeats in between,
  arrive in chunks of any size at any times. Then every call of \<^verbatim>\<open>data_received\<close> returns
  without an exception, the connection stays open, and the receive queue holds exactly
  the messages that were sent.
\<close>

theorem server_delivers_session:
  assumes "server_init sq rq a b delay dest = Inr s" and "aq_items rq = []" and "aq_maxsize rq \<le> 0"
    and "frames_of items = c # fs" and "connect_ok c" and "list_all (send_ok dest) fs"
    and "list_all wf_item items" and "list_all2 printed items bs" and "concat (map snd chunks) = concat bs"
  shows "\<exists>s'. run_chunks server_data_received chunks (base_connection_made now starts t s) = Some (None, s') \<and>
    aq_items (pr_recv_queue s') = map (\<lambda>f. Some (frame_message f)) fs \<and> pr_connected s' \<and> \<not> pr_done s'"
proof -
  let ?s = "base_connection_made now starts t s" and ?msgs = "map frame_message fs"
  have fs: "list_all (send_ok dest) (map parsed fs)" "map frame_message (map parsed fs) = ?msgs"
    using assms(6) by (simp_all add: list_all_iff)
  have "server_expects ?msgs ?s (map parsed (frames_of items))"
    using server_expects_start(1) [OF assms(1-3), of "parsed c" "map parsed fs" now starts t] assms(4,5) fs
    by (simp add: comp_def)
  from srv.run_chunks_stream [OF server_expects_start(2) [OF assms(1-3,5,6)] assms(7-9) this]
  obtain s' where run: "run_chunks server_data_received chunks ?s = Some (None, s')"
    and e: "server_expects ?msgs s' []" by blast
  from e have "aq_items (pr_recv_queue s') = map Some ?msgs" "pr_connected s'" "\<not> pr_done s'"
    by (auto simp: server_expects_def split: if_splits)
  with run show ?thesis by simp
qed

definition example_connect :: stomp_frame where
  "example_connect = \<lparr>f_command = lit ''CONNECT'', f_headers = [(lit ''accept-version'', lit ''1.2'')], f_body = []\<rparr>"

definition example_send :: stomp_frame where
  "example_send = \<lparr>f_command = lit ''SEND'',
     f_headers = [(lit ''destination'', lit ''/exchange/smp''), (lit ''type'', lit ''T''), (lit ''receipt'', lit ''1'')],
     f_body = []\<rparr>"

lemmas example_wf = wf_frame_def wf_header_def wire_eval scalar_def surrogate_def content_length_def int_eval
  HEADER_MAX_LENGTH_def BODY_MAX_LENGTH_def lit_simps

lemma example_frames_wf: "wf_frame example_connect" "wf_frame example_send"
  by (simp_all add: example_connect_def example_send_def example_wf)

lemma example_frames_ok: "connect_ok example_connect" "send_ok (lit ''/exchange/smp'') example_send"
  by (simp_all add: connect_ok_def send_ok_def example_connect_def example_send_def dict_get_def
      parse_heartbeat_header_def int_eval lit_simps eval_nat_numeral)

theorem server_delivers_session_witness:
  "\<exists>s'. run_chunks server_data_received
      [(1, wire example_connect @ [NL]), (2, take 20 (wire example_send)), (3, drop 20 (wire example_send))]
      example_server = Some (None, s') \<and>
    aq_items (pr_recv_queue s') = [Some (frame_message example_send)] \<and> pr_connected s' \<and> \<not> pr_done s'"
proof -
  obtain s where s: "server_init (aq_new 1) example_queue 5000 30000 10000 DEFAULT_STOMP_DESTINATION = Inr s"
    by (auto simp: server_init_def proto_init_def)
  from server_delivers_session [OF s, of "[Frame example_connect, Beat, Frame example_send]" example_connect
      "[example_send]" "[wire example_connect, [NL], wire example_send]"
      "[(1, wire example_connect @ [NL]), (2, take 20 (wire example_send)), (3, drop 20 (wire example_send))]"
      0 False example_transport]
  show ?thesis
    using example_frames_ok example_frames_wf s
    by (simp add: frame_bytes_wire example_server_def example_queue_def DEFAULT_STOMP_DESTINATION_def)
qed

end
