(* ===== verification/Aio_Client.thy ===== *)
theory Aio_Client
  imports Aio_Base
begin

text \<open>
  The STOMP client of \<^verbatim>\<open>swpt_stomp/aio_protocols.py\<close>: the class \<^verbatim>\<open>StompClient\<close>, with one
  definition for each method, and the transition system of one connection.
\<close>

section \<open>The class StompClient\<close>

record client = "(message, str) proto" +
  c_host :: str
  c_login :: "str option"
  c_passcode :: "str option"
  c_send_destination :: str
  c_last_message_id :: "str option"
  c_last_receipt_id :: "str option"
  c_sent_disconnect :: bool

definition client_init ::
  "message send_item aqueue \<Rightarrow> (str option, flow_cb) wqueue \<Rightarrow> int \<Rightarrow> int \<Rightarrow> int \<Rightarrow>
   str \<Rightarrow> str option \<Rightarrow> str option \<Rightarrow> str \<Rightarrow> exc + client" where
  "client_init send_queue recv_queue hb_send_min hb_recv_desired max_network_delay
     host login passcode send_destination =
     map_sum id (\<lambda>p. proto.extend p
       \<lparr>c_host = host, c_login = login, c_passcode = passcode, c_send_destination = send_destination,
        c_last_message_id = None, c_last_receipt_id = None, c_sent_disconnect = False\<rparr>)
     (proto_init send_queue recv_queue hb_send_min hb_recv_desired max_network_delay)"

definition connect_frame :: "client \<Rightarrow> stomp_frame" where
  "connect_frame c =
     (let h0 = [(lit ''accept-version'', lit ''1.2''), (lit ''host'', c_host c),
                (lit ''heart-beat'', heartbeat_header (pr_hb_send_min c) (pr_hb_recv_desired c))];
          h1 = (case c_login c of None \<Rightarrow> h0 | Some l \<Rightarrow> dict_set (lit ''login'') l h0);
          h2 = (case c_passcode c of None \<Rightarrow> h1 | Some p \<Rightarrow> dict_set (lit ''passcode'') p h1)
      in \<lparr>f_command = lit ''STOMP'', f_headers = h2, f_body = []\<rparr>)"

definition client_connection_made :: "rat \<Rightarrow> bool \<Rightarrow> transport \<Rightarrow> client \<Rightarrow> client res" where
  "client_connection_made now starts_processor t c =
     (let c1 = base_connection_made now starts_processor t c in write_frame (connect_frame c1) c1)"

definition client_close_with_error :: "str \<Rightarrow> client \<Rightarrow> client res" where
  "client_close_with_error message c = proto_close c"

definition client_close_with_warning :: "str \<Rightarrow> client \<Rightarrow> client res" where
  "client_close_with_warning message c = proto_close c"

definition received_connected_command :: "stomp_frame \<Rightarrow> client \<Rightarrow> client res" where
  "received_connected_command f c =
     (if pr_connected c
      then client_close_with_error (lit ''Received CONNECTED command more than once.'') c
      else if map_of (f_headers f) (lit ''version'') \<noteq> Some (lit ''1.2'')
      then client_close_with_error (lit ''Received wrong protocol version.'') c
      else proto_connect client_close_with_error (dict_get (lit ''heart-beat'') (lit ''0,0'') (f_headers f)) c)"

definition received_receipt_command :: "stomp_frame \<Rightarrow> client \<Rightarrow> client res" where
  "received_receipt_command f c =
     (if \<not> pr_connected c
      then client_close_with_error (lit ''Received another command before CONNECTED.'') c
      else case map_of (f_headers f) (lit ''receipt-id'') of
             None \<Rightarrow> client_close_with_error (lit ''RECEIPT command without a receipt ID.'') c
           | Some receipt_id \<Rightarrow>
               thenE (recv_put (Some receipt_id) c)
                 (\<lambda>c. let c1 = c\<lparr>c_last_receipt_id := Some receipt_id\<rparr> in
                      if c_sent_disconnect c1 \<and> Some receipt_id = c_last_message_id c1
                      then proto_close c1 else (None, c1)))"

definition received_error_command :: "stomp_frame \<Rightarrow> client \<Rightarrow> client res" where
  "received_error_command f c =
     client_close_with_error
       (lit ''Received server error \"'' @ dict_get (lit ''message'') [] (f_headers f) @ lit ''\".'') c"

definition client_frame :: "stomp_frame \<Rightarrow> client \<Rightarrow> client res" where
  "client_frame f c =
     (if f_command f = lit ''CONNECTED'' then received_connected_command f c
      else if f_command f = lit ''RECEIPT'' then received_receipt_command f c
      else if f_command f = lit ''ERROR'' then received_error_command f c
      else client_close_with_error (lit ''Received unexpected command \"'' @ f_command f @ lit ''\".'') c)"

primrec client_frames :: "stomp_frame list \<Rightarrow> client \<Rightarrow> client res" where
  "client_frames [] c = (None, c)"
| "client_frames (f # fs) c =
     thenE (client_frame f (c\<lparr>pr_parser := (pr_parser c)\<lparr>p_frames := fs\<rparr>\<rparr>))
       (\<lambda>c. if pr_done c then (None, c) else client_frames fs c)"

definition client_data_received :: "rat \<Rightarrow> bytes \<Rightarrow> client \<Rightarrow> client res option" where
  "client_data_received now d c =
     (let c1 = base_data_received now c in
      if pr_done c1 then Some (None, c1)
      else case add_bytes d (pr_parser c1) of
             None \<Rightarrow> None
           | Some (Inl (ProtocolError message), p) \<Rightarrow>
               Some (client_close_with_error message (c1\<lparr>pr_parser := p\<rparr>))
           | Some (_, p) \<Rightarrow> Some (client_frames (p_frames p) (c1\<lparr>pr_parser := p\<rparr>)))"

definition send_frame_of :: "str \<Rightarrow> message \<Rightarrow> stomp_frame" where
  "send_frame_of destination m =
     \<lparr>f_command = lit ''SEND'',
      f_headers = [(lit ''destination'', destination), (lit ''type'', m_type m),
                   (lit ''content-type'', m_content_type m), (lit ''persistent'', lit ''true''),
                   (lit ''receipt'', m_id m)],
      f_body = m_body m\<rparr>"

definition client_send_frame :: "message \<Rightarrow> client \<Rightarrow> client res" where
  "client_send_frame m c =
     (if pr_done c then (None, c)
      else thenE (write_frame (send_frame_of (c_send_destination c) m) c)
             (\<lambda>c. (None, c\<lparr>c_last_message_id := Some (m_id m)\<rparr>)))"

definition disconnect_frame :: "str \<Rightarrow> stomp_frame" where
  "disconnect_frame r = \<lparr>f_command = lit ''DISCONNECT'', f_headers = [(lit ''receipt'', r)], f_body = []\<rparr>"

definition client_close_gracefully :: "server_error option \<Rightarrow> client \<Rightarrow> client res" where
  "client_close_gracefully err c =
     (case err of
        Some e \<Rightarrow> client_close_with_error (e_message e) c
      | None \<Rightarrow>
          (case c_last_message_id c of
             None \<Rightarrow> proto_close c
           | Some last_msg_id \<Rightarrow>
               if Some last_msg_id = c_last_receipt_id c then proto_close c
               else thenE (write_frame (disconnect_frame last_msg_id) c)
                      (\<lambda>c. (None, c\<lparr>c_sent_disconnect := True\<rparr>))))"

section \<open>The transition system of a connection\<close>

text \<open>
  The state of a connection with what its environment has seen: the receipts that the consumer has
  taken from the receive queue, the messages that the writer has taken from the send queue, all
  bytes that were passed to \<^verbatim>\<open>data_received\<close>, and whether it has raised an exception.
\<close>

record client_sys =
  z_client :: client
  z_taken :: "str option list"
  z_sent :: "message list"
  z_received :: bytes
  z_broken :: bool

definition next_message :: "client \<Rightarrow> message list" where
  "next_message c =
     (if pr_writer c = WaitItem
      then (case aq_items (pr_send_queue c) of Payload m # _ \<Rightarrow> [m] | _ \<Rightarrow> []) else [])"

definition client_writer :: "client \<Rightarrow> client res" where
  "client_writer c = process_send_queue client_send_frame client_close_gracefully c"

inductive client_own :: "(rat \<Rightarrow> str) \<Rightarrow> client_sys \<Rightarrow> client_sys \<Rightarrow> bool" for fmt where
  cstep_made: "pr_transport (z_client z) = None \<Longrightarrow> t_out t = [] \<Longrightarrow>
    client_own fmt z (z\<lparr>z_client := snd (client_connection_made now starts t (z_client z))\<rparr>)"
| cstep_data: "pr_transport (z_client z) \<noteq> None \<Longrightarrow> \<not> pr_connection_lost (z_client z) \<Longrightarrow> \<not> z_broken z \<Longrightarrow>
    client_data_received now d (z_client z) = Some (e, c) \<Longrightarrow>
    client_own fmt z (z\<lparr>z_client := if e = None then c else abort c, z_received := z_received z @ d, z_broken := e \<noteq> None\<rparr>)"
| cstep_lost: "pr_transport (z_client z) \<noteq> None \<Longrightarrow> \<not> pr_connection_lost (z_client z) \<Longrightarrow>
    client_own fmt z (z\<lparr>z_client := snd (connection_lost (abort (z_client z)))\<rparr>)"
| cstep_pause: "client_own fmt z (z\<lparr>z_client := pause_writing (z_client z)\<rparr>)"
| cstep_resume: "client_own fmt z (z\<lparr>z_client := resume_writing (z_client z)\<rparr>)"
| cstep_timer: "client_own fmt z (z\<lparr>z_client := snd (fire_timer now i (z_client z))\<rparr>)"
| cstep_watchdog: "client_own fmt z
    (z\<lparr>z_client := snd (check_aliveness client_close_with_warning fmt now (z_client z))\<rparr>)"
| cstep_writer: "client_own fmt z
    (z\<lparr>z_client := snd (client_writer (z_client z)), z_sent := z_sent z @ next_message (z_client z)\<rparr>)"

inductive client_step :: "(rat \<Rightarrow> str) \<Rightarrow> client_sys \<Rightarrow> client_sys \<Rightarrow> bool" for fmt where
  cstep_own: "client_own fmt z z' \<Longrightarrow> client_step fmt z z'"
| cstep_enqueue: "aq_items q = aq_items (pr_send_queue (z_client z)) @ xs \<Longrightarrow>
    client_step fmt z (z\<lparr>z_client := (z_client z)\<lparr>pr_send_queue := q\<rparr>\<rparr>)"
| cstep_consume: "aq_get (pr_recv_queue (z_client z)) = Some (x, q) \<Longrightarrow>
    client_step fmt z (z\<lparr>z_client := (z_client z)\<lparr>pr_recv_queue := q\<rparr>, z_taken := z_taken z @ [x]\<rparr>)"
| cstep_consumed: "task_done (pr_recv_queue (z_client z)) = Inr (cbs, q) \<Longrightarrow>
    client_step fmt z (z\<lparr>z_client := run_callbacks cbs ((z_client z)\<lparr>pr_recv_queue := q\<rparr>)\<rparr>)"
| cstep_processed: "client_step fmt z (z\<lparr>z_client := processor_done (z_client z)\<rparr>)"

inductive_cases client_ownE: "client_own fmt z z'"
inductive_cases client_stepE: "client_step fmt z z'"

definition client_start :: "client_sys \<Rightarrow> bool" where
  "client_start z \<longleftrightarrow>
     (\<exists>sq rq high low a b delay host login passcode dest c. wq_new high low = Inr rq \<and>
        client_init sq rq a b delay host login passcode dest = Inr c \<and>
        z = \<lparr>z_client = c, z_taken = [], z_sent = [], z_received = [], z_broken = False\<rparr>)"

section \<open>The order of the writes\<close>

definition prints :: "stomp_frame \<Rightarrow> bytes \<Rightarrow> bool" where
  "prints f b \<longleftrightarrow> frame_bytes f = Inr b"

definition frames_out :: "client \<Rightarrow> bytes list" where
  "frames_out c = filter (\<lambda>b. b \<noteq> [NL]) (out_of c)"

text \<open>
  What the client has written, heartbeats aside: the connect frame \<open>cs\<close>, a SEND frame for
  each of the messages \<open>ms\<close>, and a final DISCONNECT \<open>ds\<close>, if any.
\<close>

definition hello_ok :: "stomp_frame \<Rightarrow> bool" where
  "hello_ok f \<longleftrightarrow> f_command f = lit ''STOMP'' \<and> map_of (f_headers f) (lit ''accept-version'') = Some (lit ''1.2'') \<and>
     parse_heartbeat_header (dict_get (lit ''heart-beat'') (lit ''0,0'') (f_headers f)) \<noteq> None"

definition log_ok :: "message list \<Rightarrow> client \<Rightarrow> stomp_frame list \<Rightarrow> message list \<Rightarrow> stomp_frame list \<Rightarrow> bool" where
  "log_ok sent c cs ms ds \<longleftrightarrow>
     list_all2 prints (cs @ map (send_frame_of (c_send_destination c)) ms @ ds) (frames_out c) \<and>
     (cs = [] \<or> cs = [connect_frame c]) \<and>
     (pr_transport c \<noteq> None \<and> (\<exists>b. frame_bytes (connect_frame c) = Inr b) \<longrightarrow> cs \<noteq> []) \<and>
     (\<exists>skipped. sent = ms @ skipped) \<and>
     c_last_message_id c = (if ms = [] then None else Some (m_id (last ms))) \<and>
     (ds = [] \<or> ms \<noteq> [] \<and> ds = [disconnect_frame (m_id (last ms))] \<and> pr_writer c = WriterDone) \<and>
     (\<not> pr_done c \<and> pr_writer c \<noteq> WriterDone \<longrightarrow> ms = sent) \<and>
     (pr_writer c = NoWriter \<longrightarrow> sent = []) \<and> (\<not> pr_connected c \<longrightarrow> pr_writer c = NoWriter) \<and>
     hello_ok (connect_frame c)"

definition client_inv :: "str option list \<Rightarrow> message list \<Rightarrow> client \<Rightarrow> bool" where
  "client_inv taken sent c \<longleftrightarrow> proto_inv taken c \<and> (\<exists>cs ms ds. log_ok sent c cs ms ds)"

text \<open>The changes of state that leave this log as it is.\<close>

definition same_log :: "client \<Rightarrow> client \<Rightarrow> bool" where
  "same_log c c' \<longleftrightarrow> frames_out c' = frames_out c \<and> c_last_message_id c' = c_last_message_id c \<and>
     connect_frame c' = connect_frame c \<and> c_send_destination c' = c_send_destination c \<and>
     (pr_done c \<longrightarrow> pr_done c') \<and> (pr_transport c' = None) = (pr_transport c = None) \<and>
     (pr_writer c = WriterDone \<longrightarrow> pr_writer c' = WriterDone) \<and>
     (pr_writer c' = NoWriter \<longrightarrow> pr_writer c = NoWriter) \<and>
     (pr_connected c \<longrightarrow> pr_connected c') \<and> (\<not> pr_connected c' \<longrightarrow> pr_writer c = NoWriter \<longrightarrow> pr_writer c' = NoWriter)"

lemma same_log_refl [simp]: "same_log c c"
  by (simp add: same_log_def)

lemma same_log_trans: "same_log a b \<Longrightarrow> same_log b c \<Longrightarrow> same_log a c"
  unfolding same_log_def by metis

lemma same_log_transport: "same_log c c' \<Longrightarrow> pr_transport c' = None \<longleftrightarrow> pr_transport c = None"
  unfolding same_log_def by blast

lemma log_ok_same: "log_ok sent c cs ms ds \<Longrightarrow> same_log c c' \<Longrightarrow> log_ok sent c' cs ms ds"
  unfolding log_ok_def same_log_def by (elim conjE, intro conjI) (metis+)

lemma client_inv_same: "client_inv taken sent c \<Longrightarrow> same_log c c' \<Longrightarrow> proto_inv taken' c' \<Longrightarrow> client_inv taken' sent c'"
  unfolding client_inv_def using log_ok_same by blast

lemma frames_out_cong: "out_of c' = out_of c \<Longrightarrow> frames_out c' = frames_out c"
  by (simp add: frames_out_def)

lemma connect_frame_cong:
  "c_host c' = c_host c \<Longrightarrow> c_login c' = c_login c \<Longrightarrow> c_passcode c' = c_passcode c \<Longrightarrow>
     pr_hb_send_min c' = pr_hb_send_min c \<Longrightarrow> pr_hb_recv_desired c' = pr_hb_recv_desired c \<Longrightarrow>
     connect_frame c' = connect_frame c"
  by (simp add: connect_frame_def)

lemma same_log_close: "same_log c (snd (proto_close c))"
  by (auto simp: same_log_def proto_close_def frames_out_def out_of_def connect_frame_def split: option.splits)

lemma same_log_recv_put: "same_log c (snd (recv_put x c))"
  by (auto simp: same_log_def recv_put_def run_callbacks_def frames_out_def out_of_def connect_frame_def
      split: sum.splits option.splits)

lemma same_log_connect:
  "\<not> pr_connected c \<Longrightarrow> pr_writer c = NoWriter \<Longrightarrow> same_log c (snd (proto_connect client_close_with_error hb c))"
  using same_log_close [of c]
  by (auto simp: proto_connect_def client_close_with_error_def Let_def split: option.splits)
    (auto simp: same_log_def frames_out_def out_of_def connect_frame_def)

definition client_live :: "str option list \<Rightarrow> message list \<Rightarrow> client \<Rightarrow> bool" where
  "client_live taken sent c \<longleftrightarrow> client_inv taken sent c \<and> \<not> pr_connection_lost c \<and> pr_transport c \<noteq> None"

lemma client_live_same:
  assumes "client_live taken sent c" and "same_log c c'" and "live taken c'"
  shows "client_live taken sent c'"
  using client_inv_same [OF _ assms(2), of taken sent taken] same_log_transport [OF assms(2)] assms(1,3)
  by (simp only: client_live_def live_def simp_thms)

lemma client_live_live: "client_live taken sent c \<Longrightarrow> live taken c"
  by (simp add: client_live_def client_inv_def live_def)

lemma client_live_writer_none: "client_live taken sent c \<Longrightarrow> \<not> pr_connected c \<Longrightarrow> pr_writer c = NoWriter"
  by (auto simp: client_live_def client_inv_def log_ok_def)

lemma live_client_close: "live taken c \<Longrightarrow> live taken (snd (client_close_with_error m c))"
  by (simp add: client_close_with_error_def live_close)

lemma client_live_close: "client_live taken sent c \<Longrightarrow> client_live taken sent (snd (proto_close c))"
  by (rule client_live_same) (auto intro: same_log_close live_close client_live_live)

lemma client_live_connect:
  assumes "client_live taken sent c" and "\<not> pr_connected c"
  shows "client_live taken sent (snd (proto_connect client_close_with_error hb c))"
proof (rule client_live_same [OF assms(1)])
  show "same_log c (snd (proto_connect client_close_with_error hb c))"
    using assms(2) client_live_writer_none [OF assms] by (rule same_log_connect)
  have "pr_transport c \<noteq> None" using assms(1) by (simp add: client_live_def)
  with client_live_live [OF assms(1)] show "live taken (snd (proto_connect client_close_with_error hb c))"
    by (auto intro!: live_connect live_client_close)
qed

lemma client_live_receipt:
  assumes "client_live taken sent c"
  shows "client_live taken sent (snd (received_receipt_command f c))"
proof -
  have upd: "client_live taken sent (c\<lparr>c_last_receipt_id := r\<rparr>)" if "client_live taken sent c" for c r
    by (rule client_live_same [OF that])
      (use client_live_live [OF that] in \<open>auto simp: same_log_def frames_out_def out_of_def connect_frame_def live_def proto_inv_def\<close>)
  have put: "client_live taken sent (snd (recv_put (Some r) c))" for r
    by (rule client_live_same [OF assms same_log_recv_put live_recv_put]) (rule client_live_live [OF assms])
  show ?thesis
    using assms unfolding received_receipt_command_def client_close_with_error_def Let_def
    by (auto simp: client_live_close put upd split: option.splits
        intro!: thenE_inv [where P = "client_live taken sent"])
qed

lemma client_live_frame:
  "client_live taken sent c \<Longrightarrow> client_live taken sent (snd (client_frame f c))"
  by (simp add: client_frame_def received_connected_command_def received_error_command_def
      client_live_connect client_live_receipt)
    (simp add: client_close_with_error_def client_live_close)

lemma client_live_parser: "client_live taken sent c \<Longrightarrow> client_live taken sent (c\<lparr>pr_parser := p\<rparr>)"
  by (rule client_live_same)
    (auto simp: same_log_def frames_out_def connect_frame_def intro: live_parser client_live_live)

lemma client_live_frames:
  "client_live taken sent c \<Longrightarrow> client_live taken sent (snd (client_frames fs c))"
proof (induction fs arbitrary: c)
  case (Cons f fs)
  let ?r = "client_frame f (c\<lparr>pr_parser := (pr_parser c)\<lparr>p_frames := fs\<rparr>\<rparr>)"
  have "client_live taken sent (snd ?r)"
    using Cons.prems by (simp add: client_live_frame client_live_parser)
  with Cons.IH [of "snd ?r"] show ?case
    by (cases ?r; cases "fst ?r") auto
qed simp

lemma client_live_data_received:
  assumes "client_live taken sent c" and "client_data_received now d c = Some (e, c')"
  shows "client_live taken sent c'"
proof -
  let ?c = "base_data_received now c"
  have live: "client_live taken sent ?c"
    by (rule client_live_same [OF assms(1)])
      (use client_live_live [OF assms(1)] in \<open>auto simp: base_data_received_def live_def same_log_def
        frames_out_def connect_frame_def\<close>)
  show ?thesis
  proof (cases "pr_done ?c")
    case True
    with assms(2) live show ?thesis by (simp add: client_data_received_def Let_def)
  next
    case False
    with assms(2) obtain r p where "add_bytes d (pr_parser ?c) = Some (r, p)"
      and "(e, c') = (case r of Inl (ProtocolError m) \<Rightarrow> client_close_with_error m (?c\<lparr>pr_parser := p\<rparr>)
             | _ \<Rightarrow> client_frames (p_frames p) (?c\<lparr>pr_parser := p\<rparr>))"
      by (auto simp: client_data_received_def Let_def split: option.splits sum.splits parse_exc.splits)
    then have "c' = snd (case r of Inl (ProtocolError m) \<Rightarrow> client_close_with_error m (?c\<lparr>pr_parser := p\<rparr>)
             | _ \<Rightarrow> client_frames (p_frames p) (?c\<lparr>pr_parser := p\<rparr>))" by (metis snd_conv)
    with client_live_parser [OF live] show ?thesis
      by (auto simp: client_close_with_error_def client_live_close client_live_frames split: sum.splits parse_exc.splits)
  qed
qed

text \<open>A frame is never taken for a heartbeat.\<close>

lemma prints_not_heartbeat: "prints f b \<Longrightarrow> b \<noteq> [NL]"
  by (cases "utf8_encode (header_lines f)"; cases "ascii_encode (f_command f)")
    (auto simp: prints_def frame_bytes_def append_eq_Cons_conv)

lemma frames_out_write:
  assumes "write_frame f c = (None, c')"
  shows "\<exists>b. prints f b \<and> frames_out c' = frames_out c @ [b]"
  using assms prints_not_heartbeat [of f]
  by (auto simp: write_frame_def transport_write_def frames_out_def out_of_def prints_def
      split: sum.splits option.splits if_splits)

lemma write_frame_None:
  assumes "write_frame f c = (None, c')"
  shows "\<exists>t. c' = c\<lparr>pr_transport := Some t\<rparr> \<and> pr_transport c \<noteq> None"
  using assms by (auto simp: write_frame_def transport_write_def split: sum.splits option.splits if_splits)

lemma write_frame_Some: "write_frame f c = (Some e, c') \<Longrightarrow> c' = c"
  by (auto simp: write_frame_def transport_write_def split: sum.splits option.splits if_splits)

lemma client_inv_made:
  assumes "client_inv taken sent c" and "pr_transport c = None" and "t_out t = []"
  shows "client_inv taken sent (snd (client_connection_made now starts t c))"
proof -
  let ?c = "base_connection_made now starts t c"
  have inv: "proto_inv taken ?c"
    using assms by (simp add: client_inv_def proto_inv_connection_made)
  have out: "frames_out c = []" "frames_out ?c = []" using assms(2,3)
    by (simp_all add: frames_out_def out_of_def base_connection_made_def Let_def run_callbacks_def
        add_high_watermark_callback_def add_low_watermark_callback_def)
  have hello: "connect_frame ?c = connect_frame c"
    by (rule connect_frame_cong) (simp_all add: base_connection_made_def Let_def run_callbacks_def
        add_high_watermark_callback_def add_low_watermark_callback_def)
  have keep: "c_last_message_id ?c = c_last_message_id c" "pr_writer ?c = pr_writer c"
    "pr_done ?c = pr_done c" "pr_connected ?c = pr_connected c"
    by (simp_all add: base_connection_made_def Let_def run_callbacks_def
        add_high_watermark_callback_def add_low_watermark_callback_def)
  have start: "c_last_message_id c = None" "\<not> pr_connected c" "pr_writer c = NoWriter" "sent = []"
    "hello_ok (connect_frame ?c)"
    using assms(1,2) out(1) hello by (auto simp: client_inv_def log_ok_def proto_inv_def)
  show ?thesis
  proof (cases "write_frame (connect_frame ?c) ?c")
    case (Pair e c')
    show ?thesis
    proof (cases e)
      case None
      with Pair obtain b where "prints (connect_frame ?c) b" "frames_out c' = [b]"
        using frames_out_write out(2) by fastforce
      moreover from Pair None obtain t' where c': "c' = ?c\<lparr>pr_transport := Some t'\<rparr>"
        using write_frame_None by blast
      moreover have "connect_frame c' = connect_frame ?c" by (simp add: c' connect_frame_def)
      ultimately have "log_ok sent c' [connect_frame c'] [] []"
        using start keep by (simp add: log_ok_def)
      moreover have "proto_inv taken c'" using proto_inv_write_frame [OF inv] Pair by (metis snd_conv)
      ultimately show ?thesis using Pair unfolding client_inv_def client_connection_made_def Let_def by auto
    next
      case (Some x)
      with Pair have c': "c' = ?c" using write_frame_Some by blast
      have "\<not> (\<exists>b. frame_bytes (connect_frame ?c) = Inr b)"
      proof
        assume "\<exists>b. frame_bytes (connect_frame ?c) = Inr b"
        then have "e = None" using Pair
          by (auto simp: write_frame_def transport_write_def base_connection_made_def Let_def run_callbacks_def
              add_high_watermark_callback_def add_low_watermark_callback_def split: if_splits)
        with Some show False by simp
      qed
      then have "log_ok sent c' [] [] []" using start keep out by (simp add: log_ok_def c')
      with inv c' Pair show ?thesis unfolding client_inv_def client_connection_made_def Let_def by auto
    qed
  qed
qed

lemma log_ok_done:
  "log_ok sent c cs ms ds \<Longrightarrow> pr_done c \<or> pr_writer c = WriterDone \<Longrightarrow> pr_writer c \<noteq> NoWriter \<Longrightarrow>
     log_ok (sent @ xs) c cs ms ds"
  by (auto simp: log_ok_def)

lemma log_ok_send:
  assumes "log_ok sent c cs ms ds" and "\<not> pr_done c" and "pr_writer c = WaitItem"
    and "frames_out c' = frames_out c @ [b]" and "prints (send_frame_of (c_send_destination c) m) b"
    and "c_last_message_id c' = Some (m_id m)" and "connect_frame c' = connect_frame c"
    and "c_send_destination c' = c_send_destination c" and "pr_writer c' \<noteq> NoWriter" and "pr_connected c'"
    and "pr_transport c \<noteq> None"
  shows "log_ok (sent @ [m]) c' cs (ms @ [m]) []"
proof -
  from assms(1-3) have ms: "ms = sent" and ds: "ds = []"
    and log: "list_all2 prints (cs @ map (send_frame_of (c_send_destination c)) ms) (frames_out c)"
    and cs: "cs = [] \<or> cs = [connect_frame c]" "(\<exists>b. frame_bytes (connect_frame c) = Inr b) \<longrightarrow> cs \<noteq> []"
      "hello_ok (connect_frame c)"
    using assms(11) by (auto simp: log_ok_def)
  from list_all2_appendI [OF log, of "[send_frame_of (c_send_destination c) m]" "[b]"]
  have "list_all2 prints (cs @ map (send_frame_of (c_send_destination c')) (ms @ [m]) @ []) (frames_out c')"
    using assms(4,5,8) by simp
  with cs ms assms(6,7,9,10) show ?thesis by (simp add: log_ok_def)
qed

lemma same_log_task_done: "same_log c (snd (send_task_done c))"
  by (simp add: send_task_done_def same_log_def frames_out_def connect_frame_def split: sum.splits)

lemma same_log_fields:
  "same_log c (c\<lparr>pr_send_queue := q\<rparr>)" "same_log c (c\<lparr>pr_start_sending := b\<rparr>)"
  "same_log c (c\<lparr>pr_recv_queue := rq\<rparr>)" "same_log c (abort c)"
  by (simp_all add: same_log_def frames_out_def connect_frame_def) (simp add: abort_def)

lemma same_log_end_writer: "pr_writer c \<noteq> NoWriter \<Longrightarrow> pr_connected c \<Longrightarrow> same_log c (end_writer c)"
  unfolding same_log_def frames_out_def by (simp add: connect_frame_def) (simp add: end_writer_def)

lemma same_log_wait:
  "pr_writer c \<notin> {NoWriter, WriterDone} \<Longrightarrow> w \<noteq> NoWriter \<Longrightarrow> pr_connected c \<Longrightarrow> same_log c (c\<lparr>pr_writer := w\<rparr>)"
  by (simp add: same_log_def frames_out_def connect_frame_def)

lemma same_log_thenE:
  "same_log c (snd r) \<Longrightarrow> (\<And>s. same_log c s \<Longrightarrow> same_log c (snd (k s))) \<Longrightarrow> same_log c (snd (thenE r k))"
  by (rule thenE_inv)

text \<open>The log after a step of the writer, by the item that it takes.\<close>

text \<open>The writer sends a message, or the last frame.\<close>

lemma log_writer_sent:
  assumes "log_ok sent c cs ms ds" and "pr_writer c = WaitItem" and "pr_connected c" and "pr_transport c \<noteq> None" and "\<not> pr_done c"
    and w: "write_frame (send_frame_of (c_send_destination c) m) c = (None, c1)"
  shows "log_ok (sent @ [m]) (snd (send_task_done (c1\<lparr>c_last_message_id := Some (m_id m)\<rparr>))) cs (ms @ [m]) []"
proof -
  from w obtain b where b: "prints (send_frame_of (c_send_destination c) m) b" "frames_out c1 = frames_out c @ [b]"
    using frames_out_write by blast
  from w obtain t where c1: "c1 = c\<lparr>pr_transport := Some t\<rparr>" using write_frame_None by blast
  define c2 where "c2 = c1\<lparr>c_last_message_id := Some (m_id m)\<rparr>"
  have "frames_out c2 = frames_out c @ [b]" "connect_frame c2 = connect_frame c"
    using b(2) by (simp_all add: c2_def c1 frames_out_def out_of_def connect_frame_def)
  then have "log_ok (sent @ [m]) c2 cs (ms @ [m]) []"
    using log_ok_send [OF assms(1), of c2 b m] assms b(1) by (simp add: c2_def c1)
  then show ?thesis unfolding c2_def by (rule log_ok_same) (rule same_log_task_done)
qed

lemma log_writer_payload:
  assumes "log_ok sent c cs ms ds" and "pr_writer c = WaitItem" and "pr_connected c" and "pr_transport c \<noteq> None"
  shows "\<exists>ms' ds'. log_ok (sent @ [m])
    (snd (case thenE (client_send_frame m (c\<lparr>pr_send_queue := q\<rparr>)) send_task_done of
       (Some e, s') \<Rightarrow> (Some e, end_writer s') | (None, s') \<Rightarrow> (None, s'\<lparr>pr_writer := WaitStart\<rparr>))) cs ms' ds'"
proof -
  let ?c = "c\<lparr>pr_send_queue := q\<rparr>"
  have fin: "\<exists>ms' ds'. log_ok (sent @ [m])
      (snd (case r of (Some e, s') \<Rightarrow> (Some e, end_writer s') | (None, s') \<Rightarrow> (None, s'\<lparr>pr_writer := WaitStart\<rparr>))) cs ms' ds'"
    if "log_ok (sent @ [m]) (snd r) cs ms' ds'" "pr_writer (snd r) = WaitItem" "pr_connected (snd r)" for r ms' ds'
    using that log_ok_same [OF that(1) same_log_end_writer] log_ok_same [OF that(1) same_log_wait]
    by (intro exI [of _ ms'] exI [of _ ds']) (cases r; cases "fst r"; simp)
  have "log_ok sent ?c cs ms ds" using assms(1) by (rule log_ok_same) (rule same_log_fields)
  show ?thesis
  proof (cases "pr_done c")
    case True
    then have "log_ok (sent @ [m]) ?c cs ms ds"
      using log_ok_done [OF \<open>log_ok sent ?c cs ms ds\<close>] assms(2) by simp
    then have "log_ok (sent @ [m]) (snd (send_task_done ?c)) cs ms ds"
      by (rule log_ok_same) (rule same_log_task_done)
    moreover have "pr_writer (snd (send_task_done ?c)) = WaitItem" "pr_connected (snd (send_task_done ?c))"
      using assms(2,3) by (simp_all add: send_task_done_def split: sum.splits)
    ultimately show ?thesis using True by (intro fin) (simp_all add: client_send_frame_def)
  next
    case False
    obtain e c1 where w: "write_frame (send_frame_of (c_send_destination c) m) ?c = (e, c1)" by fastforce
    show ?thesis
    proof (cases e)
      case (Some x)
      with w have "c1 = ?c" using write_frame_Some by blast
      with w Some False have r: "thenE (client_send_frame m ?c) send_task_done = (Some x, ?c)"
        by (simp add: client_send_frame_def)
      have "log_ok sent (end_writer ?c) cs ms ds"
        using \<open>log_ok sent ?c cs ms ds\<close> by (rule log_ok_same) (rule same_log_end_writer, simp_all add: assms)
      from log_ok_done [OF this, of "[m]"] r show ?thesis
        by (intro exI [of _ ms] exI [of _ ds]) (simp add: end_writer_def)
    next
      case None
      let ?c2 = "c1\<lparr>c_last_message_id := Some (m_id m)\<rparr>"
      from w None obtain t where c1: "c1 = ?c\<lparr>pr_transport := Some t\<rparr>" using write_frame_None by blast
      have "log_ok (sent @ [m]) (snd (send_task_done ?c2)) cs (ms @ [m]) []"
        by (rule log_writer_sent [OF \<open>log_ok sent ?c cs ms ds\<close>]) (use w None False assms in simp_all)
      moreover have "thenE (client_send_frame m ?c) send_task_done = send_task_done ?c2"
        using w None False by (simp add: client_send_frame_def)
      moreover have "pr_writer (snd (send_task_done ?c2)) = WaitItem" "pr_connected (snd (send_task_done ?c2))"
        using assms(2,3) by (simp_all add: send_task_done_def c1 split: sum.splits)
      ultimately show ?thesis by (intro fin) simp_all
    qed
  qed
qed

lemma log_writer_disconnect:
  assumes "log_ok sent c cs ms []" and "pr_connected c" and "ms \<noteq> []" and "c_last_message_id c = Some (m_id (last ms))"
    and w: "write_frame (disconnect_frame (m_id (last ms))) (c\<lparr>pr_send_queue := q\<rparr>) = (None, c1)"
  shows "log_ok sent (end_writer (snd (send_task_done (c1\<lparr>c_sent_disconnect := True\<rparr>)))) cs ms [disconnect_frame (m_id (last ms))]"
proof -
  let ?c = "c\<lparr>pr_send_queue := q\<rparr>" and ?c3 = "end_writer (snd (send_task_done (c1\<lparr>c_sent_disconnect := True\<rparr>)))"
  from w obtain b where b: "prints (disconnect_frame (m_id (last ms))) b" "frames_out c1 = frames_out ?c @ [b]"
    using frames_out_write by blast
  from w obtain t where c1: "c1 = ?c\<lparr>pr_transport := Some t\<rparr>" and tr: "pr_transport c \<noteq> None"
    using write_frame_None by fastforce
  have out: "frames_out ?c3 = frames_out c @ [b]"
    using b(2) by (simp add: send_task_done_def frames_out_def split: sum.splits) (simp add: out_of_def)
  have "connect_frame ?c3 = connect_frame c" "c_send_destination ?c3 = c_send_destination c"
    "c_last_message_id ?c3 = c_last_message_id c" "pr_writer ?c3 = WriterDone" "pr_connected ?c3"
    using assms(2) by (simp_all add: send_task_done_def end_writer_def c1 connect_frame_def split: sum.splits)
  moreover have "list_all2 prints ((cs @ map (send_frame_of (c_send_destination c)) ms) @ [disconnect_frame (m_id (last ms))])
      (frames_out c @ [b])"
    using assms(1) b(1) by (intro list_all2_appendI) (simp_all add: log_ok_def)
  ultimately show ?thesis using assms(1,3,4) out tr by (auto simp: log_ok_def)
qed

lemma log_writer_stop:
  assumes "log_ok sent c cs ms ds" and "pr_writer c = WaitItem" and "pr_connected c"
  shows "\<exists>ds'. log_ok sent
    (end_writer (snd (thenE (client_close_gracefully err (c\<lparr>pr_send_queue := q\<rparr>)) send_task_done))) cs ms ds'"
proof -
  let ?c = "c\<lparr>pr_send_queue := q\<rparr>"
  have td: "same_log (snd r) (snd (thenE r send_task_done))" for r
    by (cases r; cases "fst r") (simp_all add: same_log_task_done)
  have close: "\<exists>ds'. log_ok sent (end_writer (snd (thenE (proto_close ?c) send_task_done))) cs ms ds'"
  proof -
    have "same_log c ?c" by (rule same_log_fields)
    also have "same_log ?c (snd (proto_close ?c))" by (rule same_log_close)
    also (same_log_trans) have "same_log (snd (proto_close ?c)) (snd (thenE (proto_close ?c) send_task_done))"
      by (rule td)
    finally (same_log_trans) have 1: "same_log c (snd (thenE (proto_close ?c) send_task_done))" .
    have "pr_writer (snd (thenE (proto_close ?c) send_task_done)) \<noteq> NoWriter"
      "pr_connected (snd (thenE (proto_close ?c) send_task_done))"
      using 1 assms(2,3) unfolding same_log_def by (metis writer.distinct(3))+
    from same_log_trans [OF 1 same_log_end_writer [OF this]] show ?thesis
      using log_ok_same [OF assms(1)] by blast
  qed
  show ?thesis
  proof (cases "err = None \<and> c_last_message_id c \<noteq> None \<and> c_last_message_id c \<noteq> c_last_receipt_id c")
    case False
    with close show ?thesis
      by (auto simp: client_close_gracefully_def client_close_with_error_def split: option.splits)
  next
    case True
    from assms(1,2) True have ms: "ms \<noteq> []" "c_last_message_id c = Some (m_id (last ms))" and ds: "ds = []"
      by (auto simp: log_ok_def split: if_splits)
    obtain e c1 where w: "write_frame (disconnect_frame (m_id (last ms))) ?c = (e, c1)" by fastforce
    show ?thesis
    proof (cases e)
      case (Some x)
      with w have "c1 = ?c" using write_frame_Some by blast
      with w Some True ms have "thenE (client_close_gracefully err ?c) send_task_done = (Some x, ?c)"
        by (simp add: client_close_gracefully_def)
      moreover have "same_log c (end_writer ?c)"
        by (rule same_log_trans [OF same_log_fields(1) same_log_end_writer]) (simp_all add: assms)
      ultimately show ?thesis using log_ok_same [OF assms(1)] by auto
    next
      case None
      have "thenE (client_close_gracefully err ?c) send_task_done = send_task_done (c1\<lparr>c_sent_disconnect := True\<rparr>)"
        using w None True ms by (simp add: client_close_gracefully_def)
      moreover note log_writer_disconnect [OF assms(1) [unfolded ds] assms(3) ms w [unfolded None]]
      ultimately show ?thesis by auto
    qed
  qed
qed

lemma live_client_fields [simp]:
  "live taken (c\<lparr>c_last_message_id := r\<rparr>) = live taken c" "live taken (c\<lparr>c_sent_disconnect := b\<rparr>) = live taken c"
  by (simp_all add: live_def proto_inv_def)

lemma live_client_send_frame: "live taken c \<Longrightarrow> live taken (snd (client_send_frame m c))"
  unfolding client_send_frame_def
  by (simp add: thenE_inv [where P = "live taken"] live_write_frame)

lemma live_client_close_gracefully: "live taken c \<Longrightarrow> live taken (snd (client_close_gracefully err c))"
  unfolding client_close_gracefully_def
  by (simp add: thenE_inv [where P = "live taken"] live_write_frame live_close live_client_close split: option.splits)

lemma client_inv_writer:
  assumes "client_inv taken sent c"
  shows "client_inv taken (sent @ next_message c) (snd (client_writer c))"
proof -
  from assms obtain cs ms ds where inv: "proto_inv taken c" and log: "log_ok sent c cs ms ds"
    by (auto simp: client_inv_def)
  have inv': "proto_inv taken (snd (client_writer c))"
    unfolding client_writer_def
    by (intro proto_inv_process_send_queue inv live_client_send_frame live_client_close_gracefully)
  have "\<exists>ms ds. log_ok (sent @ next_message c) (snd (client_writer c)) cs ms ds"
  proof (cases "pr_writer c = WaitItem \<and> aq_items (pr_send_queue c) \<noteq> []")
    case False
    have "same_log c (c\<lparr>pr_writer := WaitItem\<rparr>)" if "pr_writer c = WaitStart"
      using that log by (intro same_log_wait) (auto simp: log_ok_def)
    with False have "same_log c (snd (client_writer c))"
      by (auto simp: client_writer_def process_send_queue_def aq_get_def split: writer.splits list.splits)
    moreover have "next_message c = []" using False by (simp add: next_message_def)
    ultimately show ?thesis using log_ok_same [OF log] by auto
  next
    case True
    then obtain x xs where q: "aq_items (pr_send_queue c) = x # xs" by (cases "aq_items (pr_send_queue c)") auto
    have con: "pr_connected c" "pr_transport c \<noteq> None"
      using log inv True by (auto simp: log_ok_def proto_inv_def)
    let ?q = "(pr_send_queue c)\<lparr>aq_items := xs\<rparr>"
    show ?thesis
    proof (cases x)
      case (Payload m)
      then have "next_message c = [m]" using True q by (simp add: next_message_def)
      with log_writer_payload [OF log _ con, of m ?q] True q Payload show ?thesis
        by (simp add: client_writer_def process_send_queue_def aq_get_def)
    next
      case (Stop err)
      then have "next_message c = []" using True q by (simp add: next_message_def)
      with log_writer_stop [OF log _ con(1), of err ?q] True q Stop show ?thesis
        by (auto simp: client_writer_def process_send_queue_def aq_get_def case_prod_beta)
    qed
  qed
  with inv' show ?thesis by (auto simp: client_inv_def)
qed

lemma client_inv_timer:
  assumes "client_inv taken sent c"
  shows "client_inv taken sent (snd (fire_timer now i c))"
proof (rule client_inv_same [OF assms])
  show "proto_inv taken (snd (fire_timer now i c))"
    using assms by (simp add: client_inv_def proto_inv_timer)
  have "frames_out (snd (fire_timer now i c)) = frames_out c"
    using out_timer [of now i c] by (auto simp: frames_out_def)
  moreover have "connect_frame (snd (fire_timer now i c)) = connect_frame c"
    by (rule connect_frame_cong) (simp_all add: fire_timer_def Let_def detect_connected_timeout_def
        proto_close_def send_heartbeat_def transport_write_def split: timer.splits option.splits)
  ultimately show "same_log c (snd (fire_timer now i c))"
    by (simp add: same_log_def fire_timer_def Let_def detect_connected_timeout_def proto_close_def
        send_heartbeat_def transport_write_def split: timer.splits option.splits)
qed

lemma client_inv_watchdog:
  assumes "client_inv taken sent c"
  shows "client_inv taken sent (snd (check_aliveness client_close_with_warning fmt now c))"
proof (rule client_inv_same [OF assms])
  show "proto_inv taken (snd (check_aliveness client_close_with_warning fmt now c))"
    using assms by (intro proto_inv_watchdog) (simp_all add: client_inv_def client_close_with_warning_def live_close)
  have wd: "same_log c (c\<lparr>pr_watchdog := w\<rparr>)" "same_log c (end_watchdog c)" for c w
    by (simp_all add: same_log_def frames_out_def connect_frame_def) (simp_all add: end_watchdog_def)
  show "same_log c (snd (check_aliveness client_close_with_warning fmt now c))"
    using same_log_trans [OF same_log_close [of c] wd(2)]
    by (simp add: check_aliveness_def client_close_with_warning_def case_prod_beta wd split: watchdog.splits)
qed

lemma same_log_cancel: "same_log c (cancel_writer c)" "same_log c (cancel_watchdog c)"
  by (simp_all add: same_log_def frames_out_def) (simp_all add: cancel_writer_def cancel_watchdog_def connect_frame_def)

lemma same_log_lost: "same_log c (c\<lparr>pr_connection_lost := True, pr_done := True\<rparr>)"
  by (simp add: same_log_def frames_out_def connect_frame_def)

lemma same_log_connection_lost: "same_log c (snd (connection_lost c))"
proof -
  define s1 where "s1 = cancel_watchdog (cancel_writer (c\<lparr>pr_connection_lost := True, pr_done := True\<rparr>))"
  have s1: "same_log c s1"
    unfolding s1_def by (rule same_log_trans [OF same_log_trans [OF same_log_lost same_log_cancel(1)] same_log_cancel(2)])
  then have s2: "same_log c (s1\<lparr>pr_recv_queue := q\<rparr>)" for q
    by (rule same_log_trans) (rule same_log_fields)
  then have s3: "same_log c (snd (recv_put None (s1\<lparr>pr_recv_queue := q\<rparr>)))" for q
    by (rule same_log_trans) (rule same_log_recv_put)
  show ?thesis
    unfolding connection_lost_def s1_def [symmetric] Let_def
    using s1 s2 s3 by (simp split: sum.splits)
qed

lemma client_inv_lost:
  assumes "client_inv taken sent c" and "pr_transport c \<noteq> None" and "\<not> pr_connection_lost c"
  shows "client_inv taken sent (snd (connection_lost (abort c)))"
proof (rule client_inv_same [OF assms(1)])
  show "proto_inv taken (snd (connection_lost (abort c)))"
    using assms by (simp add: client_inv_def proto_inv_connection_lost)
  show "same_log c (snd (connection_lost (abort c)))"
    by (rule same_log_trans [OF same_log_fields(4) same_log_connection_lost])
qed

lemma connect_frame_hello:
  assumes "0 \<le> pr_hb_send_min c" and "0 \<le> pr_hb_recv_desired c"
  shows "hello_ok (connect_frame c)"
  using parse_heartbeat_header_inverse [OF assms]
  by (auto simp: hello_ok_def connect_frame_def dict_get_def Let_def split: option.splits)

lemma client_inv_start: "client_start z \<Longrightarrow> client_inv (z_taken z) (z_sent z) (z_client z)"
  by (auto simp: client_start_def client_init_def proto_init_def wq_new_def client_inv_def proto_inv_def
      log_ok_def frames_out_def out_of_def proto.defs Let_def connect_frame_hello split: if_splits)

lemma client_inv_own:
  assumes "client_inv (z_taken z) (z_sent z) (z_client z)" and "client_own fmt z z'"
  shows "client_inv (z_taken z') (z_sent z') (z_client z')"
  using assms(2)
proof cases
  case (cstep_data now d e c)
  have "client_live (z_taken z) (z_sent z) (z_client z)"
    using assms(1) cstep_data(2,3) by (simp add: client_live_def)
  from client_live_data_received [OF this cstep_data(5)]
  have inv: "client_inv (z_taken z) (z_sent z) c" by (simp add: client_live_def)
  then have "proto_inv (z_taken z) c" by (simp add: client_inv_def)
  from client_inv_same [OF inv same_log_fields(4) proto_inv_abort [OF this]] inv cstep_data(1)
  show ?thesis by simp
next
  case cstep_pause
  have "proto_inv (z_taken z) (pause_writing (z_client z))"
    using assms(1) by (simp add: client_inv_def pause_writing_def)
  moreover have "same_log (z_client z) (pause_writing (z_client z))"
    unfolding pause_writing_def by (rule same_log_fields)
  ultimately show ?thesis using client_inv_same [OF assms(1)] cstep_pause by simp
next
  case cstep_resume
  have "proto_inv (z_taken z) (resume_writing (z_client z))"
    using assms(1) by (simp add: client_inv_def resume_writing_def)
  moreover have "same_log (z_client z) (resume_writing (z_client z))"
    unfolding resume_writing_def by (rule same_log_fields)
  ultimately show ?thesis using client_inv_same [OF assms(1)] cstep_resume by simp
qed (use assms(1) in \<open>simp_all add: client_inv_made client_inv_lost client_inv_timer client_inv_watchdog
  client_inv_writer\<close>)

lemma client_inv_step:
  assumes "client_inv (z_taken z) (z_sent z) (z_client z)" and "client_step fmt z z'"
  shows "client_inv (z_taken z') (z_sent z') (z_client z')"
  using assms(2)
proof cases
  case cstep_own
  then show ?thesis by (rule client_inv_own [OF assms(1)])
next
  case (cstep_consume x q)
  have "proto_inv (z_taken z @ [x]) ((z_client z)\<lparr>pr_recv_queue := q\<rparr>)"
    using assms(1) cstep_consume(2) by (intro proto_inv_consume) (simp_all add: client_inv_def)
  from client_inv_same [OF assms(1) same_log_fields(3) this] cstep_consume(1) show ?thesis by simp
next
  case (cstep_consumed cbs q)
  let ?c = "run_callbacks cbs ((z_client z)\<lparr>pr_recv_queue := q\<rparr>)"
  have "proto_inv (z_taken z) ?c"
    using assms(1) cstep_consumed(2) by (intro proto_inv_consumed) (simp_all add: client_inv_def)
  moreover have "frames_out ?c = frames_out (z_client z)" by (simp add: frames_out_def)
  then have "same_log (z_client z) ?c" by (simp add: same_log_def run_callbacks_def connect_frame_def)
  ultimately show ?thesis using client_inv_same [OF assms(1)] cstep_consumed(1) by simp
next
  case (cstep_enqueue q xs)
  have "proto_inv (z_taken z) ((z_client z)\<lparr>pr_send_queue := q\<rparr>)" using assms(1) by (simp add: client_inv_def)
  from client_inv_same [OF assms(1) same_log_fields(1) this] cstep_enqueue show ?thesis by simp
next
  case cstep_processed
  have "proto_inv (z_taken z) (processor_done (z_client z))"
    using assms(1) by (simp add: client_inv_def proto_inv_def processor_done_def)
  moreover have "same_log (z_client z) (processor_done (z_client z))"
    by (simp add: processor_done_def same_log_def frames_out_def out_of_def connect_frame_def)
  ultimately show ?thesis using client_inv_same [OF assms(1)] cstep_processed by simp
qed

interpretation cl_run: inductive_invariant client_start "client_step fmt"
  "\<lambda>z. client_inv (z_taken z) (z_sent z) (z_client z)" for fmt
  by unfold_locales (auto intro: client_inv_start client_inv_step)

section \<open>Receiving receipts\<close>

definition connected_ok :: "stomp_frame \<Rightarrow> bool" where
  "connected_ok f \<longleftrightarrow> f_command f = lit ''CONNECTED'' \<and> map_of (f_headers f) (lit ''version'') = Some (lit ''1.2'') \<and>
     parse_heartbeat_header (dict_get (lit ''heart-beat'') (lit ''0,0'') (f_headers f)) \<noteq> None"

definition receipt_ok :: "stomp_frame \<Rightarrow> bool" where
  "receipt_ok f \<longleftrightarrow> f_command f = lit ''RECEIPT'' \<and> map_of (f_headers f) (lit ''receipt-id'') \<noteq> None"

definition frame_receipt :: "stomp_frame \<Rightarrow> str" where
  "frame_receipt f = dict_get (lit ''receipt-id'') [] (f_headers f)"

definition client_expects :: "str list \<Rightarrow> client \<Rightarrow> stomp_frame list \<Rightarrow> bool" where
  "client_expects ids c fs \<longleftrightarrow>
     pr_transport c \<noteq> None \<and> \<not> pr_done c \<and> \<not> c_sent_disconnect c \<and> aq_maxsize (pr_recv_queue c) \<le> 0 \<and>
     (\<exists>got todo. aq_items (pr_recv_queue c) = map Some got \<and> got @ map frame_receipt todo = ids \<and>
        list_all receipt_ok todo \<and>
        (if pr_connected c then fs = todo else \<exists>f. connected_ok f \<and> fs = f # todo))"

lemma client_expects_parser [simp]: "client_expects ids (c\<lparr>pr_parser := p\<rparr>) fs = client_expects ids c fs"
  by (simp add: client_expects_def)

lemma client_expects_tick [simp]: "client_expects ids (base_data_received now c) fs = client_expects ids c fs"
  by (simp add: client_expects_def base_data_received_def)

lemma client_frame_connected:
  assumes "client_expects ids c (f # fs)" and "\<not> pr_connected c"
  shows "\<exists>c'. client_frame f c = (None, c') \<and> pr_parser c' = pr_parser c \<and> client_expects ids c' fs"
proof -
  from assms have ok: "connected_ok f" by (auto simp: client_expects_def)
  then obtain a b where "parse_heartbeat_header (dict_get (lit ''heart-beat'') (lit ''0,0'') (f_headers f)) = Some (a, b)"
    by (auto simp: connected_ok_def)
  with assms ok show ?thesis
    by (auto simp: client_frame_def received_connected_command_def connected_ok_def proto_connect_def Let_def
        client_expects_def)
qed

lemma client_frame_receipt:
  assumes "client_expects ids c (f # fs)" and "pr_connected c"
  shows "\<exists>c'. client_frame f c = (None, c') \<and> pr_parser c' = pr_parser c \<and> client_expects ids c' fs"
proof -
  from assms obtain got where got: "aq_items (pr_recv_queue c) = map Some got"
    "got @ frame_receipt f # map frame_receipt fs = ids" and ok: "receipt_ok f" "list_all receipt_ok fs"
    by (auto simp: client_expects_def)
  from ok(1) obtain i where h: "map_of (f_headers f) (lit ''receipt-id'') = Some i" "frame_receipt f = i"
    "f_command f = lit ''RECEIPT''"
    by (auto simp: receipt_ok_def frame_receipt_def dict_get_def)
  obtain cbs q where put: "recv_put (Some i) c = (None, run_callbacks cbs (c\<lparr>pr_recv_queue := q\<rparr>))"
    "aq_items q = map Some (got @ [i])" "aq_maxsize q \<le> 0"
    using recv_put_unbounded [of c "Some i"] assms(1) got(1) by (auto simp: client_expects_def)
  have "client_frame f c = received_receipt_command f c" using h by (simp add: client_frame_def)
  also have "\<dots> = (None, (run_callbacks cbs (c\<lparr>pr_recv_queue := q\<rparr>))\<lparr>c_last_receipt_id := Some i\<rparr>)"
    using assms h put(1) by (simp add: received_receipt_command_def run_callbacks_def client_expects_def)
  finally show ?thesis
    using assms put got(2) ok(2) h(2)
    by (auto simp: run_callbacks_def client_expects_def intro!: exI [of _ "got @ [i]"])
qed

lemma client_frames_expects:
  assumes "client_expects ids c (fs @ gs)"
  shows "\<exists>c'. client_frames fs c = (None, c') \<and>
    (fs \<noteq> [] \<longrightarrow> pr_parser c' = (pr_parser c)\<lparr>p_frames := []\<rparr>) \<and> (fs = [] \<longrightarrow> c' = c) \<and> client_expects ids c' gs"
  using assms
proof (induction fs arbitrary: c)
  case (Cons f fs)
  let ?c = "c\<lparr>pr_parser := (pr_parser c)\<lparr>p_frames := fs\<rparr>\<rparr>"
  have "client_expects ids ?c (f # fs @ gs)" using Cons.prems by simp
  then obtain c1 where c1: "client_frame f ?c = (None, c1)" "pr_parser c1 = pr_parser ?c"
    "client_expects ids c1 (fs @ gs)"
    using client_frame_connected [of ids ?c f "fs @ gs"] client_frame_receipt [of ids ?c f "fs @ gs"] by blast
  moreover from c1(3) have "\<not> pr_done c1" by (simp add: client_expects_def)
  ultimately show ?case using Cons.IH [OF c1(3)] by (cases fs) auto
qed auto

interpretation cli: frame_reader client_data_received pr_parser "client_expects ids" for ids
proof unfold_locales
  fix c fs gs d p now
  assume e: "client_expects ids c (fs @ gs)" and add: "add_bytes d (pr_parser c) = Some (Inr (), p)"
    and fs: "p_frames p = fs"
  let ?c = "(base_data_received now c)\<lparr>pr_parser := p\<rparr>"
  have "client_expects ids ?c (fs @ gs)" using e by simp
  from client_frames_expects [OF this] obtain c' where "client_frames fs ?c = (None, c')"
    "fs \<noteq> [] \<longrightarrow> pr_parser c' = p\<lparr>p_frames := []\<rparr>" "fs = [] \<longrightarrow> c' = ?c" "client_expects ids c' gs"
    by auto
  moreover have "\<not> pr_done c" using e by (simp add: client_expects_def)
  ultimately show "\<exists>c'. client_data_received now d c = Some (None, c') \<and>
      pr_parser c' = p\<lparr>p_frames := []\<rparr> \<and> client_expects ids c' gs"
    using add fs
    by (intro exI [of _ c']) (cases "fs = []"; simp add: client_data_received_def base_data_received_def Let_def)
qed

section \<open>The properties\<close>

text \<open>
  C19: The receive queue of the client carries receipt identifiers followed by one end mark,
  in every state that a connection can reach.
\<close>

theorem client_queue_protocol:
  assumes "reaches client_start (client_step fmt) z"
  shows "\<exists>ids. z_taken z @ aq_items (pr_recv_queue (z_client z)) =
    map Some ids @ (if pr_connection_lost (z_client z) then [None] else [])"
  using cl_run.reaches_inv [OF assms] by (auto simp: client_inv_def proto_inv_def)

text \<open>
  C8: The order of what the client writes. In every state that a connection can reach,
  the frames written (heartbeats aside) are the STOMP frame, if it could be printed, one SEND
  frame for each message that the writer has taken from the send queue, in the order of
  the queue, and at most one DISCONNECT at the end, which asks for a receipt of the last
  message sent. As long as the connection is open and the writer runs, no message taken
  from the queue is missing.
\<close>

theorem client_writes_in_order:
  assumes "reaches client_start (client_step fmt) z"
  shows "\<exists>cs ms ds. list_all2 prints (cs @ map (send_frame_of (c_send_destination (z_client z))) ms @ ds)
      (filter (\<lambda>b. b \<noteq> [NL]) (out_of (z_client z))) \<and>
    (cs = [] \<or> cs = [connect_frame (z_client z)]) \<and>
    (\<exists>skipped. z_sent z = ms @ skipped \<and>
       (\<not> pr_done (z_client z) \<and> pr_writer (z_client z) \<noteq> WriterDone \<longrightarrow> skipped = [])) \<and>
    (ds = [] \<or> ms \<noteq> [] \<and> ds = [disconnect_frame (m_id (last ms))])"
proof -
  from cl_run.reaches_inv [OF assms] obtain cs ms ds where log: "log_ok (z_sent z) (z_client z) cs ms ds"
    by (auto simp: client_inv_def)
  then obtain skipped where skipped: "z_sent z = ms @ skipped" unfolding log_ok_def by blast
  have "skipped = []" if "\<not> pr_done (z_client z) \<and> pr_writer (z_client z) \<noteq> WriterDone"
    using log that skipped unfolding log_ok_def by (metis append_self_conv)
  with log skipped show ?thesis
    unfolding log_ok_def frames_out_def
    by (intro exI [of _ cs] exI [of _ ms] exI [of _ ds]) blast
qed

definition example_ids :: "(str option, flow_cb) wqueue" where
  "example_ids = \<lparr>aq_items = [], aq_maxsize = 0, aq_unfinished = 0, aq_put_task = NoPutTask,
     wq_paused = False, wq_lw_callbacks = [], wq_hw_callbacks = [], wq_low_watermark = 0, wq_high_watermark = 1\<rparr>"

definition example_client0 :: client where
  "example_client0 = (case client_init (aq_new 1) example_ids 5000 30000 10000 DEFAULT_STOMP_HOST None None
     DEFAULT_STOMP_DESTINATION of Inr c \<Rightarrow> c)"

definition example_client :: client where
  "example_client = snd (client_connection_made 0 False \<lparr>t_out = [], t_closing = False, t_reading = True\<rparr> example_client0)"

definition example_csys :: client_sys where
  "example_csys = \<lparr>z_client = example_client, z_taken = [], z_sent = [], z_received = [], z_broken = False\<rparr>"

lemma example_client0_init:
  "client_init (aq_new 1) example_ids 5000 30000 10000 DEFAULT_STOMP_HOST None None DEFAULT_STOMP_DESTINATION =
     Inr example_client0"
  by (simp add: example_client0_def client_init_def proto_init_def)

lemma example_csys_reached: "reaches client_start (client_step fmt) example_csys"
proof -
  let ?z = "\<lparr>z_client = example_client0, z_taken = [], z_sent = [], z_received = [], z_broken = False\<rparr>"
  have "wq_new 1 None = Inr example_ids" by (simp add: wq_new_def example_ids_def)
  then have "client_start ?z" using example_client0_init unfolding client_start_def by blast
  moreover have "pr_transport example_client0 = None"
    by (simp add: example_client0_def client_init_def proto_init_def proto.defs)
  then have "client_step fmt ?z example_csys"
    using cstep_own [OF cstep_made [of ?z "\<lparr>t_out = [], t_closing = False, t_reading = True\<rparr>" fmt 0 False]]
    by (simp add: example_csys_def example_client_def)
  ultimately show ?thesis by (blast intro: reaches_init reaches_step)
qed

theorem client_queue_protocol_witness:
  "\<exists>ids. z_taken example_csys @ aq_items (pr_recv_queue (z_client example_csys)) =
    map Some ids @ (if pr_connection_lost (z_client example_csys) then [None] else [])"
  by (rule client_queue_protocol [OF example_csys_reached])

theorem client_writes_in_order_witness:
  "\<exists>cs ms ds. list_all2 prints (cs @ map (send_frame_of (c_send_destination example_client)) ms @ ds)
      (filter (\<lambda>b. b \<noteq> [NL]) (out_of example_client)) \<and> ms = [] \<and> ds = []"
  using client_writes_in_order [OF example_csys_reached] by (fastforce simp: example_csys_def)

end
