(* ===== verification/Aio_Queues.thy ===== *)
theory Aio_Queues
  imports Aio_Server Aio_Client
begin

text \<open>
  What the protocols of \<^verbatim>\<open>swpt_stomp/aio_protocols.py\<close> do to the two queues that they share with a
  message processor: the callbacks of a connection only add items to the receive queue, and only the
  writer takes items from the send queue.
\<close>

declare lit_simps [simp del]

section \<open>The base class\<close>

definition grows :: "'v option list \<Rightarrow> ('u, 'v, 'x) proto_scheme \<Rightarrow> ('u, 'v, 'x) proto_scheme \<Rightarrow> bool" where
  "grows xs s s' \<longleftrightarrow> pr_send_queue s' = pr_send_queue s \<and>
     aq_items (pr_recv_queue s') = aq_items (pr_recv_queue s) @ xs \<and>
     aq_unfinished (pr_recv_queue s') = aq_unfinished (pr_recv_queue s) + length xs"

lemma queues_kept [simp]:
  "pr_recv_queue (run_callbacks cbs s) = pr_recv_queue s" "pr_send_queue (run_callbacks cbs s) = pr_send_queue s"
  "pr_recv_queue (snd (write_frame f s)) = pr_recv_queue s" "pr_send_queue (snd (write_frame f s)) = pr_send_queue s"
  "pr_recv_queue (snd (proto_close s)) = pr_recv_queue s" "pr_send_queue (snd (proto_close s)) = pr_send_queue s"
  "pr_recv_queue (abort s) = pr_recv_queue s" "pr_send_queue (abort s) = pr_send_queue s"
  "pr_recv_queue (end_writer s) = pr_recv_queue s" "pr_send_queue (end_writer s) = pr_send_queue s"
  "pr_recv_queue (end_watchdog s) = pr_recv_queue s" "pr_send_queue (end_watchdog s) = pr_send_queue s"
  by (simp_all add: run_callbacks_def write_frame_def transport_write_def proto_close_def abort_def end_writer_def
      end_watchdog_def split: option.splits sum.splits)

lemma timer_queues [simp]:
  "pr_recv_queue (snd (fire_timer now i s)) = pr_recv_queue s" "pr_send_queue (snd (fire_timer now i s)) = pr_send_queue s"
  by (simp_all add: fire_timer_def Let_def detect_connected_timeout_def send_heartbeat_def transport_write_def
      split: timer.splits option.splits)

lemma grows_Nil: "pr_recv_queue s' = pr_recv_queue s \<Longrightarrow> pr_send_queue s' = pr_send_queue s \<Longrightarrow> grows [] s s'"
  by (simp add: grows_def)

lemma grows_trans: "grows xs s s' \<Longrightarrow> grows ys s' s'' \<Longrightarrow> grows (xs @ ys) s s''"
  by (simp add: grows_def)

lemma grows_recv_put: "grows (if fst (recv_put x s) = None then [x] else []) s (snd (recv_put x s))"
proof (cases "put_nowait x (pr_recv_queue s)")
  case (Inr p)
  then obtain cbs q where p: "put_nowait x (pr_recv_queue s) = Inr (cbs, q)" by (cases p) simp
  with put_nowait_unfinished [OF p] show ?thesis by (simp add: grows_def recv_put_def)
qed (simp add: grows_def recv_put_def)

lemma grows_made: "grows [] s (base_connection_made now starts t s)"
  by (simp add: grows_def base_connection_made_def Let_def add_high_watermark_callback_def add_low_watermark_callback_def)

lemma remove_callback_items:
  "remove_high_watermark_callback cb q = Inr q' \<or> remove_low_watermark_callback cb q = Inr q' \<Longrightarrow>
     aq_items q' = aq_items q \<and> aq_unfinished q' = aq_unfinished q"
  by (auto simp: remove_high_watermark_callback_def remove_low_watermark_callback_def split: if_splits)

lemma grows_lost: "\<exists>xs. set xs \<subseteq> {None} \<and> grows xs s (snd (connection_lost s))"
proof -
  let ?s = "cancel_watchdog (cancel_writer (s\<lparr>pr_connection_lost := True, pr_done := True\<rparr>))"
  have base: "pr_recv_queue ?s = pr_recv_queue s" "pr_send_queue ?s = pr_send_queue s"
    by (simp_all add: cancel_watchdog_def cancel_writer_def)
  show ?thesis
  proof (cases "pr_transport ?s = None")
    case True
    with base show ?thesis by (intro exI [of _ "[]"]) (simp add: connection_lost_def Let_def grows_def)
  next
    case False
    show ?thesis
    proof (cases "remove_high_watermark_callback PauseReading (pr_recv_queue ?s)")
      case (Inl e)
      with False base show ?thesis by (intro exI [of _ "[]"]) (simp add: connection_lost_def Let_def grows_def)
    next
      case (Inr q1)
      note q1 = Inr remove_callback_items [OF disjI1 [OF Inr]]
      show ?thesis
      proof (cases "remove_low_watermark_callback ResumeReading q1")
        case (Inl e)
        with False base q1 show ?thesis by (intro exI [of _ "[]"]) (simp add: connection_lost_def Let_def grows_def)
      next
        case (Inr q2)
        note q2 = Inr remove_callback_items [OF disjI2 [OF Inr]]
        let ?t = "?s\<lparr>pr_recv_queue := q2\<rparr>"
        have "snd (connection_lost s) = snd (recv_put None ?t)"
          using False q1(1) q2(1) by (auto simp: connection_lost_def Let_def)
        moreover have "grows [] s ?t" using base q1 q2 by (simp add: grows_def)
        from grows_trans [OF this grows_recv_put [of None ?t]]
        have "grows (if fst (recv_put None ?t) = None then [None] else []) s (snd (recv_put None ?t))" by simp
        ultimately show ?thesis
          by (intro exI [of _ "if fst (recv_put None ?t) = None then [None] else []"]) auto
      qed
    qed
  qed
qed

text \<open>With the items \<open>ys\<close> that are taken from the send queue.\<close>

definition moves ::
  "'v option list \<Rightarrow> 'u send_item list \<Rightarrow> ('u, 'v, 'x) proto_scheme \<Rightarrow> ('u, 'v, 'x) proto_scheme \<Rightarrow> bool" where
  "moves xs ys s s' \<longleftrightarrow>
     aq_items (pr_recv_queue s') = aq_items (pr_recv_queue s) @ xs \<and>
     aq_unfinished (pr_recv_queue s') = aq_unfinished (pr_recv_queue s) + length xs \<and>
     aq_items (pr_send_queue s) = ys @ aq_items (pr_send_queue s') \<and>
     aq_maxsize (pr_send_queue s') = aq_maxsize (pr_send_queue s) \<and>
     aq_put_task (pr_send_queue s') = aq_put_task (pr_send_queue s)"

primrec payloads :: "'u send_item list \<Rightarrow> 'u list" where
  "payloads [] = []"
| "payloads (x # xs) = (case x of Payload u \<Rightarrow> u # payloads xs | Stop _ \<Rightarrow> payloads xs)"

lemma payloads_append [simp]: "payloads (xs @ ys) = payloads xs @ payloads ys"
  by (induction xs) (auto split: send_item.splits)

lemma payloads_map [simp]: "payloads (map Payload us) = us"
  by (induction us) auto

lemma payloads_Payload: "Payload u \<in> set xs \<longleftrightarrow> u \<in> set (payloads xs)"
  by (induction xs) (auto split: send_item.splits)

lemma moves_grows: "grows xs s s' \<Longrightarrow> moves xs [] s s'"
  by (simp add: grows_def moves_def)

lemma moves_task_done: "moves xs ys s s' \<Longrightarrow> moves xs ys s (snd (send_task_done s'))"
  by (auto simp: moves_def send_task_done_def aq_task_done_def split: sum.splits if_splits)

lemma moves_taken:
  assumes "aq_get (pr_send_queue s) = Some (x, q)" and "grows xs (s\<lparr>pr_send_queue := q\<rparr>) s'"
  shows "moves xs [x] s s'"
proof -
  have "aq_items (pr_send_queue s) = x # aq_items q" "aq_maxsize q = aq_maxsize (pr_send_queue s)"
    "aq_put_task q = aq_put_task (pr_send_queue s)"
    using assms(1) by (auto simp: aq_get_def split: list.splits)
  with assms(2) show ?thesis by (simp add: moves_def grows_def)
qed

text \<open>The writer: it takes nothing, or one item, which it passes to the protocol.\<close>

lemma moves_writer:
  fixes send_frame :: "'u \<Rightarrow> ('u, 'v, 'x) proto_scheme \<Rightarrow> ('u, 'v, 'x) proto_scheme res"
  assumes send: "\<And>u s. R s (snd (send_frame u s))" and close: "\<And>err s. R s (snd (close_gracefully err s))"
    and R: "\<And>s s'. R s s' \<Longrightarrow> \<exists>xs. grows xs s s' \<and> Q xs s s'"
    and Q: "\<And>xs s s' q w t. Q xs (s\<lparr>pr_send_queue := q\<rparr>) s' \<Longrightarrow> Q xs s (s'\<lparr>pr_send_queue := t, pr_writer := w\<rparr>) \<and>
      Q xs s (end_writer (s'\<lparr>pr_send_queue := t\<rparr>))"
    and Q0: "\<And>s w. Q [] s s \<and> Q [] s (s\<lparr>pr_writer := w\<rparr>)"
  shows "\<exists>xs ys. moves xs ys s (snd (process_send_queue send_frame close_gracefully s)) \<and>
    Q xs s (snd (process_send_queue send_frame close_gracefully s)) \<and>
    ys = (if pr_writer s = WaitItem \<and> aq_items (pr_send_queue s) \<noteq> [] then [hd (aq_items (pr_send_queue s))] else [])"
proof (cases "pr_writer s = WaitItem \<and> aq_get (pr_send_queue s) \<noteq> None")
  case False
  then have "aq_items (pr_send_queue s) = []" if "pr_writer s = WaitItem" using that aq.get_None_iff by (metis aq_get_simps(2) list.exhaust option.distinct(1))
  with False Q0 show ?thesis
    by (intro exI [of _ "[]"] exI [of _ "[]"])
      (auto simp: process_send_queue_def moves_def split: writer.splits option.splits)
next
  case True
  then obtain x q where get: "aq_get (pr_send_queue s) = Some (x, q)" by auto
  then have hd: "aq_items (pr_send_queue s) \<noteq> []" "hd (aq_items (pr_send_queue s)) = x"
    by (auto simp: aq_get_def split: list.splits)
  define r where "r = (case x of Payload u \<Rightarrow> send_frame u (s\<lparr>pr_send_queue := q\<rparr>) | Stop err \<Rightarrow> close_gracefully err (s\<lparr>pr_send_queue := q\<rparr>))"
  have "R (s\<lparr>pr_send_queue := q\<rparr>) (snd r)" by (simp add: r_def send close split: send_item.splits)
  then obtain xs where xs: "grows xs (s\<lparr>pr_send_queue := q\<rparr>) (snd r)" "Q xs (s\<lparr>pr_send_queue := q\<rparr>) (snd r)"
    using R by blast
  have mv: "moves xs [x] s (snd r)" by (rule moves_taken [OF get xs(1)])
  define r' where "r' = thenE r send_task_done"
  have r': "\<exists>t. snd r' = (snd r)\<lparr>pr_send_queue := t\<rparr>"
    by (cases r; cases "fst r") (auto simp: r'_def send_task_done_def split: sum.splits intro: exI [of _ "pr_send_queue (snd r)"])
  have "moves xs [x] s (snd r')" unfolding r'_def
    by (rule thenE_inv [where P = "moves xs [x] s"]) (use mv moves_task_done in auto)
  moreover have res: "\<exists>w. snd (process_send_queue send_frame close_gracefully s) = (snd r')\<lparr>pr_writer := w\<rparr> \<or>
      snd (process_send_queue send_frame close_gracefully s) = end_writer (snd r')"
    using True get by (auto simp: process_send_queue_def r'_def r_def case_prod_beta split: send_item.splits prod.splits option.splits)
  ultimately have "moves xs [x] s (snd (process_send_queue send_frame close_gracefully s))"
    by (auto simp: moves_def)
  moreover have "Q xs s (snd (process_send_queue send_frame close_gracefully s))"
    using res r' Q [OF xs(2)] by auto
  ultimately show ?thesis using True hd by (intro exI [of _ xs] exI [of _ "[x]"]) simp
qed

section \<open>The server\<close>

text \<open>The identifier of the last message among the items of the receive queue.\<close>

definition last_id :: "message option list \<Rightarrow> str option \<Rightarrow> str option" where
  "last_id xs i = fold (\<lambda>x i. case x of Some m \<Rightarrow> Some (m_id m) | None \<Rightarrow> i) xs i"

lemma last_id_simps [simp]:
  "last_id [] i = i" "last_id (xs @ ys) i = last_id ys (last_id xs i)" "last_id [Some m] i = Some (m_id m)"
  "last_id [None] i = i"
  by (simp_all add: last_id_def)

lemma last_id_None: "set xs \<subseteq> {None} \<Longrightarrow> last_id xs i = i"
  by (induction xs) (auto simp: last_id_def)

lemma last_id_map: "last_id (map Some ms) i = (if ms = [] then i else Some (m_id (last ms)))"
  by (induction ms arbitrary: i rule: rev_induct) auto

definition server_grows :: "server \<Rightarrow> server \<Rightarrow> bool" where
  "server_grows s s' \<longleftrightarrow>
     (\<exists>xs. grows xs s s' \<and> s_last_message_id s' = last_id xs (s_last_message_id s))"

lemma server_grows_refl [simp]: "server_grows s s"
  by (auto simp: server_grows_def grows_def intro!: exI [of _ "[]"])

lemma server_grows_trans: "server_grows s s' \<Longrightarrow> server_grows s' s'' \<Longrightarrow> server_grows s s''"
  unfolding server_grows_def by (metis grows_trans last_id_simps(2))

lemma server_grows_same:
  "pr_recv_queue s' = pr_recv_queue s \<Longrightarrow> pr_send_queue s' = pr_send_queue s \<Longrightarrow>
   s_last_message_id s' = s_last_message_id s \<Longrightarrow> server_grows s s'"
  by (auto simp: server_grows_def grows_def intro!: exI [of _ "[]"])

text \<open>A handler that only extends what its first part has done.\<close>

lemma server_grows_thenE:
  assumes "server_grows s (snd r)" and "\<And>s. server_grows s (snd (k s))"
  shows "server_grows s (snd (thenE r k))"
  by (rule thenE_inv [where P = "server_grows s"]) (use assms server_grows_trans in blast)+

lemma last_message_kept [simp]:
  fixes s :: server
  shows "s_last_message_id (snd (write_frame f s)) = s_last_message_id s"
  "s_last_message_id (snd (proto_close s)) = s_last_message_id s"
  "s_last_message_id (run_callbacks cbs s) = s_last_message_id s"
  "s_last_message_id (snd (recv_put x s)) = s_last_message_id s"
  "s_last_message_id (abort s) = s_last_message_id s"
  "s_last_message_id (end_writer s) = s_last_message_id s"
  "s_last_message_id (end_watchdog s) = s_last_message_id s"
  using same_ids_write_frame [of s f] same_ids_close [of s] same_ids_recv_put [of s x]
  by (simp_all add: same_ids_def run_callbacks_def abort_def end_writer_def end_watchdog_def)

lemma server_grows_write: "server_grows s (snd (write_frame f s))"
  by (rule server_grows_same) simp_all

lemma server_grows_close: "server_grows s (snd (proto_close s))"
  by (rule server_grows_same) simp_all

lemma server_grows_error:
  "server_grows s (snd (server_close_with_error m r c ct cct s))" "server_grows s (snd (server_close_with_warning m s))"
  "server_grows s (snd (server_error_close m s))" "server_grows s (snd (server_close_gracefully err s))"
proof -
  have send: "server_grows s (snd (send_error_frame m r c ct cct s))" for m r c ct cct s
    by (simp add: send_error_frame_def server_grows_write split: option.splits)
  then show 1: "server_grows s (snd (server_close_with_error m r c ct cct s))" for m r c ct cct s
    unfolding server_close_with_error_def by (intro server_grows_thenE server_grows_close)
  show "server_grows s (snd (server_close_with_warning m s))"
    unfolding server_close_with_warning_def by (intro server_grows_thenE send server_grows_close)
  show "server_grows s (snd (server_error_close m s))" by (simp add: server_error_close_def 1)
  show "server_grows s (snd (server_close_gracefully err s))"
    by (simp add: server_close_gracefully_def server_error_close_def 1 split: option.splits)
qed

lemma server_grows_connect:
  assumes "\<And>m s. server_grows s (snd (f m s))"
  shows "server_grows s (snd (proto_connect f hb s))"
  unfolding proto_connect_def
  by (cases "parse_heartbeat_header hb") (auto simp: assms Let_def intro!: server_grows_same)

lemma server_grows_frame: "server_grows s (snd (server_frame now f s))"
proof -
  have connect: "server_grows s (snd (received_connect_command now f s))"
  proof -
    have "server_grows (s\<lparr>pr_started_at := now\<rparr>) (snd (proto_connect server_error_close hb (s\<lparr>pr_started_at := now\<rparr>)))" for hb
      by (intro server_grows_connect server_grows_error)
    moreover have "server_grows s (s\<lparr>pr_started_at := now\<rparr>)" by (rule server_grows_same) simp_all
    ultimately have "server_grows s (snd (proto_connect server_error_close hb (s\<lparr>pr_started_at := now\<rparr>)))" for hb
      by (meson server_grows_trans)
    then show ?thesis unfolding received_connect_command_def
      by (auto intro!: server_grows_thenE server_grows_error simp: server_grows_write)
  qed
  have send: "server_grows s (snd (received_send_command f s))"
  proof -
    have "server_grows s (snd (thenE (recv_put (Some m) s) (\<lambda>s. (None, s\<lparr>s_last_message_id := Some (m_id m)\<rparr>))))" for m
    proof (cases "recv_put (Some m) s")
      case (Pair e s')
      with grows_recv_put [of "Some m" s] last_message_kept(4) [of "Some m" s] show ?thesis
        by (cases e) (auto simp: server_grows_def grows_def)
    qed
    note put = this [where ?m.0 = "\<lparr>m_id = i, m_type = ty, m_body = b, m_content_type = ct\<rparr>" for i ty b ct, simplified]
    show ?thesis unfolding received_send_command_def Let_def
      by (auto simp: server_grows_error put split: sum.splits)
  qed
  have "server_grows s (snd (received_disconnect_command f s))"
  proof -
    have "server_grows s (snd (send_receipt_command r s))" for r s
      by (simp add: send_receipt_command_def server_grows_write)
    moreover have "server_grows s (s\<lparr>s_disconnect_receipt_id := r\<rparr>)" for r by (rule server_grows_same) simp_all
    ultimately show ?thesis unfolding received_disconnect_command_def Let_def
      by (auto simp: server_grows_error server_grows_close split: option.splits
          intro!: server_grows_thenE intro: server_grows_trans)
  qed
  with connect send show ?thesis by (simp add: server_frame_def server_grows_error)
qed

lemma server_grows_frames: "server_grows s (snd (server_frames now fs s))"
proof (induction fs arbitrary: s)
  case (Cons f fs)
  let ?s = "s\<lparr>pr_parser := (pr_parser s)\<lparr>p_frames := fs\<rparr>\<rparr>"
  have "server_grows s ?s" by (rule server_grows_same) simp_all
  then have "server_grows s (snd (server_frame now f ?s))" using server_grows_frame server_grows_trans by blast
  with Cons.IH show ?case by (auto intro!: server_grows_thenE)
qed simp

lemma server_grows_data:
  assumes "server_data_received now d s = Some (e, s')"
  shows "server_grows s s'"
proof -
  have tick: "server_grows s (base_data_received now s)" "server_grows s ((base_data_received now s)\<lparr>pr_parser := p\<rparr>)" for p
    by (rule server_grows_same; simp add: base_data_received_def)+
  have "server_grows s (snd (server_frames now fs ((base_data_received now s)\<lparr>pr_parser := p\<rparr>)))"
    "server_grows s (snd (server_error_close m ((base_data_received now s)\<lparr>pr_parser := p\<rparr>)))" for fs p m
    using tick server_grows_frames server_grows_error(3) by (blast intro: server_grows_trans)+
  then show ?thesis using assms tick
    by (auto simp: server_data_received_def Let_def split: option.splits if_splits sum.splits parse_exc.splits)
      (metis snd_conv)+
qed

lemma server_moves_writer:
  "\<exists>xs ys. moves xs ys s (snd (server_writer s)) \<and> s_last_message_id (snd (server_writer s)) = last_id xs (s_last_message_id s) \<and>
     payloads ys = next_payload s"
proof -
  have "server_grows s (snd (server_send_frame r s))" for r s
  proof -
    have "server_grows s (snd (send_receipt_command r s))" for r s
      by (simp add: send_receipt_command_def server_grows_write)
    moreover have "server_grows s (s\<lparr>s_last_receipt_id := r\<rparr>)" for r s by (rule server_grows_same) simp_all
    ultimately show ?thesis unfolding server_send_frame_def
      by (auto simp: server_grows_close split: option.splits intro!: server_grows_thenE)
  qed
  from moves_writer [where R = server_grows and Q = "\<lambda>xs s s'. s_last_message_id s' = last_id xs (s_last_message_id s)"
      and s = s, OF this server_grows_error(4)]
  show ?thesis unfolding server_writer_def next_payload_def
    by (fastforce simp: server_grows_def split: list.splits send_item.splits)
qed

text \<open>What the protocol does to the queues in one step.\<close>

lemma server_own_moves:
  assumes "server_own fmt y y'"
  shows "\<exists>xs ys. moves xs ys (y_server y) (y_server y') \<and>
    s_last_message_id (y_server y') = last_id xs (s_last_message_id (y_server y)) \<and>
    y_taken y' = y_taken y \<and> y_confirmed y' = y_confirmed y @ payloads ys"
proof -
  have grown: ?thesis if "server_grows (y_server y) (y_server y')" "y_taken y' = y_taken y" "y_confirmed y' = y_confirmed y"
    using that moves_grows unfolding server_grows_def by (fastforce intro: exI [of _ "[]"])
  from assms show ?thesis
  proof cases
    case (step_made t now starts)
    then show ?thesis using grows_made [of "y_server y" now starts t]
      by (intro grown) (auto simp: server_grows_def base_connection_made_def Let_def run_callbacks_def
          add_high_watermark_callback_def add_low_watermark_callback_def intro!: exI [of _ "[]"])
  next
    case (step_data now d e s)
    from server_grows_data [OF step_data(5)] have "server_grows (y_server y) s" .
    moreover have "server_grows s (abort s)" by (rule server_grows_same) simp_all
    ultimately show ?thesis using step_data(1) server_grows_trans by (intro grown) auto
  next
    case step_lost
    let ?s = "abort (y_server y)"
    obtain xs where "set xs \<subseteq> {None}" "grows xs ?s (snd (connection_lost ?s))" using grows_lost by blast
    moreover have "s_last_message_id (snd (connection_lost ?s)) = s_last_message_id (y_server y)"
      by (simp add: connection_lost_def Let_def abort_def cancel_writer_def cancel_watchdog_def recv_put_def
          run_callbacks_def split: sum.splits)
    ultimately show ?thesis using step_lost(1)
      by (intro grown) (auto simp: server_grows_def grows_def last_id_None intro!: exI [of _ xs])
  next
    case (step_timer now i)
    have "s_last_message_id (snd (fire_timer now i (y_server y))) = s_last_message_id (y_server y)"
      by (simp add: fire_timer_def Let_def detect_connected_timeout_def send_heartbeat_def transport_write_def
          split: timer.splits option.splits)
    then show ?thesis using step_timer by (intro grown server_grows_same) simp_all
  next
    case (step_watchdog now)
    have "server_grows s (end_watchdog s)" "server_grows s (s\<lparr>pr_watchdog := w\<rparr>)" for s w
      by (rule server_grows_same; simp)+
    then show ?thesis using step_watchdog server_grows_error(2)
      by (intro grown) (auto simp: check_aliveness_def case_prod_beta split: watchdog.splits intro: server_grows_trans)
  next
    case step_writer
    then show ?thesis using server_moves_writer [of "y_server y"] by fastforce
  qed (intro grown; simp add: pause_writing_def resume_writing_def server_grows_same)+
qed

text \<open>The last message received is the last one that was put into the receive queue.\<close>

definition server_ok :: "server_sys \<Rightarrow> bool" where
  "server_ok y \<longleftrightarrow> server_inv (y_taken y) (y_confirmed y) (y_server y) \<and>
     s_last_message_id (y_server y) = last_id (y_taken y @ aq_items (pr_recv_queue (y_server y))) None"

lemma server_ok_step:
  assumes "server_ok y" and "server_step fmt y y'"
  shows "server_ok y'"
proof -
  have inv: "server_inv (y_taken y') (y_confirmed y') (y_server y')"
    using assms by (auto simp: server_ok_def intro: server_inv_step)
  have "s_last_message_id (y_server y') = last_id (y_taken y' @ aq_items (pr_recv_queue (y_server y'))) None"
    using assms(2)
  proof cases
    case step_own
    from server_own_moves [OF this] assms(1) show ?thesis by (auto simp: moves_def server_ok_def)
  next
    case (step_consume x q)
    with assms(1) wq_get_fields [OF step_consume(2)] show ?thesis
      by (auto simp: server_ok_def simp flip: last_id_simps(2))
  next
    case (step_consumed cbs q)
    with assms(1) task_done_fields [OF step_consumed(2)] show ?thesis by (simp add: server_ok_def)
  qed (use assms(1) in \<open>simp_all add: server_ok_def processor_done_def\<close>)
  with inv show ?thesis by (simp add: server_ok_def)
qed

lemma server_ok_start: "server_start y \<Longrightarrow> server_ok y"
  using server_inv_start [of y]
  by (auto simp: server_ok_def server_start_def server_init_def proto_init_def wq_new_def proto.defs server.defs
      Let_def split: if_splits)

interpretation server_run: inductive_invariant server_start "server_step fmt" server_ok for fmt
  by unfold_locales (rule server_ok_start, assumption, rule server_ok_step)

section \<open>The client\<close>

definition client_grows :: "client \<Rightarrow> client \<Rightarrow> bool" where
  "client_grows c c' \<longleftrightarrow> (\<exists>xs. grows xs c c')"

lemma client_grows_trans: "client_grows c c' \<Longrightarrow> client_grows c' c'' \<Longrightarrow> client_grows c c''"
  unfolding client_grows_def by (metis grows_trans)

lemma client_grows_same:
  "pr_recv_queue c' = pr_recv_queue c \<Longrightarrow> pr_send_queue c' = pr_send_queue c \<Longrightarrow> client_grows c c'"
  by (auto simp: client_grows_def intro: grows_Nil)

lemma client_grows_thenE:
  assumes "client_grows c (snd r)" and "\<And>c. client_grows c (snd (k c))"
  shows "client_grows c (snd (thenE r k))"
  by (rule thenE_inv [where P = "client_grows c"]) (use assms client_grows_trans in blast)+

lemma client_grows_basic:
  "client_grows c c" "client_grows c (snd (write_frame f c))" "client_grows c (snd (proto_close c))"
  "client_grows c (snd (client_close_with_error m c))" "client_grows c (snd (client_close_with_warning m c))"
  by (rule client_grows_same; simp add: client_close_with_error_def client_close_with_warning_def)+

lemma client_grows_put: "client_grows c (snd (recv_put x c))"
  using grows_recv_put [of x c] by (auto simp: client_grows_def)

lemma client_grows_connect: "client_grows c (snd (proto_connect client_close_with_error hb c))"
  unfolding proto_connect_def
  by (cases "parse_heartbeat_header hb") (auto simp: client_grows_basic Let_def intro!: client_grows_same)

lemma client_grows_frame: "client_grows c (snd (client_frame f c))"
proof -
  have "client_grows c (c\<lparr>c_last_receipt_id := r\<rparr>)" "client_grows c (snd (proto_close (c\<lparr>c_last_receipt_id := r\<rparr>)))" for c r
    by (rule client_grows_same; simp)+
  then have "client_grows c (snd (received_receipt_command f c))" unfolding received_receipt_command_def Let_def
    by (auto simp: client_grows_basic client_grows_put split: option.splits intro!: client_grows_thenE)
  then show ?thesis
    by (auto simp: client_frame_def received_connected_command_def received_error_command_def client_grows_basic client_grows_connect)
qed

lemma client_grows_frames: "client_grows c (snd (client_frames fs c))"
proof (induction fs arbitrary: c)
  case (Cons f fs)
  let ?c = "c\<lparr>pr_parser := (pr_parser c)\<lparr>p_frames := fs\<rparr>\<rparr>"
  have "client_grows c ?c" by (rule client_grows_same) simp_all
  then have "client_grows c (snd (client_frame f ?c))" using client_grows_frame client_grows_trans by blast
  with Cons.IH show ?case by (auto intro!: client_grows_thenE simp: client_grows_basic)
qed (simp add: client_grows_basic)

lemma client_grows_data:
  assumes "client_data_received now d c = Some (e, c')"
  shows "client_grows c c'"
proof -
  have tick: "client_grows c (base_data_received now c)" "client_grows c ((base_data_received now c)\<lparr>pr_parser := p\<rparr>)" for p
    by (rule client_grows_same; simp add: base_data_received_def)+
  have "client_grows c (snd (client_frames fs ((base_data_received now c)\<lparr>pr_parser := p\<rparr>)))"
    "client_grows c (snd (client_close_with_error m ((base_data_received now c)\<lparr>pr_parser := p\<rparr>)))" for fs p m
    using tick client_grows_frames client_grows_basic(4) by (blast intro: client_grows_trans)+
  then show ?thesis using assms tick
    by (auto simp: client_data_received_def Let_def split: option.splits if_splits sum.splits parse_exc.splits)
      (metis snd_conv)+
qed

lemma client_moves_writer: "\<exists>xs ys. moves xs ys c (snd (client_writer c)) \<and> payloads ys = next_message c"
proof -
  have send: "client_grows c (snd (client_send_frame m c))" for m c
  proof -
    have "client_grows c (c\<lparr>c_last_message_id := i\<rparr>)" for c i by (rule client_grows_same) simp_all
    then show ?thesis unfolding client_send_frame_def
      by (auto simp: client_grows_basic intro!: client_grows_thenE)
  qed
  have "client_grows c (snd (client_close_gracefully err c))" for err c
  proof -
    have "client_grows c (c\<lparr>c_sent_disconnect := b\<rparr>)" for c b by (rule client_grows_same) simp_all
    then show ?thesis unfolding client_close_gracefully_def
      by (auto simp: client_grows_basic split: option.splits intro!: client_grows_thenE)
  qed
  from moves_writer [where R = client_grows and Q = "\<lambda>xs s s'. True" and s = c, OF send this]
  show ?thesis unfolding client_writer_def next_message_def
    by (fastforce simp: client_grows_def split: list.splits send_item.splits)
qed

lemma client_own_moves:
  assumes "client_own fmt z z'"
  shows "\<exists>xs ys. moves xs ys (z_client z) (z_client z') \<and> z_taken z' = z_taken z \<and> z_sent z' = z_sent z @ payloads ys"
proof -
  have grown: ?thesis if "client_grows (z_client z) (z_client z')" "z_taken z' = z_taken z" "z_sent z' = z_sent z"
    using that moves_grows unfolding client_grows_def by (fastforce intro: exI [of _ "[]"])
  from assms show ?thesis
  proof cases
    case (cstep_made t now starts)
    have "client_grows (z_client z) (base_connection_made now starts t (z_client z))"
      unfolding client_grows_def by (rule exI) (rule grows_made)
    then show ?thesis using cstep_made client_grows_basic(2)
      by (intro grown) (auto simp: client_connection_made_def Let_def intro: client_grows_trans)
  next
    case (cstep_data now d e c)
    from client_grows_data [OF cstep_data(5)] have "client_grows (z_client z) c" .
    moreover have "client_grows c (abort c)" by (rule client_grows_same) simp_all
    ultimately show ?thesis using cstep_data(1) client_grows_trans by (intro grown) auto
  next
    case cstep_lost
    let ?c = "abort (z_client z)"
    obtain xs where "grows xs ?c (snd (connection_lost ?c))" using grows_lost by blast
    with cstep_lost(1) show ?thesis by (intro grown) (auto simp: client_grows_def grows_def)
  next
    case (cstep_timer now i)
    then show ?thesis by (intro grown client_grows_same) simp_all
  next
    case (cstep_watchdog now)
    have "client_grows c (end_watchdog c)" "client_grows c (c\<lparr>pr_watchdog := w\<rparr>)" for c w
      by (rule client_grows_same; simp)+
    then show ?thesis using cstep_watchdog client_grows_basic(5)
      by (intro grown) (auto simp: client_grows_basic(1) check_aliveness_def case_prod_beta split: watchdog.splits intro: client_grows_trans)
  next
    case cstep_writer
    then show ?thesis using client_moves_writer [of "z_client z"] by fastforce
  qed (intro grown; simp add: pause_writing_def resume_writing_def client_grows_same)+
qed

end
