(* ===== verification/Subnet.thy ===== *)
theory Subnet
  imports Text
begin

text \<open>
  The identifiers of a Swaptacular network: node types and subnets of 64-bit identifiers,
  from \<^verbatim>\<open>swpt_stomp/peer_data.py\<close>, and their encodings, from
  \<^verbatim>\<open>swpt_stomp/process_messages.py\<close>. Python's integers are unbounded, and so are the
  integers here: an identifier is checked for the range of a signed 64-bit integer where the
  source checks it, and the bitwise operators are those of infinite two's complement.
\<close>

unbundle bit_operations_syntax

section \<open>Node types and subnets\<close>

datatype node_type = AA | CA | DA

record subnet =
  sn_subnet :: int
  sn_mask :: int

definition MIN_INT64 :: int where "MIN_INT64 = - (2 ^ 63)"
definition MAX_INT64 :: int where "MAX_INT64 = 2 ^ 63 - 1"

definition int64 :: "int \<Rightarrow> bool" where
  "int64 n \<longleftrightarrow> MIN_INT64 \<le> n \<and> n \<le> MAX_INT64"

definition subnet_parse :: "str \<Rightarrow> exc + subnet" where
  "subnet_parse s =
     (let n = 4 * length s in
      if 64 < n then Inl ValueError
      else
        (case (if 0 < n then map_option (push_bit (64 - n)) (py_int 16 s) else Some 0) of
           None \<Rightarrow> Inl ValueError
         | Some sub \<Rightarrow>
             if \<not> (0 \<le> sub \<and> sub < 0xffffffffffffffff) then Inl ValueError
             else Inr \<lparr>sn_subnet = sub, sn_mask = push_bit (64 - n) (-1) AND 0xffffffffffffffff\<rparr>))"

definition subnet_match :: "subnet \<Rightarrow> int \<Rightarrow> bool" where
  "subnet_match sn n \<longleftrightarrow> int64 n \<and> n AND sn_mask sn = sn_subnet sn"

text \<open>\<^verbatim>\<open>n.to_bytes(8, byteorder='big')\<close>, unsigned and signed.\<close>

primrec to_be :: "nat \<Rightarrow> int \<Rightarrow> nat list" where
  "to_be 0 n = []"
| "to_be (Suc k) n = to_be k (n div 256) @ [nat (n mod 256)]"

definition be_bytes :: "int \<Rightarrow> nat list" where
  "be_bytes n = to_be 8 n"

definition to_bytes_unsigned :: "int \<Rightarrow> exc + nat list" where
  "to_bytes_unsigned n = (if 0 \<le> n \<and> n < 2 ^ 64 then Inr (be_bytes n) else Inl OverflowError)"

definition to_bytes_signed :: "int \<Rightarrow> exc + nat list" where
  "to_bytes_signed n = (if int64 n then Inr (be_bytes n) else Inl OverflowError)"

text \<open>\<^verbatim>\<open>format(b, '02x')\<close>, and \<^verbatim>\<open>bytes.hex()\<close>.\<close>

definition hex_digit :: "nat \<Rightarrow> nat" where
  "hex_digit d = (if d < 10 then 48 + d else 87 + d)"

definition hex_byte :: "nat \<Rightarrow> str" where
  "hex_byte b = [hex_digit (b div 16), hex_digit (b mod 16)]"

fun py_join :: "'a list \<Rightarrow> 'a list list \<Rightarrow> 'a list" where
  "py_join sep [] = []"
| "py_join sep [x] = x"
| "py_join sep (x # y # xs) = x @ sep @ py_join sep (y # xs)"

text \<open>The loop of \<^verbatim>\<open>binding_key\<close>: the bytes of the subnet that the mask covers.\<close>

fun binding_parts :: "(nat \<times> nat) list \<Rightarrow> exc + str list" where
  "binding_parts [] = Inr []"
| "binding_parts ((sb, mb) # bs) =
     (if mb = 0 then Inr []
      else if mb \<noteq> 0xff then Inl RuntimeError
      else map_sum id ((#) (hex_byte sb)) (binding_parts bs))"

definition binding_key :: "subnet \<Rightarrow> exc + str" where
  "binding_key sn =
     bindE (to_bytes_unsigned (sn_subnet sn)) (\<lambda>subnet_bytes.
     bindE (to_bytes_unsigned (sn_mask sn)) (\<lambda>mask_bytes.
     bindE (binding_parts (zip subnet_bytes mask_bytes)) (\<lambda>parts.
       let n = length parts in
       if n = 0 then Inr (lit ''#'')
       else if n < 8 then Inr (py_join (lit ''.'') parts @ lit ''.#'')
       else if n = 8 then Inr (py_join (lit ''.'') parts)
       else Inl AssertionError)))"

text \<open>\<^verbatim>\<open>_change_subnet\<close> and \<^verbatim>\<open>_as_hex\<close> of \<^verbatim>\<open>process_messages.py\<close>.\<close>

definition change_subnet :: "int \<Rightarrow> subnet \<Rightarrow> subnet \<Rightarrow> exc + int" where
  "change_subnet creditor_id from to =
     (let m = sn_mask from in
      if m \<noteq> sn_mask to then Inl AssertionError
      else
        (let sub = creditor_id AND m in
         if sub \<noteq> sn_subnet from then Inl AssertionError
         else (let relative_id = sub XOR creditor_id in Inr (sn_subnet to OR relative_id))))"

definition as_hex :: "int \<Rightarrow> exc + str" where
  "as_hex n = map_sum id (\<lambda>bs. lit ''0x'' @ concat (map hex_byte bs)) (to_bytes_signed n)"

section \<open>Well-formed subnets\<close>

text \<open>A subnet fixes the first \<open>k\<close> of 64 bits.\<close>

definition wf_subnet_bits :: "nat \<Rightarrow> subnet \<Rightarrow> bool" where
  "wf_subnet_bits k sn \<longleftrightarrow> k \<le> 64 \<and> sn_mask sn = push_bit (64 - k) (mask k) \<and>
     0 \<le> sn_subnet sn \<and> sn_subnet sn AND sn_mask sn = sn_subnet sn"

definition wf_subnet :: "subnet \<Rightarrow> bool" where
  "wf_subnet sn \<longleftrightarrow> (\<exists>k. wf_subnet_bits k sn)"

lemma int64_signed: "int64 n \<longleftrightarrow> signed_take_bit 63 n = n"
  by (auto simp: int64_def MIN_INT64_def MAX_INT64_def signed_take_bit_int_eq_self_iff)

lemma int64_bits: "int64 n \<longleftrightarrow> (\<forall>i\<ge>63. bit n i = bit n 63)"
proof
  assume "int64 n"
  then have eq: "signed_take_bit 63 n = n" by (simp add: int64_signed)
  have "bit (signed_take_bit 63 n) i = bit n 63" if "63 \<le> i" for i
    using that by (simp add: bit_signed_take_bit_iff min_def)
  then show "\<forall>i\<ge>63. bit n i = bit n 63" unfolding eq by blast
next
  assume b: "\<forall>i\<ge>63. bit n i = bit n 63"
  have "signed_take_bit 63 n = n"
  proof (rule bit_eqI)
    fix i
    show "bit (signed_take_bit 63 n) i = bit n i"
    proof (cases "63 \<le> i")
      case True
      with b have "bit n i = bit n 63" by blast
      with True show ?thesis by (simp add: bit_signed_take_bit_iff min_def)
    qed (simp add: bit_signed_take_bit_iff min_def)
  qed
  then show "int64 n" by (simp add: int64_signed)
qed

lemma bit_subnet_mask:
  "wf_subnet_bits k sn \<Longrightarrow> bit (sn_mask sn) i \<longleftrightarrow> 64 - k \<le> i \<and> i < 64"
  by (auto simp: wf_subnet_bits_def bit_push_bit_iff bit_mask_iff)

lemma bit_subnet: "wf_subnet_bits k sn \<Longrightarrow> bit (sn_subnet sn) i \<Longrightarrow> 64 - k \<le> i \<and> i < 64"
  by (metis bit_and_iff bit_subnet_mask wf_subnet_bits_def)

lemma parse_mask: "n \<le> 64 \<Longrightarrow> push_bit (64 - n) (-1) AND 0xffffffffffffffff = push_bit (64 - n) (mask n :: int)"
proof -
  assume n: "n \<le> 64"
  have m: "(0xffffffffffffffff :: int) = mask 64" by (simp add: mask_eq_exp_minus_1)
  show ?thesis
    unfolding m by (rule bit_eqI) (use n in \<open>auto simp: bit_and_iff bit_push_bit_iff bit_mask_iff bit_not_iff\<close>)
qed

section \<open>The size of a hexadecimal number\<close>

lemma digit_val_less: "digit_val b x = Some d \<Longrightarrow> d < b"
  by (auto simp: digit_val_def Let_def split: if_splits)

lemma scan_digits_bound:
  "scan_digits b acc us s = Some (n, rest) \<Longrightarrow> 0 < b \<Longrightarrow> Suc n \<le> Suc acc * b ^ length s"
proof (induction b acc us s arbitrary: n rest rule: scan_digits.induct)
  case (1 b acc us)
  then show ?case by (auto split: if_splits)
next
  case (2 b acc us x s)
  have grow: "m \<le> m * b" for m using 2(4) by simp
  consider "x = 95" "scan_digits b acc True s = Some (n, rest)"
    | d where "x \<noteq> 95" "digit_val b x = Some d" "scan_digits b (acc * b + d) False s = Some (n, rest)"
    | "n = acc"
    using 2(3) by (auto split: if_splits option.splits)
  then show ?case
  proof cases
    case 1
    then have "Suc n \<le> Suc acc * b ^ length s" using 2(1,3,4) by (simp split: if_splits)
    with grow [of "Suc acc * b ^ length s"] show ?thesis by (simp add: algebra_simps)
  next
    case (2 d)
    then have "Suc n \<le> Suc (acc * b + d) * b ^ length s" using "2.IH"(2) "2.prems"(2) by simp
    also have "Suc (acc * b + d) \<le> Suc acc * b" using digit_val_less [OF 2(2)] by simp
    then have "Suc (acc * b + d) * b ^ length s \<le> Suc acc * b * b ^ length s" by (rule mult_le_mono1)
    finally show ?thesis by (simp add: algebra_simps)
  next
    case 3
    have "1 \<le> b ^ length (x # s)" using 2(4) by (simp add: Suc_leI)
    with 3 show ?thesis by (metis mult.right_neutral mult_le_mono2)
  qed
qed

lemma scan_number_bound: "scan_number b s = Some n \<Longrightarrow> 0 < b \<Longrightarrow> n < b ^ length s"
proof -
  assume s: "scan_number b s = Some n" and b: "0 < b"
  then obtain x t d rest where st: "s = x # t" "digit_val b x = Some d" "scan_digits b d False t = Some (n, rest)"
    by (auto simp: scan_number_def split: list.splits option.splits prod.splits if_splits)
  have "Suc n \<le> Suc d * b ^ length t" using scan_digits_bound [OF st(3) b] .
  also have "\<dots> \<le> b * b ^ length t" using digit_val_less [OF st(2)] by (intro mult_le_mono1) simp
  finally show ?thesis using st(1) by simp
qed

lemma skip_prefix_length: "length (skip_prefix b s) \<le> length s"
  by (auto simp: skip_prefix_def split: list.splits)

lemma py_int_bound:
  assumes "py_int 16 s = Some v"
  shows "v < 16 ^ length s"
proof -
  define t where "t = dropWhile blank (map to_ascii s)"
  have lt: "length t \<le> length s" by (simp add: t_def) (metis length_dropWhile_le length_map)
  have small: "int n < 16 ^ length s" if "scan_number 16 (skip_prefix 16 u) = Some n" "length u \<le> length s" for u n
  proof -
    have "n < 16 ^ length (skip_prefix 16 u)" using scan_number_bound [OF that(1)] by simp
    also have "(16::nat) ^ length (skip_prefix 16 u) \<le> 16 ^ length s"
      using skip_prefix_length [of 16 u] that(2) by (intro power_increasing) simp_all
    finally have "int n < int (16 ^ length s)" by (simp only: of_nat_less_iff)
    then show ?thesis by simp
  qed
  obtain x u where xu: "t = x # u" using assms by (cases t) (auto simp: py_int_def t_def [symmetric])
  have pos: "- int n < 16 ^ length s" for n
    by (rule order_le_less_trans [of _ 0]) simp_all
  from assms xu show ?thesis
    using small [of u] small [of t] lt pos
    by (auto simp: py_int_def t_def [symmetric] split: if_splits)
qed

section \<open>Parsing a subnet\<close>

lemma py_int_shift:
  assumes "py_int 16 s = Some v" and "4 * length s \<le> 64" and "0 \<le> push_bit (64 - 4 * length s) v"
  shows "push_bit (64 - 4 * length s) v AND push_bit (64 - 4 * length s) (mask (4 * length s)) =
    push_bit (64 - 4 * length s) v"
proof -
  let ?n = "4 * length s"
  have "v < 2 ^ ?n" using py_int_bound [OF assms(1)] by (simp add: power_mult)
  moreover have "0 \<le> v" using assms(3) by (simp add: push_bit_nonnegative_int_iff)
  ultimately have "take_bit ?n v = v" by (simp add: take_bit_int_eq_self)
  then have "v AND mask ?n = v" by (simp add: take_bit_eq_mask)
  then show ?thesis by (simp flip: push_bit_and)
qed

lemma subnet_parse_bits:
  assumes "subnet_parse s = Inr sn"
  shows "wf_subnet_bits (4 * length s) sn" and "s \<noteq> [] \<Longrightarrow> \<exists>v. py_int 16 s = Some v \<and> sn_subnet sn = push_bit (64 - 4 * length s) v"
proof -
  let ?n = "4 * length s"
  from assms have n: "?n \<le> 64" by (auto simp: subnet_parse_def Let_def split: if_splits)
  from assms obtain sub where sub: "(if 0 < ?n then map_option (push_bit (64 - ?n)) (py_int 16 s) else Some 0) = Some sub"
    and sn: "0 \<le> sub" "sn = \<lparr>sn_subnet = sub, sn_mask = push_bit (64 - ?n) (mask ?n)\<rparr>"
    using parse_mask [OF n] by (auto simp: subnet_parse_def Let_def split: if_splits option.splits)
  show "\<exists>v. py_int 16 s = Some v \<and> sn_subnet sn = push_bit (64 - ?n) v" if "s \<noteq> []"
    using sub sn(2) that by auto
  show "wf_subnet_bits ?n sn"
  proof (cases "s = []")
    case True
    with sub sn show ?thesis by (simp add: wf_subnet_bits_def)
  next
    case False
    with sub obtain v where "py_int 16 s = Some v" "sub = push_bit (64 - ?n) v" by auto
    with py_int_shift [OF this(1) n] sn n show ?thesis by (simp add: wf_subnet_bits_def)
  qed
qed

text \<open>What it means for an identifier to be in a subnet of \<open>k\<close> bits: its first \<open>k\<close> bits are those of the subnet.\<close>

lemma subnet_match_bits:
  assumes "wf_subnet_bits k sn"
  shows "subnet_match sn n \<longleftrightarrow> int64 n \<and> (\<forall>i. 64 - k \<le> i \<and> i < 64 \<longrightarrow> bit n i = bit (sn_subnet sn) i)"
proof -
  have "n AND sn_mask sn = sn_subnet sn \<longleftrightarrow> (\<forall>i. bit (n AND sn_mask sn) i = bit (sn_subnet sn) i)"
    by (auto simp: bit_eq_iff)
  also have "\<dots> \<longleftrightarrow> (\<forall>i. 64 - k \<le> i \<and> i < 64 \<longrightarrow> bit n i = bit (sn_subnet sn) i)"
    using bit_subnet_mask [OF assms] bit_subnet [OF assms] by (auto simp: bit_and_iff)
  finally show ?thesis by (simp add: subnet_match_def)
qed

section \<open>Changing the subnet\<close>

lemma change_subnet_bits:
  assumes "wf_subnet_bits k f" and "wf_subnet_bits k t" and "subnet_match f n"
  obtains r where "change_subnet n f t = Inr r"
    and "\<And>i. bit r i = (if 64 - k \<le> i \<and> i < 64 then bit (sn_subnet t) i else bit n i)"
proof
  let ?r = "sn_subnet t OR ((n AND sn_mask f) XOR n)"
  have "sn_mask f = sn_mask t" using assms(1,2) by (simp add: wf_subnet_bits_def)
  with assms(3) show "change_subnet n f t = Inr ?r"
    by (simp add: change_subnet_def subnet_match_def Let_def)
  show "bit ?r i = (if 64 - k \<le> i \<and> i < 64 then bit (sn_subnet t) i else bit n i)" for i
    using bit_subnet_mask [OF assms(1), of i] bit_subnet [OF assms(2), of i]
    by (auto simp: bit_or_iff bit_xor_iff bit_and_iff)
qed

text \<open>The two subnets agree on the sign of their identifiers.\<close>

definition same_sign :: "nat \<Rightarrow> subnet \<Rightarrow> subnet \<Rightarrow> bool" where
  "same_sign k f t \<longleftrightarrow> k = 0 \<or> bit (sn_subnet f) 63 = bit (sn_subnet t) 63"

lemma change_subnet_int64:
  assumes "wf_subnet_bits k f" and "wf_subnet_bits k t" and "subnet_match f n" and "change_subnet n f t = Inr r"
  shows "int64 r \<longleftrightarrow> same_sign k f t"
proof -
  obtain r' where r': "change_subnet n f t = Inr r'"
    "\<And>i. bit r' i = (if 64 - k \<le> i \<and> i < 64 then bit (sn_subnet t) i else bit n i)"
    using change_subnet_bits [OF assms(1-3)] by blast
  with assms(4) have r: "\<And>i. bit r i = (if 64 - k \<le> i \<and> i < 64 then bit (sn_subnet t) i else bit n i)"
    by simp
  have n: "bit n i = bit n 63" if "63 \<le> i" for i
    using assms(3) that int64_bits [of n] unfolding subnet_match_def by blast
  have m: "bit n 63 = bit (sn_subnet f) 63" if "0 < k"
    using assms(3) subnet_match_bits [OF assms(1)] that by simp
  have k: "k \<le> 64" using assms(1) by (simp add: wf_subnet_bits_def)
  show ?thesis
  proof (cases "k = 0")
    case True
    then have "\<not> (64 - k \<le> i \<and> i < 64)" for i by arith
    then have "r = n" by (intro bit_eqI) (simp only: r if_False)
    with assms(3) True show ?thesis by (simp add: subnet_match_def same_sign_def)
  next
    case False
    have "int64 r \<longleftrightarrow> (\<forall>i\<ge>63. bit r i = bit r 63)" by (rule int64_bits)
    also have "\<dots> \<longleftrightarrow> bit r 64 = bit r 63"
    proof
      assume b: "bit r 64 = bit r 63"
      show "\<forall>i\<ge>63. bit r i = bit r 63"
      proof (intro allI impI)
        fix i :: nat
        assume i: "63 \<le> i"
        show "bit r i = bit r 63"
        proof (cases "i = 63")
          case False
          with i have "bit r i = bit n i" "bit n i = bit n 63" "bit r 64 = bit n 64" "bit n 64 = bit n 63"
            using n [of i] n [of 64] by (simp_all add: r)
          with b show ?thesis by simp
        qed simp
      qed
    next
      assume "\<forall>i\<ge>63. bit r i = bit r 63"
      from this [rule_format, of 64] show "bit r 64 = bit r 63" by simp
    qed
    also have "\<dots> \<longleftrightarrow> same_sign k f t"
      using False k m n [of 64] r [of 64] r [of 63] by (auto simp: same_sign_def)
    finally show ?thesis .
  qed
qed

lemma change_subnet_match:
  assumes "wf_subnet_bits k f" and "wf_subnet_bits k t" and "subnet_match f n" and "change_subnet n f t = Inr r"
  shows "subnet_match t r \<longleftrightarrow> same_sign k f t"
proof -
  obtain r' where "change_subnet n f t = Inr r'"
    "\<And>i. bit r' i = (if 64 - k \<le> i \<and> i < 64 then bit (sn_subnet t) i else bit n i)"
    using change_subnet_bits [OF assms(1-3)] by blast
  with assms(4) have "\<And>i. bit r i = (if 64 - k \<le> i \<and> i < 64 then bit (sn_subnet t) i else bit n i)"
    by simp
  with subnet_match_bits [OF assms(2)] change_subnet_int64 [OF assms] show ?thesis by simp
qed

lemma change_subnet_back:
  assumes "wf_subnet_bits k f" and "wf_subnet_bits k t" and "subnet_match f n" and "change_subnet n f t = Inr r"
    and "same_sign k f t"
  shows "change_subnet r t f = Inr n"
proof -
  have m: "subnet_match t r" using change_subnet_match [OF assms(1-4)] assms(5) by simp
  obtain r' where r': "change_subnet n f t = Inr r'"
    "\<And>i. bit r' i = (if 64 - k \<le> i \<and> i < 64 then bit (sn_subnet t) i else bit n i)"
    using change_subnet_bits [OF assms(1-3)] by blast
  obtain q where q: "change_subnet r t f = Inr q"
    "\<And>i. bit q i = (if 64 - k \<le> i \<and> i < 64 then bit (sn_subnet f) i else bit r i)"
    using change_subnet_bits [OF assms(2,1) m] by blast
  have "q = n"
  proof (rule bit_eqI)
    fix i
    show "bit q i = bit n i"
      using q(2) [of i] r' assms(4) subnet_match_bits [OF assms(1), of n] assms(3) by (auto split: if_splits)
  qed
  with q(1) show ?thesis by simp
qed

section \<open>The encodings\<close>

lemma to_be_length [simp]: "length (to_be k n) = k"
  by (induction k arbitrary: n) simp_all

lemma to_be_less: "b \<in> set (to_be k n) \<Longrightarrow> b < 256"
  by (induction k arbitrary: n) (auto simp: nat_less_iff)

text \<open>The big-endian value of bytes.\<close>

definition be_value :: "nat list \<Rightarrow> int" where
  "be_value bs = foldl (\<lambda>v b. v * 256 + int b) 0 bs"

lemma be_value_to_be: "be_value (to_be k n) = n mod 256 ^ k"
proof (induction k arbitrary: n)
  case (Suc k)
  have "be_value (to_be (Suc k) n) = (n div 256) mod 256 ^ k * 256 + n mod 256"
    using Suc by (simp add: be_value_def)
  also have "\<dots> = n mod (256 * 256 ^ k)"
    by (simp add: zmod_zmult2_eq)
  finally show ?case by simp
qed (simp add: be_value_def)

lemma to_bytes_signed_inj:
  assumes "to_bytes_signed a = Inr bs" and "to_bytes_signed b = Inr bs"
  shows "a = b"
proof -
  from assms have "to_be 8 a = to_be 8 b" and range: "int64 a" "int64 b"
    by (auto simp: to_bytes_signed_def be_bytes_def split: if_splits)
  then have "a mod 2 ^ 64 = b mod 2 ^ 64" using be_value_to_be [of 8 a] be_value_to_be [of 8 b] by simp
  then have "take_bit (Suc 63) a = take_bit (Suc 63) b" by (simp add: take_bit_eq_mod)
  then have "signed_take_bit 63 a = signed_take_bit 63 b" by (simp only: signed_take_bit_eq_iff_take_bit_eq)
  with range show ?thesis by (simp add: int64_signed)
qed

section \<open>Binding keys\<close>


lemma to_be_zero: "to_be k 0 = replicate k 0"
  by (induction k) (simp_all add: replicate_append_same)

lemma to_be_shift: "to_be (m + j) (v * 256 ^ j) = to_be m v @ replicate j 0"
proof (induction j)
  case (Suc j)
  have "to_be (m + Suc j) (v * 256 ^ Suc j) = to_be (m + j) (v * 256 ^ j) @ [0]"
    by simp
  with Suc show ?case by (simp add: replicate_append_same)
qed simp

lemma be_bytes_shift:
  assumes "m \<le> 8"
  shows "be_bytes (push_bit (64 - 8 * m) v) = to_be m v @ replicate (8 - m) 0"
proof -
  have "(2 :: int) ^ (64 - 8 * m) = 256 ^ (8 - m)"
    using power_mult [of "2 :: int" 8 "8 - m"] by (simp add: right_diff_distrib')
  then have "push_bit (64 - 8 * m) v = v * 256 ^ (8 - m)" by (simp add: push_bit_eq_mult)
  then show ?thesis using to_be_shift [of m "8 - m" v] assms by (simp add: be_bytes_def)
qed

lemma to_be_mask: "to_be m (mask (8 * m)) = replicate m 0xff"
proof (induction m)
  case (Suc m)
  have "mask (8 * Suc m) = (256 :: int) * mask (8 * m) + 255"
    by (simp add: mask_eq_exp_minus_1 power_add)
  then have "(mask (8 * Suc m) :: int) div 256 = mask (8 * m)" "(mask (8 * Suc m) :: int) mod 256 = 255"
    by simp_all
  with Suc show ?case by (simp add: replicate_append_same)
qed simp

text \<open>The bytes of a mask of \<open>k\<close> bits: a byte is partly covered if \<open>k\<close> is not a multiple of 8.\<close>

lemma mask_bytes:
  assumes "k \<le> 64"
  shows "be_bytes (push_bit (64 - k) (mask k)) =
    replicate (k div 8) 0xff @ (if k mod 8 = 0 then [] else [256 - 2 ^ (8 - k mod 8)]) @ replicate ((64 - k) div 8) 0"
proof -
  define m r where "m = k div 8" and "r = k mod 8"
  then have k: "k = 8 * m + r" and r: "r < 8" by simp_all
  show ?thesis
  proof (cases "r = 0")
    case True
    with k be_bytes_shift [of m "mask (8 * m)"] assms to_be_mask [of m] show ?thesis
      by (simp add: right_diff_distrib' diff_mult_distrib2 [symmetric])
  next
    case False
    with k assms have m: "m \<le> 7" by simp
    have e: "64 - k = 64 - 8 * Suc m + (8 - r)" and z: "(64 - k) div 8 = 8 - Suc m" using m k r False by arith+
    have "push_bit (64 - k) (mask k) = push_bit (64 - 8 * Suc m) (push_bit (8 - r) (mask k) :: int)"
      unfolding e by (simp only: push_bit_push_bit)
    moreover have "push_bit (8 - r) (mask k) = 256 * mask (8 * m) + (256 - 2 ^ (8 - r) :: int)"
    proof -
      have "(2 :: int) ^ (8 - r) * 2 ^ r = 256" using r by (simp flip: power_add)
      then show ?thesis by (simp add: k mask_eq_exp_minus_1 push_bit_eq_mult power_add algebra_simps)
    qed
    moreover have "to_be (Suc m) (256 * mask (8 * m) + (256 - 2 ^ (8 - r))) = replicate m 0xff @ [256 - 2 ^ (8 - r)]"
    proof -
      obtain x where x: "x = (256 - 2 ^ (8 - r) :: int)" by simp
      have "2 \<le> (2 :: int) ^ (8 - r)" "(2 :: int) ^ (8 - r) \<le> 2 ^ 8"
        using power_increasing [of 1 "8 - r" "2 :: int"] power_increasing [of "8 - r" 8 "2 :: int"] r by simp_all
      then have "0 \<le> x" "x < 256" by (simp_all add: x)
      then have "(256 * mask (8 * m) + (256 - 2 ^ (8 - r))) div 256 = (mask (8 * m) :: int)"
        "(256 * mask (8 * m) + (256 - 2 ^ (8 - r))) mod 256 = (256 - 2 ^ (8 - r) :: int)"
        unfolding x [symmetric] by simp_all
      with to_be_mask [of m] show ?thesis by (simp add: nat_diff_distrib nat_power_eq)
    qed
    ultimately show ?thesis using be_bytes_shift [of "Suc m" "push_bit (8 - r) (mask k)"] m z False
      unfolding m_def [symmetric] r_def [symmetric] by simp
  qed
qed

lemma binding_parts_full: "length sbs = n \<Longrightarrow> binding_parts (zip (sbs @ sbs') (replicate n 0xff @ mbs)) =
    map_sum id ((@) (map hex_byte sbs)) (binding_parts (zip sbs' mbs))"
proof (induction sbs arbitrary: n)
  case Nil
  then show ?case by (cases "binding_parts (zip sbs' mbs)") simp_all
next
  case (Cons b sbs)
  then show ?case by (cases n) (auto simp: sum.map_comp comp_def)
qed

lemma binding_parts_zero: "binding_parts (zip bs (replicate n 0)) = Inr []"
  by (cases bs; cases n) simp_all

lemma binding_parts_subnet:
  assumes "k \<le> 64"
  shows "binding_parts (zip (be_bytes n) (be_bytes (push_bit (64 - k) (mask k)))) =
    (if k mod 8 = 0 then Inr (map hex_byte (take (k div 8) (be_bytes n))) else Inl RuntimeError)"
proof -
  let ?m = "k div 8"
  have len: "length (take ?m (be_bytes n)) = ?m" using assms by (simp add: be_bytes_def)
  have "\<exists>b bs. drop ?m (be_bytes n) = b # bs" "(256 :: nat) - 2 ^ (8 - k mod 8) \<notin> {0, 0xff}" if "k mod 8 \<noteq> 0"
  proof -
    have "?m < 8" using assms that by presburger
    then have "length (drop ?m (be_bytes n)) \<noteq> 0" by (simp add: be_bytes_def)
    then show "\<exists>b bs. drop ?m (be_bytes n) = b # bs" by (cases "drop ?m (be_bytes n)") auto
    have "2 \<le> (2 :: nat) ^ (8 - k mod 8)" "(2 :: nat) ^ (8 - k mod 8) \<le> 2 ^ 7"
      using power_increasing [of 1 "8 - k mod 8" "2 :: nat"] power_increasing [of "8 - k mod 8" 7 "2 :: nat"] that by simp_all
    then show "(256 :: nat) - 2 ^ (8 - k mod 8) \<notin> {0, 0xff}" by auto
  qed
  then show ?thesis
    using binding_parts_full [OF len, of "drop ?m (be_bytes n)"] mask_bytes [OF assms]
    by (auto simp: binding_parts_zero)
qed

lemma binding_parts_digits:
  assumes "l \<le> 16"
  shows "binding_parts (zip (be_bytes n) (be_bytes (push_bit (64 - 4 * l) (mask (4 * l))))) =
    (if odd l then Inl RuntimeError else Inr (map hex_byte (take (l div 2) (be_bytes n))))"
proof -
  have "4 * l mod 8 = 0 \<longleftrightarrow> even l" "4 * l div 8 = l div 2" by presburger+
  with binding_parts_subnet [of "4 * l" n] assms show ?thesis by simp
qed

text \<open>The value of hexadecimal digits, in lower case as \<^const>\<open>hex_digit\<close> writes them.\<close>

definition lower_hex :: "nat \<Rightarrow> bool" where
  "lower_hex x \<longleftrightarrow> 48 \<le> x \<and> x \<le> 57 \<or> 97 \<le> x \<and> x \<le> 102"

definition hex_val :: "nat \<Rightarrow> nat" where
  "hex_val x = (if x \<le> 57 then x - 48 else x - 87)"

definition hex_value :: "nat \<Rightarrow> str \<Rightarrow> nat" where
  "hex_value acc s = foldl (\<lambda>v x. v * 16 + hex_val x) acc s"

lemma digit_val_16: "lower_hex x \<Longrightarrow> digit_val 16 x = Some (hex_val x)"
  by (auto simp: lower_hex_def digit_val_def Let_def hex_val_def)

lemma scan_digits_hex: "list_all lower_hex s \<Longrightarrow> scan_digits 16 acc False s = Some (hex_value acc s, [])"
  by (induction s arbitrary: acc) (auto simp: hex_value_def digit_val_16, simp add: lower_hex_def)

lemma to_ascii_hex: "list_all lower_hex s \<Longrightarrow> map to_ascii s = s"
  by (induction s) (auto simp: lower_hex_def to_ascii_def)

lemma skip_prefix_hex: "list_all lower_hex s \<Longrightarrow> skip_prefix 16 s = s"
  by (auto simp: skip_prefix_def lower_hex_def split: list.splits)

lemma py_int_hex:
  assumes "list_all lower_hex s" and "s \<noteq> []"
  shows "py_int 16 s = Some (int (hex_value 0 s))"
proof -
  obtain x t where s: "s = x # t" using assms(2) by (cases s) auto
  with assms have x: "lower_hex x" and t: "list_all lower_hex t" by simp_all
  then have "\<not> blank x" "x \<noteq> 45" "x \<noteq> 43" by (auto simp: lower_hex_def blank_def)
  moreover have "scan_number 16 s = Some (hex_value 0 s)"
    using x t by (simp add: s scan_number_def digit_val_16 scan_digits_hex hex_value_def)
  ultimately show ?thesis
    unfolding py_int_def to_ascii_hex [OF assms(1)] by (simp add: s skip_prefix_hex [OF assms(1), unfolded s])
qed

text \<open>The digits of a string, two by two.\<close>

fun pairs :: "str \<Rightarrow> str list" where
  "pairs (x # y # s) = [x, y] # pairs s"
| "pairs s = []"

lemma hex_byte_val: "lower_hex x \<Longrightarrow> lower_hex y \<Longrightarrow> hex_byte (hex_val x * 16 + hex_val y) = [x, y]"
  by (auto simp: lower_hex_def hex_val_def hex_byte_def hex_digit_def)

lemma to_be_step: "b < 256 \<Longrightarrow> to_be (Suc k) (int (acc * 256 + b)) = to_be k (int acc) @ [b]"
proof -
  assume b: "b < 256"
  have "int (acc * 256 + b) div 256 = int ((acc * 256 + b) div 256)"
    "int (acc * 256 + b) mod 256 = int ((acc * 256 + b) mod 256)"
    by (simp_all only: zdiv_int zmod_int of_nat_numeral)
  moreover have "(acc * 256 + b) div 256 = acc" "(acc * 256 + b) mod 256 = b" using b by simp_all
  ultimately show ?thesis by (simp only: to_be.simps nat_int)
qed

lemma to_be_hex: "list_all lower_hex s \<Longrightarrow> even (length s) \<Longrightarrow>
   map hex_byte (to_be (k + length s div 2) (int (hex_value acc s))) = map hex_byte (to_be k (int acc)) @ pairs s"
proof (induction s arbitrary: acc k rule: pairs.induct)
  case (1 x y s)
  let ?acc = "acc * 256 + (hex_val x * 16 + hex_val y)"
  have small: "hex_val x * 16 + hex_val y < 256" using 1(2) by (auto simp: lower_hex_def hex_val_def)
  have "hex_value acc (x # y # s) = hex_value ?acc s" by (simp add: hex_value_def algebra_simps)
  moreover have "map hex_byte (to_be (Suc k + length s div 2) (int (hex_value ?acc s))) =
      map hex_byte (to_be (Suc k) (int ?acc)) @ pairs s"
    by (rule "1.IH") (use 1 in simp_all)
  moreover have "to_be (Suc k) (int ?acc) = to_be k (int acc) @ [hex_val x * 16 + hex_val y]"
    using small to_be_step [of "hex_val x * 16 + hex_val y" k acc] by simp
  ultimately show ?case using 1(2) by (simp add: hex_byte_val)
qed (simp_all add: hex_value_def)

lemma hex_value_bound: "list_all lower_hex s \<Longrightarrow> Suc (hex_value acc s) \<le> Suc acc * 16 ^ length s"
proof (induction s arbitrary: acc)
  case (Cons x s)
  then have "Suc (hex_value (acc * 16 + hex_val x) s) \<le> Suc (acc * 16 + hex_val x) * 16 ^ length s" by simp
  also have "Suc (acc * 16 + hex_val x) \<le> Suc acc * 16" using Cons(2) by (auto simp: lower_hex_def hex_val_def)
  then have "Suc (acc * 16 + hex_val x) * 16 ^ length s \<le> Suc acc * 16 * 16 ^ length s" by (rule mult_le_mono1)
  finally show ?case by (simp add: hex_value_def algebra_simps)
qed (simp add: hex_value_def)

lemma hex_value_max:
  "list_all lower_hex s \<Longrightarrow> Suc (hex_value acc s) = Suc acc * 16 ^ length s \<longleftrightarrow> s = replicate (length s) 102"
proof (induction s arbitrary: acc)
  case (Cons x s)
  have x: "hex_val x \<le> 15" "hex_val x = 15 \<longleftrightarrow> x = 102" using Cons(2) by (auto simp: lower_hex_def hex_val_def)
  have step: "hex_value acc (x # s) = hex_value (acc * 16 + hex_val x) s" by (simp add: hex_value_def)
  show ?case
  proof (cases "x = 102")
    case True
    with x have "Suc (acc * 16 + hex_val x) = Suc acc * 16" by simp
    then have "Suc (hex_value acc (x # s)) = Suc acc * 16 ^ length (x # s) \<longleftrightarrow> s = replicate (length s) 102"
      using Cons.IH [of "acc * 16 + hex_val x"] Cons(2) unfolding step by (simp only: list.pred_inject power_Suc length_Cons mult.assoc)
    with True show ?thesis by simp
  next
    case False
    with x have "Suc (acc * 16 + hex_val x) < Suc acc * 16" by simp
    then have "Suc (acc * 16 + hex_val x) * 16 ^ length s < Suc acc * 16 * 16 ^ length s"
      by (rule mult_strict_right_mono) simp
    moreover have "Suc (hex_value (acc * 16 + hex_val x) s) \<le> Suc (acc * 16 + hex_val x) * 16 ^ length s"
      using hex_value_bound Cons(2) by simp
    ultimately have "Suc (hex_value acc (x # s)) < Suc acc * 16 ^ length (x # s)"
      unfolding step by (simp only: length_Cons power_Suc mult.assoc)
    with False show ?thesis by simp
  qed
qed (simp add: hex_value_def)

lemma hex_value_full:
  assumes "list_all lower_hex s" and "length s \<le> 16"
  shows "push_bit (64 - 4 * length s) (int (hex_value 0 s)) < 0xffffffffffffffff \<longleftrightarrow> s \<noteq> replicate 16 102"
proof -
  let ?n = "64 - 4 * length s" and ?v = "hex_value 0 s"
  have "Suc ?v \<le> 16 ^ length s" using hex_value_bound [OF assms(1), of 0] by simp
  then have "Suc ?v * 2 ^ ?n \<le> 16 ^ length s * 2 ^ ?n" by (rule mult_le_mono1)
  also have "(16 :: nat) ^ length s * 2 ^ ?n = 2 ^ (4 * length s + ?n)" by (simp add: power_add power_mult)
  also have "4 * length s + ?n = 64" using assms(2) by simp
  finally have b: "?v * 2 ^ ?n + 2 ^ ?n \<le> 2 ^ 64" by simp
  have p: "push_bit ?n (int ?v) = int (?v * 2 ^ ?n)" by (simp add: push_bit_eq_mult)
  show ?thesis
  proof (cases "length s = 16")
    case True
    with hex_value_max [OF assms(1), of 0] have "Suc ?v = 2 ^ 64 \<longleftrightarrow> s = replicate 16 102" by simp
    with True b show ?thesis by (simp add: p) linarith
  next
    case False
    with assms(2) have "0 < ?n" by simp
    then have "(2 :: nat) ^ 1 \<le> 2 ^ ?n" by (intro power_increasing) simp_all
    with b have "?v * 2 ^ ?n < 2 ^ 64 - 1" by simp
    then have "int (?v * 2 ^ ?n) < int (2 ^ 64 - 1)" by (simp only: of_nat_less_iff)
    with False show ?thesis by (auto simp: p)
  qed
qed

lemma lower_hex_parse:
  assumes "list_all lower_hex s" and "length s \<le> 16"
  shows "subnet_parse s = (if s = replicate 16 102 then Inl ValueError
    else Inr \<lparr>sn_subnet = push_bit (64 - 4 * length s) (int (hex_value 0 s)),
              sn_mask = push_bit (64 - 4 * length s) (mask (4 * length s))\<rparr>)"
proof -
  have "(if 0 < 4 * length s then map_option (push_bit (64 - 4 * length s)) (py_int 16 s) else Some 0) =
      Some (push_bit (64 - 4 * length s) (int (hex_value 0 s)))"
    using py_int_hex [OF assms(1)] by (auto simp: hex_value_def)
  with hex_value_full [OF assms] parse_mask [of "4 * length s"] assms(2) show ?thesis
    by (simp only: subnet_parse_def Let_def) (simp add: push_bit_nonnegative_int_iff)
qed

lemma shift_mask_range: "push_bit (64 - k) (mask k :: int) < 2 ^ 64" if "k \<le> 64"
proof -
  have "take_bit 64 (push_bit (64 - k) (mask k)) = push_bit (64 - k) (mask k :: int)"
    by (rule bit_eqI) (use that in \<open>auto simp: bit_take_bit_iff bit_push_bit_iff bit_mask_iff\<close>)
  then show ?thesis by (metis take_bit_int_less_exp)
qed

section \<open>The properties\<close>

text \<open>
  C30: A subnet parsed from a string of \<open>l\<close> hexadecimal digits fixes the first \<open>4 * l\<close> bits of
  an identifier and no others: a 64-bit integer, read in two's complement, matches the subnet
  if and only if these bits are the number that the digits write; and \<^verbatim>\<open>match\<close> holds of
  no integer outside of the signed 64-bit range.\<close>

theorem subnet_parse_prefix:
  assumes "subnet_parse s = Inr sn"
  shows "subnet_match sn n \<longleftrightarrow>
    MIN_INT64 \<le> n \<and> n \<le> MAX_INT64 \<and>
    drop_bit (64 - 4 * length s) (take_bit 64 n) = (if s = [] then 0 else the (py_int 16 s))"
proof -
  let ?k = "4 * length s"
  have wf: "wf_subnet_bits ?k sn" using subnet_parse_bits(1) [OF assms] .
  have v: "sn_subnet sn = push_bit (64 - ?k) (if s = [] then 0 else the (py_int 16 s))"
  proof (cases "s = []")
    case True
    with assms show ?thesis by (auto simp: subnet_parse_def Let_def split: if_splits)
  next
    case False
    with subnet_parse_bits(2) [OF assms] show ?thesis by auto
  qed
  have "(\<forall>i. 64 - ?k \<le> i \<and> i < 64 \<longrightarrow> bit n i = bit (sn_subnet sn) i) \<longleftrightarrow>
    push_bit (64 - ?k) (drop_bit (64 - ?k) (take_bit 64 n)) = sn_subnet sn"
    (is "?a \<longleftrightarrow> ?b")
  proof -
    have "?b \<longleftrightarrow> (\<forall>i. (64 - ?k \<le> i \<and> i < 64 \<and> bit n i) = bit (sn_subnet sn) i)"
      unfolding bit_eq_iff by (rule all_cong1) (auto simp: bit_push_bit_iff bit_drop_bit_eq bit_take_bit_iff)
    with bit_subnet [OF wf] show ?thesis by blast
  qed
  also have "\<dots> \<longleftrightarrow> drop_bit (64 - ?k) (take_bit 64 n) = (if s = [] then 0 else the (py_int 16 s))"
    unfolding v by (simp add: push_bit_eq_mult)
  finally show ?thesis
    using subnet_match_bits [OF wf, of n] by (simp add: int64_def)
qed

theorem subnet_parse_prefix_witness:
  "\<exists>sn. subnet_parse (lit ''8a'') = Inr sn \<and> subnet_match sn (- 0x7600000000000000) \<and> \<not> subnet_match sn 0x8a00000000000000"
proof -
  have "py_int 16 (lit ''8a'') = Some 0x8a" by (simp add: py_int_def skip_prefix_def scan_number_def digit_val_def to_ascii_def blank_def)
  then obtain sn where "subnet_parse (lit ''8a'') = Inr sn" "py_int 16 (lit ''8a'') = Some 0x8a"
    by (simp add: subnet_parse_def push_bit_eq_mult)
  then show ?thesis
    using subnet_parse_prefix [of "lit ''8a''" sn]
    by (auto simp: MIN_INT64_def MAX_INT64_def take_bit_eq_mod drop_bit_eq_div)
qed

text \<open>
  The subnet that lower-case hexadecimal digits write has the binding key that the
  documentation shows: its digits two by two with dots between them, then \<^verbatim>\<open>.#\<close> unless
  all 16 digits are given, and \<^verbatim>\<open>#\<close> for no digits. An odd number of digits raises
  RuntimeError. The subnet of 16 digits \<^verbatim>\<open>f\<close> is the only one that \<^verbatim>\<open>parse\<close> refuses.\<close>

theorem binding_key_text:
  assumes "list_all lower_hex s" and "length s \<le> 16"
  shows "bindE (subnet_parse s) binding_key =
    (if s = replicate 16 102 then Inl ValueError
     else if odd (length s) then Inl RuntimeError
     else if s = [] then Inr (lit ''#'')
     else Inr (py_join (lit ''.'') (pairs s) @ (if length s < 16 then lit ''.#'' else [])))"
proof (cases "s = replicate 16 102")
  case False
  let ?l = "length s" and ?m = "length s div 2"
  let ?sub = "push_bit (64 - 4 * ?l) (int (hex_value 0 s))" and ?mask = "push_bit (64 - 4 * ?l) (mask (4 * ?l)) :: int"
  have "?sub < 0xffffffffffffffff" using hex_value_full [OF assms] False by blast
  then have sub: "to_bytes_unsigned ?sub = Inr (be_bytes ?sub)" by (simp add: to_bytes_unsigned_def push_bit_nonnegative_int_iff)
  have mask: "to_bytes_unsigned ?mask = Inr (be_bytes ?mask)"
    using shift_mask_range [of "4 * ?l"] assms(2) by (simp add: to_bytes_unsigned_def push_bit_nonnegative_int_iff)
  have "map hex_byte (take ?m (be_bytes ?sub)) = pairs s" if "even ?l"
  proof -
    have "8 * ?m = 4 * ?l" "?m \<le> 8" using that assms(2) by auto
    with be_bytes_shift [of ?m "int (hex_value 0 s)"] have "take ?m (be_bytes ?sub) = to_be ?m (int (hex_value 0 s))"
      by (simp only:) simp
    with to_be_hex [OF assms(1) that, of 0 0] show ?thesis by simp
  qed
  moreover have "length (pairs s) = ?m" by (induction s rule: pairs.induct) simp_all
  ultimately show ?thesis
    using assms(2) False
    by (auto simp: lower_hex_parse [OF assms] binding_key_def sub mask binding_parts_digits Let_def)
qed (use assms in \<open>simp add: lower_hex_parse\<close>)

theorem binding_key_text_witness:
  "bindE (subnet_parse (lit ''0a1b'')) binding_key = Inr (lit ''0a.1b.#'') \<and>
   bindE (subnet_parse (lit ''a'')) binding_key = Inl RuntimeError"
  using binding_key_text [of "lit ''0a1b''"] binding_key_text [of "lit ''a''"]
  by (simp add: lower_hex_def) (auto dest: arg_cong [of _ _ length])

text \<open>
  Between two subnets of the same size whose identifiers have the same sign,
  \<^verbatim>\<open>_change_subnet\<close> translates every identifier of the one to an identifier of the other,
  leaves the bits below the subnet as they were, and translates back to where it started.\<close>

theorem change_subnet_roundtrip:
  assumes "subnet_parse sf = Inr f" and "subnet_parse st = Inr t" and "length sf = length st"
    and "same_sign (4 * length sf) f t" and "subnet_match f n"
  shows "\<exists>r. change_subnet n f t = Inr r \<and> subnet_match t r \<and>
    take_bit (64 - 4 * length sf) r = take_bit (64 - 4 * length sf) n \<and>
    change_subnet r t f = Inr n"
proof -
  have wf: "wf_subnet_bits (4 * length sf) f" "wf_subnet_bits (4 * length sf) t"
    using subnet_parse_bits(1) assms(1-3) by metis+
  obtain r where r: "change_subnet n f t = Inr r"
    "\<And>i. bit r i = (if 64 - 4 * length sf \<le> i \<and> i < 64 then bit (sn_subnet t) i else bit n i)"
    using change_subnet_bits [OF wf assms(5)] by blast
  have "take_bit (64 - 4 * length sf) r = take_bit (64 - 4 * length sf) n"
    by (rule bit_eqI) (auto simp: bit_take_bit_iff r(2))
  with r(1) change_subnet_match [OF wf assms(5) r(1)] change_subnet_back [OF wf assms(5) r(1) assms(4)] assms(4)
  show ?thesis by blast
qed

definition example_subnet :: "str \<Rightarrow> subnet" where
  "example_subnet s = projr (subnet_parse s)"

lemma example_subnet_parse: "list_all lower_hex s \<Longrightarrow> length s < 16 \<Longrightarrow> subnet_parse s = Inr (example_subnet s)"
  by (auto simp: example_subnet_def lower_hex_parse)

lemma example_subnet_eval:
  "list_all lower_hex s \<Longrightarrow> length s < 16 \<Longrightarrow> example_subnet s =
     \<lparr>sn_subnet = int (hex_value 0 s) * 2 ^ (64 - 4 * length s),
      sn_mask = (2 ^ (4 * length s) - 1) * 2 ^ (64 - 4 * length s)\<rparr>"
  by (auto simp: example_subnet_def lower_hex_parse push_bit_eq_mult mask_eq_exp_minus_1)

theorem change_subnet_roundtrip_witness:
  "\<exists>r. change_subnet 0x12abc (example_subnet (lit ''000000'')) (example_subnet (lit ''1234ab'')) = Inr r \<and>
     change_subnet r (example_subnet (lit ''1234ab'')) (example_subnet (lit ''000000'')) = Inr 0x12abc"
proof -
  have "\<exists>r. change_subnet 0x12abc (example_subnet (lit ''000000'')) (example_subnet (lit ''1234ab'')) = Inr r \<and>
      subnet_match (example_subnet (lit ''1234ab'')) r \<and>
      take_bit (64 - 4 * length (lit ''000000'')) r = take_bit (64 - 4 * length (lit ''000000'')) 0x12abc \<and>
      change_subnet r (example_subnet (lit ''1234ab'')) (example_subnet (lit ''000000'')) = Inr 0x12abc"
    by (rule change_subnet_roundtrip [of "lit ''000000''" _ "lit ''1234ab''"])
      (simp_all add: example_subnet_parse example_subnet_eval lower_hex_def hex_value_def hex_val_def
        subnet_match_def int64_def MIN_INT64_def MAX_INT64_def same_sign_def bit_iff_odd)
  then show ?thesis by blast
qed

text \<open>
  C37: Between two subnets of the same size whose identifiers differ in sign,
  \<^verbatim>\<open>_change_subnet\<close> returns for every identifier a number that is not a 64-bit integer: it
  matches no subnet, and writing it, for the routing key or with \<^verbatim>\<open>_as_hex\<close> for an error
  message, raises OverflowError.\<close>

theorem change_subnet_overflow:
  assumes "subnet_parse sf = Inr f" and "subnet_parse st = Inr t" and "length sf = length st"
    and "\<not> same_sign (4 * length sf) f t" and "subnet_match f n"
  shows "\<exists>r. change_subnet n f t = Inr r \<and> \<not> subnet_match sn r \<and>
    to_bytes_signed r = Inl OverflowError \<and> as_hex r = Inl OverflowError"
proof -
  have wf: "wf_subnet_bits (4 * length sf) f" "wf_subnet_bits (4 * length sf) t"
    using subnet_parse_bits(1) assms(1-3) by metis+
  obtain r where r: "change_subnet n f t = Inr r"
    using change_subnet_bits [OF wf assms(5)] by blast
  with change_subnet_int64 [OF wf assms(5)] assms(4) have "\<not> int64 r" by blast
  with r show ?thesis by (simp add: subnet_match_def to_bytes_signed_def as_hex_def)
qed

theorem change_subnet_overflow_witness:
  "\<exists>r. change_subnet 0x12abc (example_subnet (lit ''000000'')) (example_subnet (lit ''8234ab'')) = Inr r \<and>
     as_hex r = Inl OverflowError"
proof -
  have "\<exists>r. change_subnet 0x12abc (example_subnet (lit ''000000'')) (example_subnet (lit ''8234ab'')) = Inr r \<and>
      \<not> subnet_match (example_subnet (lit ''8234ab'')) r \<and>
      to_bytes_signed r = Inl OverflowError \<and> as_hex r = Inl OverflowError"
    by (rule change_subnet_overflow [of "lit ''000000''" _ "lit ''8234ab''"])
      (simp_all add: example_subnet_parse example_subnet_eval lower_hex_def hex_value_def hex_val_def
        subnet_match_def int64_def MIN_INT64_def MAX_INT64_def same_sign_def bit_iff_odd)
  then show ?thesis by blast
qed

end
