(* ===== verification/Node_Data.thy ===== *)
theory Node_Data
  imports Subnet
begin

text \<open>
  The data classes of \<^verbatim>\<open>swpt_stomp/peer_data.py\<close>: what a node knows about itself and about
  each of its peers.
\<close>

record stomp_config =
  sc_servers :: "(str \<times> int) list"
  sc_host :: str
  sc_destination :: str
  sc_login :: "str option"
  sc_passcode :: "str option"
  sc_accepted_content_types :: "str list"

record node_data =
  nd_node_type :: node_type
  nd_node_id :: str
  nd_root_cert :: bytes
  nd_creditors_subnet :: subnet
  nd_debtors_subnet :: subnet

record peer_data =
  pd_node_type :: node_type
  pd_node_id :: str
  pd_stomp_config :: stomp_config
  pd_root_cert :: bytes
  pd_sub_cert :: bytes
  pd_creditors_subnet :: subnet
  pd_debtors_subnet :: subnet
  pd_is_active :: bool

end
