(* ===== verification/Md5.thy ===== *)
theory Md5
  imports Text "HOL-Library.Word"
begin

text \<open>
  The MD5 digest of \<^verbatim>\<open>hashlib\<close>, which \<^verbatim>\<open>_calc_bin_routing_key\<close> of
  \<^verbatim>\<open>swpt_stomp/process_messages.py\<close> uses to spread messages over queues. The digest
  works on 32-bit words with wrap-around (\<^typ>\<open>32 word\<close>), as RFC 1321 defines it:
  the message is padded to blocks of 64 bytes, and each block is folded into the state in 64
  rounds. The digest is code of the standard library, so no definition here has source lines
  of its own.
\<close>

unbundle bit_operations_syntax

type_synonym w32 = "32 word"

record md5_state =
  md_a :: w32
  md_b :: w32
  md_c :: w32
  md_d :: w32

definition md5_init :: md5_state where
  "md5_init = \<lparr>md_a = 0x67452301, md_b = 0xefcdab89, md_c = 0x98badcfe, md_d = 0x10325476\<rparr>"

definition md5_k :: "w32 list" where
  "md5_k = [
     0xd76aa478, 0xe8c7b756, 0x242070db, 0xc1bdceee,
     0xf57c0faf, 0x4787c62a, 0xa8304613, 0xfd469501,
     0x698098d8, 0x8b44f7af, 0xffff5bb1, 0x895cd7be,
     0x6b901122, 0xfd987193, 0xa679438e, 0x49b40821,
     0xf61e2562, 0xc040b340, 0x265e5a51, 0xe9b6c7aa,
     0xd62f105d, 0x02441453, 0xd8a1e681, 0xe7d3fbc8,
     0x21e1cde6, 0xc33707d6, 0xf4d50d87, 0x455a14ed,
     0xa9e3e905, 0xfcefa3f8, 0x676f02d9, 0x8d2a4c8a,
     0xfffa3942, 0x8771f681, 0x6d9d6122, 0xfde5380c,
     0xa4beea44, 0x4bdecfa9, 0xf6bb4b60, 0xbebfbc70,
     0x289b7ec6, 0xeaa127fa, 0xd4ef3085, 0x04881d05,
     0xd9d4d039, 0xe6db99e5, 0x1fa27cf8, 0xc4ac5665,
     0xf4292244, 0x432aff97, 0xab9423a7, 0xfc93a039,
     0x655b59c3, 0x8f0ccc92, 0xffeff47d, 0x85845dd1,
     0x6fa87e4f, 0xfe2ce6e0, 0xa3014314, 0x4e0811a1,
     0xf7537e82, 0xbd3af235, 0x2ad7d2bb, 0xeb86d391
  ]"

definition md5_shift :: "nat \<Rightarrow> nat" where
  "md5_shift i =
     (let s = (if i < 16 then [7, 12, 17, 22] else if i < 32 then [5, 9, 14, 20]
               else if i < 48 then [4, 11, 16, 23] else [6, 10, 15, 21])
      in s ! (i mod 4))"

definition md5_f :: "nat \<Rightarrow> w32 \<Rightarrow> w32 \<Rightarrow> w32 \<Rightarrow> w32" where
  "md5_f i x y z =
     (if i < 16 then (x AND y) OR (NOT x AND z)
      else if i < 32 then (z AND x) OR (NOT z AND y)
      else if i < 48 then x XOR y XOR z
      else y XOR (x OR NOT z))"

definition md5_index :: "nat \<Rightarrow> nat" where
  "md5_index i =
     (if i < 16 then i
      else if i < 32 then (5 * i + 1) mod 16
      else if i < 48 then (3 * i + 5) mod 16
      else 7 * i mod 16)"

definition rotl32 :: "nat \<Rightarrow> w32 \<Rightarrow> w32" where
  "rotl32 n x = push_bit n x OR drop_bit (32 - n) x"

definition md5_round :: "w32 list \<Rightarrow> nat \<Rightarrow> md5_state \<Rightarrow> md5_state" where
  "md5_round m i st =
     (let f = md5_f i (md_b st) (md_c st) (md_d st) + md_a st + md5_k ! i + m ! md5_index i in
      \<lparr>md_a = md_d st, md_b = md_b st + rotl32 (md5_shift i) f, md_c = md_b st, md_d = md_c st\<rparr>)"

text \<open>Words are stored with the least significant byte first.\<close>

definition le_word :: "nat list \<Rightarrow> w32" where
  "le_word bs = word_of_int (foldr (\<lambda>b v. int b + 256 * v) bs 0)"

primrec le_bytes :: "nat \<Rightarrow> int \<Rightarrow> nat list" where
  "le_bytes 0 n = []"
| "le_bytes (Suc k) n = nat (n mod 256) # le_bytes k (n div 256)"

function chunks_of :: "nat \<Rightarrow> 'a list \<Rightarrow> 'a list list" where
  "chunks_of k xs = (if xs = [] \<or> k = 0 then [] else take k xs # chunks_of k (drop k xs))"
  by pat_completeness auto
termination by (relation "measure (\<lambda>(k, xs). length xs)") auto

declare chunks_of.simps [simp del]

definition md5_block :: "md5_state \<Rightarrow> nat list \<Rightarrow> md5_state" where
  "md5_block st block =
     (let m = map le_word (chunks_of 4 block);
          r = fold (md5_round m) [0..<64] st in
      \<lparr>md_a = md_a st + md_a r, md_b = md_b st + md_b r, md_c = md_c st + md_c r, md_d = md_d st + md_d r\<rparr>)"

definition md5_pad :: "nat list \<Rightarrow> nat list" where
  "md5_pad bs =
     bs @ [0x80] @ replicate ((119 - length bs mod 64) mod 64) 0 @ le_bytes 8 (8 * int (length bs))"

definition md5_digest :: "nat list \<Rightarrow> nat list" where
  "md5_digest bs =
     (let st = foldl md5_block md5_init (chunks_of 64 (md5_pad bs)) in
      concat (map (\<lambda>w. le_bytes 4 (uint w)) [md_a st, md_b st, md_c st, md_d st]))"

section \<open>The shape of the digest\<close>

lemma le_bytes_length [simp]: "length (le_bytes k n) = k"
  by (induction k arbitrary: n) simp_all

lemma le_bytes_less: "b \<in> set (le_bytes k n) \<Longrightarrow> b < 256"
  by (induction k arbitrary: n) (auto simp: nat_less_iff)

lemma md5_pad_length: "64 dvd length (md5_pad bs)"
proof -
  define r where "r = length bs mod 64"
  have r: "r < 64" by (simp add: r_def)
  have len: "length bs = 64 * (length bs div 64) + r" by (simp add: r_def)
  have "length (md5_pad bs) = 64 * (length bs div 64) + (r + 9 + (119 - r) mod 64)"
    unfolding md5_pad_def by (simp add: r_def [symmetric]) (use len in linarith)
  moreover have "64 dvd r + 9 + (119 - r) mod 64"
  proof (cases "r \<le> 55")
    case True
    then have "(119 - r) mod 64 = 55 - r" using mod_add_self2 [of "55 - r" 64] by (simp add: mod_less)
    with True show ?thesis by simp
  next
    case False
    with r show ?thesis by (simp add: mod_less)
  qed
  ultimately show ?thesis by simp
qed

lemma md5_digest_length [simp]: "length (md5_digest bs) = 16"
  by (simp add: md5_digest_def Let_def)

lemma md5_digest_bytes: "b \<in> set (md5_digest bs) \<Longrightarrow> b < 256"
  by (auto simp: md5_digest_def Let_def dest: le_bytes_less)

section \<open>Three digests\<close>

lemma md5_examples:
  "take 3 (md5_digest [0, 0, 0, 0, 0, 0, 0, 123]) = [252, 16, 99]"
  "take 3 (md5_digest [255, 255, 255, 255, 255, 255, 255, 133]) = [195, 254, 175]"
  "take 3 (md5_digest [0, 0, 0, 0, 0, 0, 0, 123, 0, 0, 0, 0, 0, 0, 1, 200]) = [8, 68, 52]"
  by code_simp+

end
