(* ===== verification/Smp_Schemas.thy ===== *)
theory Smp_Schemas
  imports Regex Subnet Complex_Main
begin

text \<open>
  The schemas of the Swaptacular messages, from \<^verbatim>\<open>swpt_stomp/smp_schemas.py\<close>.

  A schema is data: its fields with their types and validators, the methods that
  \<^verbatim>\<open>@validates\<close> decorates, each with the field it is called for, and the methods that
  \<^verbatim>\<open>@validates_schema\<close> decorates. A mixin class contributes its fields and methods to the
  classes that derive from it. What the package marshmallow makes of a schema is not part
  of the program; \<open>schema_accepts\<close> says what its documentation promises of a loaded
  message: exactly the declared fields, each of its type, and no validator objects to it. A method
  may also raise an exception that is not a ValidationError; it is then a value \<open>Inl\<close>.

  A time stamp or a date is never inspected by the program; it is represented by its ISO 8601
  text. A float that a schema accepts is finite, so it is a rational number.
\<close>

declare lit_simps [simp del]
declare lit_eq_iff [simp] lit_Nil_iff [simp]

section \<open>Values, fields and schemas\<close>

datatype smp_value = VStr str | VInt int | VFloat rat | VDateTime str | VDate str

type_synonym smp_data = "(str \<times> smp_value) list"

datatype field_type = String | Integer | Float | DateTime | Date

datatype validator =
    RangeI "int option" "int option"
  | RangeF "rat option" "rat option"
  | Length "int option" "int option"
  | Regexp "nat re"

record field =
  f_name :: str
  f_type :: field_type
  f_validate :: "validator list"

type_synonym validates = "str \<times> (smp_value \<Rightarrow> exc + bool)"

record schema =
  sc_name :: str
  sc_fields :: "field list"
  sc_validates :: "validates list"
  sc_validates_schema :: "(smp_data \<Rightarrow> exc + bool) list"

definition field :: "string \<Rightarrow> field_type \<Rightarrow> validator list \<Rightarrow> field" where
  "field n t vs = \<lparr>f_name = lit n, f_type = t, f_validate = vs\<rparr>"

section \<open>What a loaded message satisfies\<close>

fun has_type :: "field_type \<Rightarrow> smp_value \<Rightarrow> bool" where
  "has_type String (VStr _) = True"
| "has_type Integer (VInt _) = True"
| "has_type Float (VFloat _) = True"
| "has_type DateTime (VDateTime _) = True"
| "has_type Date (VDate _) = True"
| "has_type _ _ = False"

definition in_range :: "'a :: linorder option \<Rightarrow> 'a option \<Rightarrow> 'a \<Rightarrow> bool" where
  "in_range lo hi x \<longleftrightarrow> (case lo of None \<Rightarrow> True | Some l \<Rightarrow> l \<le> x) \<and> (case hi of None \<Rightarrow> True | Some h \<Rightarrow> x \<le> h)"

fun validator_ok :: "validator \<Rightarrow> smp_value \<Rightarrow> bool" where
  "validator_ok (RangeI lo hi) (VInt n) = in_range lo hi n"
| "validator_ok (RangeF lo hi) (VFloat x) = in_range lo hi x"
| "validator_ok (Length lo hi) (VStr s) = in_range lo hi (int (length s))"
| "validator_ok (Regexp r) (VStr s) = (re_match r s \<noteq> None)"
| "validator_ok _ _ = False"

definition field_ok :: "smp_data \<Rightarrow> field \<Rightarrow> bool" where
  "field_ok d f = (case map_of d (f_name f) of
     None \<Rightarrow> False
   | Some v \<Rightarrow> has_type (f_type f) v \<and> list_all (\<lambda>c. validator_ok c v) (f_validate f))"

definition validates_ok :: "smp_data \<Rightarrow> validates \<Rightarrow> bool" where
  "validates_ok d m = (case map_of d (fst m) of None \<Rightarrow> False | Some v \<Rightarrow> snd m v = Inr True)"

definition schema_accepts :: "schema \<Rightarrow> smp_data \<Rightarrow> bool" where
  "schema_accepts sc d \<longleftrightarrow>
     distinct (map fst d) \<and> list_all (\<lambda>k. k \<in> set (map f_name (sc_fields sc))) (map fst d) \<and>
     list_all (field_ok d) (sc_fields sc) \<and>
     list_all (validates_ok d) (sc_validates sc) \<and>
     list_all (\<lambda>m. m d = Inr True) (sc_validates_schema sc)"

section \<open>The constants of the schemas\<close>

definition MIN_INT32 :: int where "MIN_INT32 = - (2 ^ 31)"
definition MAX_INT32 :: int where "MAX_INT32 = 2 ^ 31 - 1"
definition CONFIG_DATA_MAX_BYTES :: int where "CONFIG_DATA_MAX_BYTES = 2000"
definition COORDINATOR_TYPE_MAX_BYTES :: int where "COORDINATOR_TYPE_MAX_BYTES = 30"
definition ACCOUNT_ID_MAX_BYTES :: int where "ACCOUNT_ID_MAX_BYTES = 100"
definition TRANSFER_NOTE_MAX_BYTES :: int where "TRANSFER_NOTE_MAX_BYTES = 500"
definition REJECTION_CODE_MAX_BYTES :: int where "REJECTION_CODE_MAX_BYTES = 30"
definition STATUS_CODE_MAX_BYTES :: int where "STATUS_CODE_MAX_BYTES = 30"
definition IRI_MAX_LENGTH :: int where "IRI_MAX_LENGTH = 200"
definition CONTENT_TYPE_MAX_BYTES :: int where "CONTENT_TYPE_MAX_BYTES = 100"
definition ROOT_CREDITOR_ID :: int where "ROOT_CREDITOR_ID = 0"

definition is_upper :: "nat \<Rightarrow> bool" where "is_upper x \<longleftrightarrow> 65 \<le> x \<and> x \<le> 90"
definition is_lower :: "nat \<Rightarrow> bool" where "is_lower x \<longleftrightarrow> 97 \<le> x \<and> x \<le> 122"

definition note_char :: "nat \<Rightarrow> bool" where
  "note_char x \<longleftrightarrow> is_digit x \<or> is_upper x \<or> is_lower x \<or> x = 46 \<or> x = 45"

definition upper_hex :: "nat \<Rightarrow> bool" where
  "upper_hex x \<longleftrightarrow> is_digit x \<or> 65 \<le> x \<and> x \<le> 70"

text \<open>
  \<^verbatim>\<open>re.match\<close> starts at the beginning of the text, where \<^verbatim>\<open>^\<close> holds with and without the
  MULTILINE flag.
\<close>

definition TRANSFER_NOTE_FORMAT_REGEX :: "nat re" where
  "TRANSFER_NOTE_FORMAT_REGEX = Cat (Bol 10) (Cat (Rep (Cls note_char) 0 8) (Dollar 10))"

definition DEBTOR_INFO_SHA256_REGEX :: "nat re" where
  "DEBTOR_INFO_SHA256_REGEX =
     Cat (Bol 10) (Cat (Opt (Grp 1 (Alt (Rep (Cls upper_hex) 64 64) (Rep (Cls lower_hex) 64 64)))) (Dollar 10))"

definition IN_MESSAGE_TYPES :: "str list" where
  "IN_MESSAGE_TYPES = [lit ''ConfigureAccount'', lit ''PrepareTransfer'', lit ''FinalizeTransfer'']"

definition OUT_MESSAGE_TYPES :: "str list" where
  "OUT_MESSAGE_TYPES = [lit ''RejectedConfig'', lit ''RejectedTransfer'', lit ''PreparedTransfer'',
     lit ''FinalizedTransfer'', lit ''AccountUpdate'', lit ''AccountPurge'', lit ''AccountTransfer'']"

section \<open>The methods of the schemas\<close>

text \<open>A method for a string field, or for an integer field.\<close>

fun on_str :: "(str \<Rightarrow> exc + bool) \<Rightarrow> smp_value \<Rightarrow> exc + bool" where
  "on_str m (VStr s) = m s"
| "on_str m _ = Inl AttributeError"

fun on_int :: "(int \<Rightarrow> exc + bool) \<Rightarrow> smp_value \<Rightarrow> exc + bool" where
  "on_int m (VInt n) = m n"
| "on_int m _ = Inl TypeError"

definition isascii :: "str \<Rightarrow> bool" where
  "isascii s = list_all (\<lambda>cp. cp < 128) s"

definition max_bytes :: "int \<Rightarrow> str \<Rightarrow> exc + bool" where
  "max_bytes n s = map_sum id (\<lambda>b. \<not> n < int (length b)) (utf8_encode s)"

definition validate_type :: "str \<Rightarrow> smp_value \<Rightarrow> exc + bool" where
  "validate_type cls v = on_str (\<lambda>s. Inr (s @ lit ''MessageSchema'' = cls)) v"

definition validate_coordinator_type :: "str \<Rightarrow> exc + bool" where
  "validate_coordinator_type s = Inr (isascii s)"

definition validate_transfer_note :: "str \<Rightarrow> exc + bool" where
  "validate_transfer_note s = max_bytes TRANSFER_NOTE_MAX_BYTES s"

definition validate_config_data :: "str \<Rightarrow> exc + bool" where
  "validate_config_data s = max_bytes CONFIG_DATA_MAX_BYTES s"

definition validate_rejection_code :: "str \<Rightarrow> exc + bool" where
  "validate_rejection_code s = Inr (isascii s)"

definition validate_recipient :: "str \<Rightarrow> exc + bool" where
  "validate_recipient s = Inr (isascii s)"

definition validate_status_code_rejected :: "str \<Rightarrow> exc + bool" where
  "validate_status_code_rejected s = Inr (s \<noteq> lit ''OK'' \<and> isascii s)"

definition validate_status_code_finalized :: "str \<Rightarrow> exc + bool" where
  "validate_status_code_finalized s = Inr (isascii s)"

definition validate_account_id :: "str \<Rightarrow> exc + bool" where
  "validate_account_id s = Inr (isascii s)"

definition validate_debtor_info_content_type :: "str \<Rightarrow> exc + bool" where
  "validate_debtor_info_content_type s = Inr (isascii s)"

definition validate_sender :: "str \<Rightarrow> exc + bool" where
  "validate_sender s = Inr (isascii s)"

definition validate_acquired_amount :: "int \<Rightarrow> exc + bool" where
  "validate_acquired_amount n = Inr (n \<noteq> 0)"

text \<open>\<^verbatim>\<open>data[k]\<close>, and the comparison of two integers of the data.\<close>

definition data_get :: "smp_data \<Rightarrow> string \<Rightarrow> exc + smp_value" where
  "data_get d k = (case map_of d (lit k) of None \<Rightarrow> Inl (KeyError (lit k)) | Some v \<Rightarrow> Inr v)"

fun the_int :: "smp_value \<Rightarrow> exc + int" where
  "the_int (VInt n) = Inr n"
| "the_int _ = Inl TypeError"

definition data_int :: "smp_data \<Rightarrow> string \<Rightarrow> exc + int" where
  "data_int d k = bindE (data_get d k) the_int"

definition validate_max_locked_amount :: "smp_data \<Rightarrow> exc + bool" where
  "validate_max_locked_amount d =
     bindE (data_int d ''min_locked_amount'') (\<lambda>lo.
     bindE (data_int d ''max_locked_amount'') (\<lambda>hi. Inr (\<not> hi < lo)))"

definition validate_coordinator :: "smp_data \<Rightarrow> exc + bool" where
  "validate_coordinator d =
     bindE (data_get d ''coordinator_type'') (\<lambda>ct.
       if ct = VStr (lit ''direct'') then
         bindE (data_get d ''coordinator_id'') (\<lambda>ci.
         bindE (data_get d ''creditor_id'') (\<lambda>cr. Inr (\<not> ci \<noteq> cr)))
       else if ct = VStr (lit ''issuing'') then
         bindE (data_get d ''coordinator_id'') (\<lambda>ci.
         bindE (data_get d ''debtor_id'') (\<lambda>db.
           if ci \<noteq> db then Inr False
           else bindE (data_get d ''creditor_id'') (\<lambda>cr. Inr (\<not> cr \<noteq> VInt ROOT_CREDITOR_ID))))
       else Inr True)"

definition validate_committed_amount :: "smp_data \<Rightarrow> exc + bool" where
  "validate_committed_amount d =
     bindE (data_get d ''status_code'') (\<lambda>sc.
       if sc \<noteq> VStr (lit ''OK'') then bindE (data_get d ''committed_amount'') (\<lambda>am. Inr (\<not> am \<noteq> VInt 0))
       else Inr True)"

definition validate_transfer_number :: "smp_data \<Rightarrow> exc + bool" where
  "validate_transfer_number d =
     bindE (data_int d ''previous_transfer_number'') (\<lambda>pn.
     bindE (data_int d ''transfer_number'') (\<lambda>tn. Inr (\<not> tn \<le> pn)))"

section \<open>The schemas\<close>

definition ValidateMixin_fields :: "field list" where
  "ValidateMixin_fields = [
       field ''type'' String [],
       field ''debtor_id'' Integer [RangeI (Some MIN_INT64) (Some MAX_INT64)],
       field ''creditor_id'' Integer [RangeI (Some MIN_INT64) (Some MAX_INT64)]]"

definition ValidateMixin_validates :: "str \<Rightarrow> validates list" where
  "ValidateMixin_validates cls = [(lit ''type'', validate_type cls)]"

definition ValidateCoordinatorTypeMixin_fields :: "field list" where
  "ValidateCoordinatorTypeMixin_fields = ValidateMixin_fields @ [
       field ''coordinator_type'' String [Length (Some 1) (Some COORDINATOR_TYPE_MAX_BYTES)]]"

definition ValidateCoordinatorTypeMixin_validates :: "str \<Rightarrow> validates list" where
  "ValidateCoordinatorTypeMixin_validates cls = ValidateMixin_validates cls @
       [(lit ''coordinator_type'', on_str validate_coordinator_type)]"

definition ValidateCoordinatorFieldsMixin_fields :: "field list" where
  "ValidateCoordinatorFieldsMixin_fields = ValidateCoordinatorTypeMixin_fields @ [
       field ''coordinator_id'' Integer [RangeI (Some MIN_INT64) (Some MAX_INT64)],
       field ''coordinator_request_id'' Integer [RangeI (Some MIN_INT64) (Some MAX_INT64)]]"

definition ValidateCoordinatorFieldsMixin_validates :: "str \<Rightarrow> validates list" where
  "ValidateCoordinatorFieldsMixin_validates cls = ValidateCoordinatorTypeMixin_validates cls"

definition ValidateTransferFieldsMixin_fields :: "field list" where
  "ValidateTransferFieldsMixin_fields = [
       field ''transfer_note_format'' String [Regexp TRANSFER_NOTE_FORMAT_REGEX],
       field ''transfer_note'' String [Length None (Some TRANSFER_NOTE_MAX_BYTES)]]"

definition ValidateTransferFieldsMixin_validates :: "str \<Rightarrow> validates list" where
  "ValidateTransferFieldsMixin_validates cls = [(lit ''transfer_note'', on_str validate_transfer_note)]"

definition ConfigureAccountMessageSchema :: schema where
  "ConfigureAccountMessageSchema = \<lparr>
     sc_name = lit ''ConfigureAccountMessageSchema'',
     sc_fields = ValidateMixin_fields @ [
       field ''negligible_amount'' Float [RangeF (Some 0) None],
       field ''config_data'' String [Length None (Some CONFIG_DATA_MAX_BYTES)],
       field ''config_flags'' Integer [RangeI (Some MIN_INT32) (Some MAX_INT32)],
       field ''seqnum'' Integer [RangeI (Some MIN_INT32) (Some MAX_INT32)],
       field ''ts'' DateTime []],
     sc_validates = ValidateMixin_validates (lit ''ConfigureAccountMessageSchema'') @
       [(lit ''config_data'', on_str validate_config_data)],
     sc_validates_schema = []\<rparr>"

definition RejectedConfigMessageSchema :: schema where
  "RejectedConfigMessageSchema = \<lparr>
     sc_name = lit ''RejectedConfigMessageSchema'',
     sc_fields = ValidateMixin_fields @ [
       field ''config_ts'' DateTime [],
       field ''config_seqnum'' Integer [RangeI (Some MIN_INT32) (Some MAX_INT32)],
       field ''config_flags'' Integer [RangeI (Some MIN_INT32) (Some MAX_INT32)],
       field ''config_data'' String [Length None (Some CONFIG_DATA_MAX_BYTES)],
       field ''negligible_amount'' Float [RangeF (Some 0) None],
       field ''rejection_code'' String [Length None (Some REJECTION_CODE_MAX_BYTES)],
       field ''ts'' DateTime []],
     sc_validates = ValidateMixin_validates (lit ''RejectedConfigMessageSchema'') @
       [(lit ''config_data'', on_str validate_config_data),
       (lit ''rejection_code'', on_str validate_rejection_code)],
     sc_validates_schema = []\<rparr>"

definition PrepareTransferMessageSchema :: schema where
  "PrepareTransferMessageSchema = \<lparr>
     sc_name = lit ''PrepareTransferMessageSchema'',
     sc_fields = ValidateCoordinatorFieldsMixin_fields @ [
       field ''min_locked_amount'' Integer [RangeI (Some 0) (Some MAX_INT64)],
       field ''max_locked_amount'' Integer [RangeI (Some 0) (Some MAX_INT64)],
       field ''recipient'' String [Length None (Some ACCOUNT_ID_MAX_BYTES)],
       field ''min_interest_rate'' Float [RangeF (Some (- 100)) None],
       field ''max_commit_delay'' Integer [RangeI (Some 0) (Some MAX_INT32)],
       field ''ts'' DateTime []],
     sc_validates = ValidateCoordinatorFieldsMixin_validates (lit ''PrepareTransferMessageSchema'') @
       [(lit ''recipient'', on_str validate_recipient)],
     sc_validates_schema = [validate_max_locked_amount, validate_coordinator]\<rparr>"

definition FinalizeTransferMessageSchema :: schema where
  "FinalizeTransferMessageSchema = \<lparr>
     sc_name = lit ''FinalizeTransferMessageSchema'',
     sc_fields = ValidateCoordinatorFieldsMixin_fields @ ValidateTransferFieldsMixin_fields @ [
       field ''transfer_id'' Integer [RangeI (Some MIN_INT64) (Some MAX_INT64)],
       field ''committed_amount'' Integer [RangeI (Some 0) (Some MAX_INT64)],
       field ''ts'' DateTime []],
     sc_validates = ValidateCoordinatorFieldsMixin_validates (lit ''FinalizeTransferMessageSchema'') @ ValidateTransferFieldsMixin_validates (lit ''FinalizeTransferMessageSchema''),
     sc_validates_schema = []\<rparr>"

definition RejectedTransferMessageSchema :: schema where
  "RejectedTransferMessageSchema = \<lparr>
     sc_name = lit ''RejectedTransferMessageSchema'',
     sc_fields = ValidateCoordinatorFieldsMixin_fields @ [
       field ''status_code'' String [Length None (Some STATUS_CODE_MAX_BYTES)],
       field ''total_locked_amount'' Integer [RangeI (Some 0) (Some MAX_INT64)],
       field ''ts'' DateTime []],
     sc_validates = ValidateCoordinatorFieldsMixin_validates (lit ''RejectedTransferMessageSchema'') @
       [(lit ''status_code'', on_str validate_status_code_rejected)],
     sc_validates_schema = []\<rparr>"

definition PreparedTransferMessageSchema :: schema where
  "PreparedTransferMessageSchema = \<lparr>
     sc_name = lit ''PreparedTransferMessageSchema'',
     sc_fields = ValidateCoordinatorFieldsMixin_fields @ [
       field ''transfer_id'' Integer [RangeI (Some MIN_INT64) (Some MAX_INT64)],
       field ''locked_amount'' Integer [RangeI (Some 0) (Some MAX_INT64)],
       field ''recipient'' String [Length None (Some ACCOUNT_ID_MAX_BYTES)],
       field ''prepared_at'' DateTime [],
       field ''demurrage_rate'' Float [RangeF (Some (- 100)) (Some 0)],
       field ''deadline'' DateTime [],
       field ''min_interest_rate'' Float [RangeF (Some (- 100)) None],
       field ''ts'' DateTime []],
     sc_validates = ValidateCoordinatorFieldsMixin_validates (lit ''PreparedTransferMessageSchema'') @
       [(lit ''recipient'', on_str validate_recipient)],
     sc_validates_schema = []\<rparr>"

definition FinalizedTransferMessageSchema :: schema where
  "FinalizedTransferMessageSchema = \<lparr>
     sc_name = lit ''FinalizedTransferMessageSchema'',
     sc_fields = ValidateCoordinatorFieldsMixin_fields @ [
       field ''transfer_id'' Integer [RangeI (Some MIN_INT64) (Some MAX_INT64)],
       field ''committed_amount'' Integer [RangeI (Some 0) (Some MAX_INT64)],
       field ''status_code'' String [Length None (Some STATUS_CODE_MAX_BYTES)],
       field ''total_locked_amount'' Integer [RangeI (Some 0) (Some MAX_INT64)],
       field ''prepared_at'' DateTime [],
       field ''ts'' DateTime []],
     sc_validates = ValidateCoordinatorFieldsMixin_validates (lit ''FinalizedTransferMessageSchema'') @
       [(lit ''status_code'', on_str validate_status_code_finalized)],
     sc_validates_schema = [validate_committed_amount]\<rparr>"

definition AccountUpdateMessageSchema :: schema where
  "AccountUpdateMessageSchema = \<lparr>
     sc_name = lit ''AccountUpdateMessageSchema'',
     sc_fields = ValidateMixin_fields @ [
       field ''creation_date'' Date [],
       field ''last_change_ts'' DateTime [],
       field ''last_change_seqnum'' Integer [RangeI (Some MIN_INT32) (Some MAX_INT32)],
       field ''principal'' Integer [RangeI (Some MIN_INT64) (Some MAX_INT64)],
       field ''interest'' Float [],
       field ''interest_rate'' Float [RangeF (Some (- 100)) None],
       field ''last_interest_rate_change_ts'' DateTime [],
       field ''last_config_ts'' DateTime [],
       field ''last_config_seqnum'' Integer [RangeI (Some MIN_INT32) (Some MAX_INT32)],
       field ''negligible_amount'' Float [RangeF (Some 0) None],
       field ''config_flags'' Integer [RangeI (Some MIN_INT32) (Some MAX_INT32)],
       field ''config_data'' String [Length None (Some CONFIG_DATA_MAX_BYTES)],
       field ''account_id'' String [Length None (Some ACCOUNT_ID_MAX_BYTES)],
       field ''debtor_info_iri'' String [Length None (Some IRI_MAX_LENGTH)],
       field ''debtor_info_content_type'' String [Length None (Some CONTENT_TYPE_MAX_BYTES)],
       field ''debtor_info_sha256'' String [Regexp DEBTOR_INFO_SHA256_REGEX],
       field ''last_transfer_number'' Integer [RangeI (Some 0) (Some MAX_INT64)],
       field ''last_transfer_committed_at'' DateTime [],
       field ''demurrage_rate'' Float [RangeF (Some (- 100)) (Some 0)],
       field ''commit_period'' Integer [RangeI (Some 0) (Some MAX_INT32)],
       field ''transfer_note_max_bytes'' Integer [RangeI (Some 0) (Some TRANSFER_NOTE_MAX_BYTES)],
       field ''ts'' DateTime [],
       field ''ttl'' Integer [RangeI (Some 0) (Some MAX_INT32)]],
     sc_validates = ValidateMixin_validates (lit ''AccountUpdateMessageSchema'') @
       [(lit ''config_data'', on_str validate_config_data),
       (lit ''account_id'', on_str validate_account_id),
       (lit ''debtor_info_content_type'', on_str validate_debtor_info_content_type)],
     sc_validates_schema = []\<rparr>"

definition AccountPurgeMessageSchema :: schema where
  "AccountPurgeMessageSchema = \<lparr>
     sc_name = lit ''AccountPurgeMessageSchema'',
     sc_fields = ValidateMixin_fields @ [
       field ''creation_date'' Date [],
       field ''ts'' DateTime []],
     sc_validates = ValidateMixin_validates (lit ''AccountPurgeMessageSchema''),
     sc_validates_schema = []\<rparr>"

definition AccountTransferMessageSchema :: schema where
  "AccountTransferMessageSchema = \<lparr>
     sc_name = lit ''AccountTransferMessageSchema'',
     sc_fields = ValidateCoordinatorTypeMixin_fields @ ValidateTransferFieldsMixin_fields @ [
       field ''creation_date'' Date [],
       field ''transfer_number'' Integer [RangeI (Some 1) (Some MAX_INT64)],
       field ''sender'' String [Length None (Some ACCOUNT_ID_MAX_BYTES)],
       field ''recipient'' String [Length None (Some ACCOUNT_ID_MAX_BYTES)],
       field ''acquired_amount'' Integer [RangeI (Some MIN_INT64) (Some MAX_INT64)],
       field ''committed_at'' DateTime [],
       field ''principal'' Integer [RangeI (Some MIN_INT64) (Some MAX_INT64)],
       field ''ts'' DateTime [],
       field ''previous_transfer_number'' Integer [RangeI (Some 0) (Some MAX_INT64)]],
     sc_validates = ValidateCoordinatorTypeMixin_validates (lit ''AccountTransferMessageSchema'') @ ValidateTransferFieldsMixin_validates (lit ''AccountTransferMessageSchema'') @
       [(lit ''sender'', on_str validate_sender),
       (lit ''recipient'', on_str validate_recipient),
       (lit ''acquired_amount'', on_int validate_acquired_amount)],
     sc_validates_schema = [validate_transfer_number]\<rparr>"

definition JSON_SCHEMAS :: "(str \<times> schema) list" where
  "JSON_SCHEMAS = [
     (lit ''ConfigureAccount'', ConfigureAccountMessageSchema),
     (lit ''RejectedConfig'', RejectedConfigMessageSchema),
     (lit ''PrepareTransfer'', PrepareTransferMessageSchema),
     (lit ''FinalizeTransfer'', FinalizeTransferMessageSchema),
     (lit ''RejectedTransfer'', RejectedTransferMessageSchema),
     (lit ''PreparedTransfer'', PreparedTransferMessageSchema),
     (lit ''FinalizedTransfer'', FinalizedTransferMessageSchema),
     (lit ''AccountUpdate'', AccountUpdateMessageSchema),
     (lit ''AccountPurge'', AccountPurgeMessageSchema),
     (lit ''AccountTransfer'', AccountTransferMessageSchema)]"

lemmas mixin_defs = ValidateMixin_fields_def ValidateMixin_validates_def
  ValidateCoordinatorTypeMixin_fields_def ValidateCoordinatorTypeMixin_validates_def
  ValidateCoordinatorFieldsMixin_fields_def ValidateCoordinatorFieldsMixin_validates_def
  ValidateTransferFieldsMixin_fields_def ValidateTransferFieldsMixin_validates_def

lemmas schema_defs = ConfigureAccountMessageSchema_def RejectedConfigMessageSchema_def
  PrepareTransferMessageSchema_def FinalizeTransferMessageSchema_def RejectedTransferMessageSchema_def
  PreparedTransferMessageSchema_def FinalizedTransferMessageSchema_def AccountUpdateMessageSchema_def
  AccountPurgeMessageSchema_def AccountTransferMessageSchema_def

section \<open>What an accepted message holds\<close>

lemma accepted_field: "schema_accepts sc d \<Longrightarrow> f \<in> set (sc_fields sc) \<Longrightarrow> field_ok d f"
  by (simp add: schema_accepts_def list_all_iff)

lemma accepted_int:
  assumes "schema_accepts sc d" and "field k Integer [RangeI (Some lo) (Some hi)] \<in> set (sc_fields sc)"
  obtains n where "map_of d (lit k) = Some (VInt n)" and "lo \<le> n" and "n \<le> hi"
  using accepted_field [OF assms]
  by (auto simp: field_ok_def field_def in_range_def split: option.splits elim: has_type.elims)

lemma accepted_str:
  assumes "schema_accepts sc d" and "field k String vs \<in> set (sc_fields sc)"
  obtains s where "map_of d (lit k) = Some (VStr s)" and "list_all (\<lambda>c. validator_ok c (VStr s)) vs"
  using accepted_field [OF assms]
  by (auto simp: field_ok_def field_def split: option.splits elim: has_type.elims)

lemma accepted_validates:
  "schema_accepts sc d \<Longrightarrow> (lit k, m) \<in> set (sc_validates sc) \<Longrightarrow> map_of d (lit k) = Some v \<Longrightarrow> m v = Inr True"
  by (auto simp: schema_accepts_def list_all_iff validates_ok_def split: option.splits)

lemma accepted_keys: "schema_accepts sc d \<Longrightarrow> map_of d k = Some v \<Longrightarrow> k \<in> f_name ` set (sc_fields sc)"
  by (auto simp: schema_accepts_def list_all_iff dest: map_of_SomeD)

lemma schemas_cases [consumes 1]:
  assumes "(t, sc) \<in> set JSON_SCHEMAS"
  obtains "t = lit ''ConfigureAccount''" "sc = ConfigureAccountMessageSchema"
    | "t = lit ''RejectedConfig''" "sc = RejectedConfigMessageSchema"
    | "t = lit ''PrepareTransfer''" "sc = PrepareTransferMessageSchema"
    | "t = lit ''FinalizeTransfer''" "sc = FinalizeTransferMessageSchema"
    | "t = lit ''RejectedTransfer''" "sc = RejectedTransferMessageSchema"
    | "t = lit ''PreparedTransfer''" "sc = PreparedTransferMessageSchema"
    | "t = lit ''FinalizedTransfer''" "sc = FinalizedTransferMessageSchema"
    | "t = lit ''AccountUpdate''" "sc = AccountUpdateMessageSchema"
    | "t = lit ''AccountPurge''" "sc = AccountPurgeMessageSchema"
    | "t = lit ''AccountTransfer''" "sc = AccountTransferMessageSchema"
  using assms unfolding JSON_SCHEMAS_def list.set insert_iff prod.inject empty_iff
  by (elim disjE conjE FalseE) assumption+

lemma schemas_name: "(t, sc) \<in> set JSON_SCHEMAS \<Longrightarrow> sc_name sc = t @ lit ''MessageSchema''"
  by (erule schemas_cases) (simp_all add: schema_defs lit_append)

lemma schemas_mixin:
  assumes "(t, sc) \<in> set JSON_SCHEMAS"
  shows "set ValidateMixin_fields \<subseteq> set (sc_fields sc)"
    and "set (ValidateMixin_validates (sc_name sc)) \<subseteq> set (sc_validates sc)"
  using assms
  by (auto elim!: schemas_cases simp: schema_defs
      ValidateCoordinatorTypeMixin_fields_def ValidateCoordinatorFieldsMixin_fields_def
      ValidateCoordinatorTypeMixin_validates_def ValidateCoordinatorFieldsMixin_validates_def)

lemma schemas_coordinator:
  assumes "(t, sc) \<in> set JSON_SCHEMAS" and "lit ''coordinator_id'' \<in> f_name ` set (sc_fields sc)"
  shows "set ValidateCoordinatorFieldsMixin_fields \<subseteq> set (sc_fields sc)"
    and "set (ValidateCoordinatorFieldsMixin_validates (sc_name sc)) \<subseteq> set (sc_validates sc)"
proof -
  have "t \<in> {lit ''PrepareTransfer'', lit ''FinalizeTransfer'', lit ''RejectedTransfer'', lit ''PreparedTransfer'', lit ''FinalizedTransfer''}"
    using assms by (elim schemas_cases) (simp_all add: schema_defs, simp_all add: mixin_defs field_def)
  with assms(1) show "set ValidateCoordinatorFieldsMixin_fields \<subseteq> set (sc_fields sc)"
    "set (ValidateCoordinatorFieldsMixin_validates (sc_name sc)) \<subseteq> set (sc_validates sc)"
    by (auto elim!: schemas_cases simp: schema_defs)
qed

lemma accepted_type:
  assumes "(t, sc) \<in> set JSON_SCHEMAS" and "schema_accepts sc d"
  shows "map_of d (lit ''type'') = Some (VStr t)"
proof -
  have "field ''type'' String [] \<in> set (sc_fields sc)"
    using schemas_mixin(1) [OF assms(1)] by (simp add: mixin_defs)
  then obtain s where s: "map_of d (lit ''type'') = Some (VStr s)" by (rule accepted_str [OF assms(2)])
  have "(lit ''type'', validate_type (sc_name sc)) \<in> set (sc_validates sc)"
    using schemas_mixin(2) [OF assms(1)] by (simp add: mixin_defs)
  then have "validate_type (sc_name sc) (VStr s) = Inr True" using s by (rule accepted_validates [OF assms(2)])
  with s schemas_name [OF assms(1)] show ?thesis by (simp add: validate_type_def)
qed

lemma accepted_ids:
  assumes "(t, sc) \<in> set JSON_SCHEMAS" and "schema_accepts sc d"
  obtains c b where "map_of d (lit ''creditor_id'') = Some (VInt c)" and "int64 c"
    and "map_of d (lit ''debtor_id'') = Some (VInt b)" and "int64 b"
proof -
  have "field ''creditor_id'' Integer [RangeI (Some MIN_INT64) (Some MAX_INT64)] \<in> set (sc_fields sc)"
    "field ''debtor_id'' Integer [RangeI (Some MIN_INT64) (Some MAX_INT64)] \<in> set (sc_fields sc)"
    using schemas_mixin(1) [OF assms(1)] by (simp_all add: mixin_defs)
  then show ?thesis
    by (elim accepted_int [OF assms(2)]) (rule that; simp add: int64_def)
qed

lemma accepted_coordinator:
  assumes "(t, sc) \<in> set JSON_SCHEMAS" and "schema_accepts sc d" and "map_of d (lit ''coordinator_id'') = Some v"
  obtains i ct where "v = VInt i" and "int64 i" and "map_of d (lit ''coordinator_type'') = Some (VStr ct)"
    and "isascii ct" and "ct \<noteq> []" and "length ct \<le> 30"
proof -
  note sub = schemas_coordinator [OF assms(1) accepted_keys [OF assms(2,3)]]
  have "field ''coordinator_id'' Integer [RangeI (Some MIN_INT64) (Some MAX_INT64)] \<in> set (sc_fields sc)"
    "field ''coordinator_type'' String [Length (Some 1) (Some COORDINATOR_TYPE_MAX_BYTES)] \<in> set (sc_fields sc)"
    "(lit ''coordinator_type'', on_str validate_coordinator_type) \<in> set (sc_validates sc)"
    using sub by (simp_all add: mixin_defs)
  note f = this
  obtain i where i: "map_of d (lit ''coordinator_id'') = Some (VInt i)" "MIN_INT64 \<le> i" "i \<le> MAX_INT64"
    by (rule accepted_int [OF assms(2) f(1)])
  obtain ct where ct: "map_of d (lit ''coordinator_type'') = Some (VStr ct)"
    "list_all (\<lambda>c. validator_ok c (VStr ct)) [Length (Some 1) (Some COORDINATOR_TYPE_MAX_BYTES)]"
    by (rule accepted_str [OF assms(2) f(2)])
  have "on_str validate_coordinator_type (VStr ct) = Inr True"
    by (rule accepted_validates [OF assms(2) f(3) ct(1)])
  then show ?thesis
    using i ct assms(3)
    by (intro that) (auto simp: int64_def in_range_def COORDINATOR_TYPE_MAX_BYTES_def validate_coordinator_type_def)
qed

lemma schema_lookup: "map_of JSON_SCHEMAS t = Some sc \<Longrightarrow> (t, sc) \<in> set JSON_SCHEMAS"
  by (rule map_of_SomeD)

section \<open>The languages of the patterns\<close>

lemma rmatch_dollar_class:
  assumes "\<And>p s c. rmatch k p s c \<noteq> None \<longleftrightarrow> s = [] \<or> s = [nl]"
  shows "rmatch (Run (Rep (Cls P) lo hi) # k) p s c \<noteq> None \<longleftrightarrow>
     (\<exists>w. list_all P w \<and> lo \<le> length w \<and> length w \<le> hi \<and> (s = w \<or> s = w @ [nl]))"
proof -
  have "rmatch (Run (Rep (Cls P) lo hi) # k) p s c \<noteq> None \<longleftrightarrow>
      (\<exists>n. lo \<le> n \<and> n \<le> hi \<and> n \<le> length s \<and> list_all P (take n s) \<and> (drop n s = [] \<or> drop n s = [nl]))"
    unfolding rmatch_cls_rep_some assms ..
  also have "\<dots> \<longleftrightarrow> (\<exists>w. list_all P w \<and> lo \<le> length w \<and> length w \<le> hi \<and> (s = w \<or> s = w @ [nl]))"
    (is "(\<exists>n. ?a n) \<longleftrightarrow> (\<exists>w. ?b w)")
  proof
    assume "\<exists>n. ?a n"
    then obtain n where "?a n" by blast
    then have "?b (take n s)" by (auto simp: min_def) (metis append_take_drop_id)+
    then show "\<exists>w. ?b w" by blast
  next
    assume "\<exists>w. ?b w"
    then obtain w where "?b w" by blast
    then have "?a (length w)" by auto
    then show "\<exists>n. ?a n" by blast
  qed
  finally show ?thesis .
qed

lemma re_match_dollar_rep:
  "re_match (Cat (Bol nl) (Cat (Rep (Cls P) lo hi) (Dollar nl))) s \<noteq> None \<longleftrightarrow>
     (\<exists>w. list_all P w \<and> lo \<le> length w \<and> length w \<le> hi \<and> (s = w \<or> s = w @ [nl]))"
  using rmatch_dollar_class [of "[Run (Dollar nl)]" nl P lo hi "[]" s "\<lambda>_. None"] by (simp add: re_match_def)

text \<open>An optional group of two alternatives before the end of the text.\<close>

lemma re_match_opt_group:
  "re_match (Cat (Bol nl) (Cat (Opt (Grp i (Alt (Rep (Cls P) lo hi) (Rep (Cls Q) lo hi)))) (Dollar nl))) s \<noteq> None \<longleftrightarrow>
     (\<exists>w. (list_all P w \<or> list_all Q w) \<and> lo \<le> length w \<and> length w \<le> hi \<and> (s = w \<or> s = w @ [nl])) \<or>
     s = [] \<or> s = [nl]"
proof -
  let ?g = "Grp i (Alt (Rep (Cls P) lo hi) (Rep (Cls Q) lo hi))"
  let ?k = "[Close i s, Run (Rep ?g 0 0), Run (Dollar nl)]"
  have k: "rmatch ?k p t c \<noteq> None \<longleftrightarrow> t = [] \<or> t = [nl]" for p t c
    by (simp add: rmatch_rep)
  have "re_match (Cat (Bol nl) (Cat (Opt ?g) (Dollar nl))) s \<noteq> None \<longleftrightarrow>
      rmatch (Run (Rep (Cls P) lo hi) # ?k) [] s (\<lambda>_. None) \<noteq> None \<or>
      rmatch (Run (Rep (Cls Q) lo hi) # ?k) [] s (\<lambda>_. None) \<noteq> None \<or> s = [] \<or> s = [nl]"
    unfolding re_match_def
    by (auto simp: rmatch_rep [of ?g] simp del: not_None_eq split: option.splits)
  also have "\<dots> \<longleftrightarrow> (\<exists>w. (list_all P w \<or> list_all Q w) \<and> lo \<le> length w \<and> length w \<le> hi \<and> (s = w \<or> s = w @ [nl])) \<or>
     s = [] \<or> s = [nl]"
    unfolding rmatch_dollar_class [OF k] by blast
  finally show ?thesis .
qed

section \<open>The properties\<close>

definition example_purge :: smp_data where
  "example_purge = [(lit ''type'', VStr (lit ''AccountPurge'')), (lit ''debtor_id'', VInt 1),
     (lit ''creditor_id'', VInt 2), (lit ''creation_date'', VDate (lit ''2023-06-01'')),
     (lit ''ts'', VDateTime (lit ''2023-06-10T10:00:00+00:00''))]"

definition example_prepare :: smp_data where
  "example_prepare = [(lit ''type'', VStr (lit ''PrepareTransfer'')), (lit ''debtor_id'', VInt 0xabc),
     (lit ''creditor_id'', VInt 0x12abc), (lit ''coordinator_type'', VStr (lit ''direct'')),
     (lit ''coordinator_id'', VInt 0x12abc), (lit ''coordinator_request_id'', VInt 1),
     (lit ''min_locked_amount'', VInt 0), (lit ''max_locked_amount'', VInt 1000),
     (lit ''recipient'', VStr (lit ''acc'')), (lit ''min_interest_rate'', VFloat (- 100)),
     (lit ''max_commit_delay'', VInt 5), (lit ''ts'', VDateTime (lit ''2023-06-10T10:00:00+00:00''))]"

lemmas accept_eval = schema_accepts_def mixin_defs field_def field_ok_def validates_ok_def in_range_def
  validate_type_def validate_coordinator_type_def validate_recipient_def isascii_def
  MIN_INT64_def MAX_INT64_def MAX_INT32_def COORDINATOR_TYPE_MAX_BYTES_def ACCOUNT_ID_MAX_BYTES_def
  validate_max_locked_amount_def validate_coordinator_def data_int_def data_get_def lit_append

lemma example_purge_accepted: "schema_accepts AccountPurgeMessageSchema example_purge"
  unfolding AccountPurgeMessageSchema_def example_purge_def by (simp add: accept_eval)

lemma example_prepare_accepted: "schema_accepts PrepareTransferMessageSchema example_prepare"
  unfolding PrepareTransferMessageSchema_def example_prepare_def
  by (simp add: accept_eval) (simp add: lit_simps)

text \<open>
  C28: A message that one of the ten schemas accepts carries the name under which the schema
  is registered in its field \<^verbatim>\<open>type\<close>; its creditor and debtor identifiers are present and are
  signed 64-bit integers; and if it has a coordinator identifier, that is a signed 64-bit integer
  as well, and the coordinator type beside it is a text of 1 to 30 ASCII characters.\<close>

theorem accepted_message:
  assumes "map_of JSON_SCHEMAS t = Some sc" and "schema_accepts sc d"
  shows "map_of d (lit ''type'') = Some (VStr t) \<and>
    (\<exists>c b. map_of d (lit ''creditor_id'') = Some (VInt c) \<and> int64 c \<and>
           map_of d (lit ''debtor_id'') = Some (VInt b) \<and> int64 b) \<and>
    (case map_of d (lit ''coordinator_id'') of
            None \<Rightarrow> True
          | Some v \<Rightarrow> \<exists>i ct. v = VInt i \<and> int64 i \<and> map_of d (lit ''coordinator_type'') = Some (VStr ct) \<and>
                       isascii ct \<and> ct \<noteq> [] \<and> length ct \<le> 30)"
proof (intro conjI)
  note sc = schema_lookup [OF assms(1)]
  show "map_of d (lit ''type'') = Some (VStr t)" by (rule accepted_type [OF sc assms(2)])
  show "\<exists>c b. map_of d (lit ''creditor_id'') = Some (VInt c) \<and> int64 c \<and>
               map_of d (lit ''debtor_id'') = Some (VInt b) \<and> int64 b"
    by (rule accepted_ids [OF sc assms(2)]) blast
  show "(case map_of d (lit ''coordinator_id'') of
            None \<Rightarrow> True
          | Some v \<Rightarrow> \<exists>i ct. v = VInt i \<and> int64 i \<and> map_of d (lit ''coordinator_type'') = Some (VStr ct) \<and>
                       isascii ct \<and> ct \<noteq> [] \<and> length ct \<le> 30)"
    by (cases "map_of d (lit ''coordinator_id'')") (simp, simp, elim accepted_coordinator [OF sc assms(2)], blast)
qed

theorem accepted_message_witness:
  "map_of JSON_SCHEMAS (lit ''PrepareTransfer'') = Some PrepareTransferMessageSchema \<and>
   schema_accepts PrepareTransferMessageSchema example_prepare \<and>
   map_of example_prepare (lit ''type'') = Some (VStr (lit ''PrepareTransfer''))"
  using accepted_message [of "lit ''PrepareTransfer''" PrepareTransferMessageSchema example_prepare]
    example_prepare_accepted
  by (simp add: JSON_SCHEMAS_def)

text \<open>
  A \<^verbatim>\<open>PrepareTransfer\<close> message is only accepted if its amounts are a range of
  non-negative 64-bit numbers, if the coordinator of a direct transfer is the creditor, and if
  the coordinator of an issuing transfer is the debtor and its sender the root creditor 0.\<close>

theorem prepare_transfer_accepted:
  assumes "schema_accepts PrepareTransferMessageSchema d"
  shows "\<exists>lo hi ct ci cr db.
    map_of d (lit ''min_locked_amount'') = Some (VInt lo) \<and> map_of d (lit ''max_locked_amount'') = Some (VInt hi) \<and>
    map_of d (lit ''coordinator_type'') = Some (VStr ct) \<and> map_of d (lit ''coordinator_id'') = Some (VInt ci) \<and>
    map_of d (lit ''creditor_id'') = Some (VInt cr) \<and> map_of d (lit ''debtor_id'') = Some (VInt db) \<and>
    0 \<le> lo \<and> lo \<le> hi \<and> hi \<le> MAX_INT64 \<and>
    (ct = lit ''direct'' \<longrightarrow> ci = cr) \<and> (ct = lit ''issuing'' \<longrightarrow> ci = db \<and> cr = 0)"
proof -
  have sc: "(lit ''PrepareTransfer'', PrepareTransferMessageSchema) \<in> set JSON_SCHEMAS" by (simp add: JSON_SCHEMAS_def)
  obtain lo where lo: "map_of d (lit ''min_locked_amount'') = Some (VInt lo)" "0 \<le> lo"
    by (rule accepted_int [OF assms, of "''min_locked_amount''" 0 MAX_INT64]) (simp_all add: schema_defs)
  obtain hi where hi: "map_of d (lit ''max_locked_amount'') = Some (VInt hi)" "hi \<le> MAX_INT64"
    by (rule accepted_int [OF assms, of "''max_locked_amount''" 0 MAX_INT64]) (simp_all add: schema_defs)
  obtain cr db where ids: "map_of d (lit ''creditor_id'') = Some (VInt cr)" "map_of d (lit ''debtor_id'') = Some (VInt db)"
    by (rule accepted_ids [OF sc assms])
  obtain ci0 where ci0: "map_of d (lit ''coordinator_id'') = Some (VInt ci0)"
    by (rule accepted_int [OF assms, of "''coordinator_id''" MIN_INT64 MAX_INT64]) (simp_all add: schema_defs mixin_defs)
  obtain ct where ct: "map_of d (lit ''coordinator_type'') = Some (VStr ct)"
    by (rule accepted_coordinator [OF sc assms ci0])
  have "validate_max_locked_amount d = Inr True" "validate_coordinator d = Inr True"
    using assms by (simp_all add: schema_accepts_def PrepareTransferMessageSchema_def)
  with lo hi ids ci0 ct show ?thesis
    by (auto simp: validate_max_locked_amount_def validate_coordinator_def data_int_def data_get_def
        ROOT_CREDITOR_ID_def split: if_splits)
qed

theorem prepare_transfer_accepted_witness:
  "schema_accepts PrepareTransferMessageSchema example_prepare \<and>
   (\<exists>lo hi. map_of example_prepare (lit ''min_locked_amount'') = Some (VInt lo) \<and>
      map_of example_prepare (lit ''max_locked_amount'') = Some (VInt hi) \<and> lo \<le> hi)"
  using prepare_transfer_accepted [OF example_prepare_accepted] example_prepare_accepted by blast

text \<open>
  C39: The pattern for the format of a transfer note accepts the texts of at most 8 letters,
  digits, dots and hyphens, and also each of them with a newline at its end; the pattern for
  a SHA-256 digest accepts the empty text and 64 hexadecimal digits, all in upper or all in
  lower case, and again each of them with a newline at its end.\<close>

theorem pattern_languages:
  "(validator_ok (Regexp TRANSFER_NOTE_FORMAT_REGEX) (VStr s) \<longleftrightarrow>
     (\<exists>w. list_all note_char w \<and> length w \<le> 8 \<and> s \<in> {w, w @ [10]})) \<and>
   (validator_ok (Regexp DEBTOR_INFO_SHA256_REGEX) (VStr s) \<longleftrightarrow>
     (\<exists>w. (w = [] \<or> length w = 64 \<and> (list_all upper_hex w \<or> list_all lower_hex w)) \<and> s \<in> {w, w @ [10]}))"
proof
  show "validator_ok (Regexp TRANSFER_NOTE_FORMAT_REGEX) (VStr s) \<longleftrightarrow>
      (\<exists>w. list_all note_char w \<and> length w \<le> 8 \<and> s \<in> {w, w @ [10]})"
    using re_match_dollar_rep [of 10 note_char 0 8 s] by (auto simp: TRANSFER_NOTE_FORMAT_REGEX_def)
  show "validator_ok (Regexp DEBTOR_INFO_SHA256_REGEX) (VStr s) \<longleftrightarrow>
      (\<exists>w. (w = [] \<or> length w = 64 \<and> (list_all upper_hex w \<or> list_all lower_hex w)) \<and> s \<in> {w, w @ [10]})"
    unfolding DEBTOR_INFO_SHA256_REGEX_def validator_ok.simps re_match_opt_group
    by (simp only: insert_iff empty_iff) (metis append_Nil order_antisym order_refl)
qed

end
