(* ===== verification/Process_Messages.thy ===== *)
theory Process_Messages
  imports Common Node_Data Md5 Smp_Schemas
begin

text \<open>
  Processing of messages, from \<^verbatim>\<open>swpt_stomp/process_messages.py\<close>: an outgoing message is
  validated and its identifiers are translated to the subnet that the peer reserves for
  the node (\<open>transform_message\<close>); an incoming message is validated, translated back, and given
  headers and a routing key (\<open>preprocess_message\<close>).

  The schema methods \<^verbatim>\<open>loads\<close> and \<^verbatim>\<open>dumps\<close> belong to the package marshmallow: they are
  the arguments \<open>loads\<close> and \<open>dumps\<close>. A failing \<^verbatim>\<open>loads\<close> raises one of the three errors that
  the code expects, or any other exception that a method of the schema raises; \<^verbatim>\<open>dumps\<close> may raise too.
\<close>

declare lit_simps [simp del]

section \<open>Errors and messages\<close>

datatype load_error = JSONDecodeError | ValidationError | LoadRaises exc

datatype proc_error = ProcessingError str | Raises exc

datatype pre_error = PreServerError server_error | PreRaises exc

datatype header_value = HStr str | HInt int

record rmq_message =
  rm_id :: str
  rm_body :: bytes
  rm_headers :: "(str \<times> header_value) list"
  rm_type :: str
  rm_content_type :: str
  rm_routing_key :: "str option"

type_synonym loads_fun = "schema \<Rightarrow> str \<Rightarrow> load_error + smp_data"
type_synonym dumps_fun = "schema \<Rightarrow> smp_data \<Rightarrow> exc + str"

definition raising :: "exc + 'a \<Rightarrow> proc_error + 'a" where
  "raising r = map_sum Raises id r"

section \<open>The routing key\<close>

primrec bin_digits :: "nat \<Rightarrow> nat \<Rightarrow> str" where
  "bin_digits 0 n = []"
| "bin_digits (Suc k) n = bin_digits k (n div 2) @ [48 + n mod 2]"

text \<open>\<^verbatim>\<open>m.update(n.to_bytes(8, ...))\<close> for each number in turn.\<close>

fun i64_bytes :: "int list \<Rightarrow> exc + nat list" where
  "i64_bytes [] = Inr []"
| "i64_bytes (n # ns) = bindE (to_bytes_signed n) (\<lambda>b. map_sum id ((@) b) (i64_bytes ns))"

definition calc_bin_routing_key :: "int \<Rightarrow> int list \<Rightarrow> exc + str" where
  "calc_bin_routing_key n ns =
     bindE (i64_bytes (n # ns)) (\<lambda>bs.
       let s = concat (map (bin_digits 8) (take 3 (md5_digest bs))) in
       if length s \<noteq> 24 then Inl AssertionError
       else Inr (py_join (lit ''.'') (map (\<lambda>c. [c]) s)))"

section \<open>Reading the body\<close>

definition parse_message_body ::
  "loads_fun \<Rightarrow> bool \<Rightarrow> bool \<Rightarrow> str \<Rightarrow> str \<Rightarrow> bytes \<Rightarrow> proc_error + smp_data" where
  "parse_message_body loads allow_in_messages allow_out_messages content_type msg_type body =
     (if content_type \<noteq> lit ''application/json'' then
        Inl (ProcessingError (lit ''Unsupported content type: '' @ content_type @ lit ''.''))
      else
        (let schema =
           (if \<not> allow_in_messages \<and> msg_type \<in> set IN_MESSAGE_TYPES then None
            else if \<not> allow_out_messages \<and> msg_type \<in> set OUT_MESSAGE_TYPES then None
            else map_of JSON_SCHEMAS msg_type) in
         case schema of
           None \<Rightarrow> Inl (ProcessingError (lit ''Invalid message type: '' @ msg_type @ lit ''.''))
         | Some schema \<Rightarrow>
             (let invalid = ProcessingError (lit ''Invalid '' @ msg_type @ lit '' message.'') in
              case utf8_decode body of
                None \<Rightarrow> Inl invalid
              | Some text \<Rightarrow>
                  (case loads schema text of
                     Inr d \<Rightarrow> Inr d
                   | Inl (LoadRaises e) \<Rightarrow> Inl (Raises e)
                   | Inl _ \<Rightarrow> Inl invalid))))"

section \<open>The two functions\<close>

text \<open>The exception that a mismatched identifier raises: \<^verbatim>\<open>_as_hex\<close> itself may raise.\<close>

definition invalid_id :: "string \<Rightarrow> int \<Rightarrow> proc_error + 'a" where
  "invalid_id what n =
     bindE (raising (as_hex n)) (\<lambda>h. Inl (ProcessingError (lit what @ h @ lit ''.'')))"

definition check_subnets :: "peer_data \<Rightarrow> int \<Rightarrow> int \<Rightarrow> proc_error + unit" where
  "check_subnets peer creditor_id debtor_id =
     (if \<not> subnet_match (pd_creditors_subnet peer) creditor_id then invalid_id ''Invalid creditor ID: '' creditor_id
      else if \<not> subnet_match (pd_debtors_subnet peer) debtor_id then invalid_id ''Invalid debtor ID: '' debtor_id
      else Inr ())"

text \<open>\<^verbatim>\<open>'coordinator_id' in msg_data and msg_data['coordinator_type'] == 'direct'\<close>.\<close>

definition is_direct :: "smp_data \<Rightarrow> proc_error + bool" where
  "is_direct d =
     (if map_of d (lit ''coordinator_id'') = None then Inr False
      else raising (map_sum id (\<lambda>v. v = VStr (lit ''direct'')) (data_get d ''coordinator_type'')))"

text \<open>
  The update of the identifiers of a creditors agent, which both functions make: the new data
  and the new creditor identifier.
\<close>

definition translate_ids :: "smp_data \<Rightarrow> int \<Rightarrow> subnet \<Rightarrow> subnet \<Rightarrow> proc_error + (smp_data \<times> int)" where
  "translate_ids d orig_id from to =
     bindE (raising (change_subnet orig_id from to)) (\<lambda>creditor_id.
       let d = dict_set (lit ''creditor_id'') (VInt creditor_id) d in
       bindE (is_direct d) (\<lambda>direct.
         if direct then
           (if map_of d (lit ''coordinator_id'') \<noteq> Some (VInt orig_id)
            then Inl (ProcessingError (lit ''Invalid coordinator ID.''))
            else Inr (dict_set (lit ''coordinator_id'') (VInt creditor_id) d, creditor_id))
         else Inr (d, creditor_id)))"

definition dump_body :: "dumps_fun \<Rightarrow> str \<Rightarrow> smp_data \<Rightarrow> proc_error + bytes" where
  "dump_body dumps msg_type d =
     (case map_of JSON_SCHEMAS msg_type of
        None \<Rightarrow> Inl (Raises (KeyError msg_type))
      | Some schema \<Rightarrow> raising (bindE (dumps schema d) utf8_encode))"

definition transform_message ::
  "loads_fun \<Rightarrow> dumps_fun \<Rightarrow> node_data \<Rightarrow> peer_data \<Rightarrow> rmq_message \<Rightarrow> proc_error + message" where
  "transform_message loads dumps owner peer m =
     bindE (parse_message_body loads (nd_node_type owner \<noteq> AA) (nd_node_type owner = AA)
              (rm_content_type m) (rm_type m) (rm_body m)) (\<lambda>msg_data.
     bindE (raising (data_int msg_data ''creditor_id'')) (\<lambda>creditor_id.
     bindE (raising (data_int msg_data ''debtor_id'')) (\<lambda>debtor_id.
     bindE (if nd_node_type owner = CA then
              (if \<not> subnet_match (nd_creditors_subnet owner) creditor_id
               then invalid_id ''Invalid creditor ID: '' creditor_id
               else translate_ids msg_data creditor_id (nd_creditors_subnet owner) (pd_creditors_subnet peer))
            else Inr (msg_data, creditor_id)) (\<lambda>(msg_data, creditor_id).
     bindE (check_subnets peer creditor_id debtor_id) (\<lambda>_.
     bindE (dump_body dumps (rm_type m) msg_data) (\<lambda>body.
       Inr \<lparr>m_id = rm_id m, m_type = rm_type m, m_body = body, m_content_type = lit ''application/json''\<rparr>))))))"

text \<open>
  The headers of an incoming message: those of the coordinator only if it has one, and then
  its type has to be the one that the type of the peer allows.
\<close>

definition coordinator_headers :: "peer_data \<Rightarrow> smp_data \<Rightarrow> proc_error + (str \<times> header_value) list" where
  "coordinator_headers peer d =
     (if map_of d (lit ''coordinator_id'') = None then Inr []
      else
        bindE (raising (data_int d ''coordinator_id'')) (\<lambda>c_id.
        bindE (raising (data_get d ''coordinator_type'')) (\<lambda>v.
          case v of
            VStr c_type \<Rightarrow>
              if pd_node_type peer = CA \<and> c_type \<noteq> lit ''direct'' \<or>
                 pd_node_type peer = DA \<and> c_type \<noteq> lit ''issuing''
              then Inl (ProcessingError (lit ''Invalid coordinator type: '' @ c_type @ lit ''.''))
              else Inr [(lit ''coordinator-id'', HInt c_id), (lit ''coordinator-type'', HStr c_type)]
          | _ \<Rightarrow> Inl (Raises TypeError))))"

definition routing_key :: "node_type \<Rightarrow> int \<Rightarrow> int \<Rightarrow> exc + str" where
  "routing_key owner_node_type debtor_id creditor_id =
     (case owner_node_type of
        AA \<Rightarrow> calc_bin_routing_key debtor_id [creditor_id]
      | CA \<Rightarrow> calc_bin_routing_key creditor_id []
      | DA \<Rightarrow> calc_bin_routing_key debtor_id [])"

text \<open>The body of the \<^verbatim>\<open>try\<close> statement of \<^verbatim>\<open>preprocess_message\<close>.\<close>

definition preprocess_body ::
  "loads_fun \<Rightarrow> dumps_fun \<Rightarrow> node_data \<Rightarrow> peer_data \<Rightarrow> message \<Rightarrow> proc_error + rmq_message" where
  "preprocess_body loads dumps owner peer m =
     bindE (parse_message_body loads (nd_node_type owner = AA) (nd_node_type owner \<noteq> AA)
              (m_content_type m) (m_type m) (m_body m)) (\<lambda>msg_data.
     bindE (raising (data_int msg_data ''creditor_id'')) (\<lambda>creditor_id.
     bindE (raising (data_int msg_data ''debtor_id'')) (\<lambda>debtor_id.
     bindE (check_subnets peer creditor_id debtor_id) (\<lambda>_.
     bindE (if nd_node_type owner = CA
            then translate_ids msg_data creditor_id (pd_creditors_subnet peer) (nd_creditors_subnet owner)
            else Inr (msg_data, creditor_id)) (\<lambda>(msg_data, creditor_id).
     bindE (coordinator_headers peer msg_data) (\<lambda>coordinator.
     bindE (raising (routing_key (nd_node_type owner) debtor_id creditor_id)) (\<lambda>key.
     bindE (dump_body dumps (m_type m) msg_data) (\<lambda>body.
       Inr \<lparr>rm_id = m_id m, rm_body = body,
         rm_headers = [(lit ''message-type'', HStr (m_type m)), (lit ''debtor-id'', HInt debtor_id),
                       (lit ''creditor-id'', HInt creditor_id)] @ coordinator,
         rm_type = m_type m, rm_content_type = lit ''application/json'', rm_routing_key = Some key\<rparr>))))))))"

definition preprocess_message ::
  "loads_fun \<Rightarrow> dumps_fun \<Rightarrow> node_data \<Rightarrow> peer_data \<Rightarrow> message \<Rightarrow> pre_error + rmq_message" where
  "preprocess_message loads dumps owner peer m =
     (case preprocess_body loads dumps owner peer m of
        Inr r \<Rightarrow> Inr r
      | Inl (ProcessingError msg) \<Rightarrow>
          Inl (PreServerError \<lparr>e_message = msg, e_receipt_id = Some (m_id m), e_context = Some (m_body m),
            e_context_type = Some (m_type m), e_context_content_type = Some (m_content_type m)\<rparr>)
      | Inl (Raises e) \<Rightarrow> Inl (PreRaises e))"

section \<open>What the package promises\<close>

text \<open>
  A loaded message satisfies its schema, and a dumped text is ASCII, which is the default of the
  standard JSON module. Either method may also raise an exception of any kind.
\<close>

definition loads_sound :: "loads_fun \<Rightarrow> bool" where
  "loads_sound loads \<longleftrightarrow> (\<forall>sc s d. loads sc s = Inr d \<longrightarrow> schema_accepts sc d)"

definition dumps_ascii :: "dumps_fun \<Rightarrow> bool" where
  "dumps_ascii dumps \<longleftrightarrow> (\<forall>sc d s. dumps sc d = Inr s \<longrightarrow> list_all (\<lambda>cp. cp < 128) s)"

section \<open>Dictionaries\<close>

lemma dict_set_same: "map_of d k = Some v \<Longrightarrow> dict_set k v d = d"
  by (induction k v d rule: dict_set.induct) (auto split: if_splits)

lemma dict_set_twice: "dict_set k v (dict_set k v' d) = dict_set k v d"
  by (induction k v' d rule: dict_set.induct) auto

lemma dict_set_swap: "k \<noteq> k' \<Longrightarrow> map_of d k \<noteq> None \<Longrightarrow> map_of d k' \<noteq> None \<Longrightarrow>
    dict_set k v (dict_set k' v' d) = dict_set k' v' (dict_set k v d)"
  by (induction d) auto

section \<open>Lemmas on the parts\<close>

lemma raising_simps [simp]:
  "raising (Inl e) = Inl (Raises e)" "raising (Inr x) = Inr x"
  "raising r = Inr x \<longleftrightarrow> r = Inr x"
  "raising r = Inl (ProcessingError msg) \<longleftrightarrow> False"
  by (simp_all add: raising_def) (cases r; simp)+

lemma message_types: "map_of JSON_SCHEMAS t = Some sc \<Longrightarrow> t \<in> set IN_MESSAGE_TYPES \<union> set OUT_MESSAGE_TYPES"
  by (drule schema_lookup, erule schemas_cases) (simp_all add: IN_MESSAGE_TYPES_def OUT_MESSAGE_TYPES_def)

lemma parse_message_body_Inr:
  assumes "parse_message_body loads ai ao ct t body = Inr d" and "loads_sound loads"
  obtains sc s where "map_of JSON_SCHEMAS t = Some sc" and "schema_accepts sc d"
    and "ct = lit ''application/json''" and "utf8_decode body = Some s" and "loads sc s = Inr d"
    and "ai \<noteq> ao \<Longrightarrow> t \<in> set (if ai then IN_MESSAGE_TYPES else OUT_MESSAGE_TYPES)"
proof -
  obtain sc s where sc: "map_of JSON_SCHEMAS t = Some sc" "ct = lit ''application/json''"
    "utf8_decode body = Some s" "loads sc s = Inr d"
    "\<not> (\<not> ai \<and> t \<in> set IN_MESSAGE_TYPES)" "\<not> (\<not> ao \<and> t \<in> set OUT_MESSAGE_TYPES)"
    using assms(1) unfolding parse_message_body_def Let_def
    by (auto split: if_splits option.splits sum.splits load_error.splits)
  moreover have "schema_accepts sc d" using assms(2) sc(4) by (simp add: loads_sound_def)
  moreover have "ai \<noteq> ao \<Longrightarrow> t \<in> set (if ai then IN_MESSAGE_TYPES else OUT_MESSAGE_TYPES)"
    using message_types [OF sc(1)] sc(5,6) by auto
  ultimately show ?thesis using that by blast
qed

lemma parse_message_body_raises:
  assumes "parse_message_body loads ai ao ct t body = Inl (Raises e)"
  obtains sc s where "map_of JSON_SCHEMAS t = Some sc" and "utf8_decode body = Some s" and "loads sc s = Inl (LoadRaises e)"
  using assms unfolding parse_message_body_def Let_def
  by (auto split: if_splits option.splits sum.splits load_error.splits)

lemma check_subnets_Inr [simp]:
  "check_subnets peer c b = Inr u \<longleftrightarrow> subnet_match (pd_creditors_subnet peer) c \<and> subnet_match (pd_debtors_subnet peer) b"
  by (auto simp: check_subnets_def invalid_id_def bindE_eq_Inr_conv)

lemma check_subnets_raises: "int64 c \<Longrightarrow> int64 b \<Longrightarrow> check_subnets peer c b \<noteq> Inl (Raises e)"
  by (auto simp: check_subnets_def invalid_id_def as_hex_def to_bytes_signed_def)

lemma dump_body_raises:
  assumes "dumps_ascii dumps" and "map_of JSON_SCHEMAS t = Some sc" and "dump_body dumps t d = Inl (Raises e)"
  shows "dumps sc d = Inl e"
proof (cases "dumps sc d")
  case (Inr s)
  have "list_all scalar s"
    using assms(1) Inr unfolding dumps_ascii_def
    by (fastforce simp: list_all_iff scalar_def surrogate_def)
  with assms(2,3) Inr show ?thesis by (simp add: dump_body_def utf8_encode_def)
qed (use assms(2,3) in \<open>simp add: dump_body_def\<close>)

section \<open>Translating identifiers\<close>

lemma is_direct_creditor [simp]: "is_direct (dict_set (lit ''creditor_id'') v d) = is_direct d"
  by (simp add: is_direct_def data_get_def)

lemma is_direct_coordinator [simp]:
  "map_of d (lit ''coordinator_id'') \<noteq> None \<Longrightarrow> is_direct (dict_set (lit ''coordinator_id'') v d) = is_direct d"
  by (auto simp: is_direct_def data_get_def)

lemma is_direct_accepted:
  assumes "map_of JSON_SCHEMAS t = Some sc" and "schema_accepts sc d"
  shows "\<exists>b. is_direct d = Inr b"
proof (cases "map_of d (lit ''coordinator_id'')")
  case (Some v)
  then obtain ct where "map_of d (lit ''coordinator_type'') = Some (VStr ct)"
    by (rule accepted_coordinator [OF schema_lookup [OF assms(1)] assms(2)])
  with Some show ?thesis by (simp add: is_direct_def data_get_def)
qed (auto simp: is_direct_def)

lemma translate_ids_Inr:
  assumes "translate_ids d c from to = Inr (d', c')"
  shows "change_subnet c from to = Inr c'" and "map_of d' (lit ''creditor_id'') = Some (VInt c')"
    and "k \<notin> {lit ''creditor_id'', lit ''coordinator_id''} \<Longrightarrow> map_of d' k = map_of d k"
    and "map_of d' (lit ''coordinator_id'') =
      (if is_direct d = Inr True then Some (VInt c') else map_of d (lit ''coordinator_id''))"
proof -
  obtain b where b: "is_direct d = Inr b" and "change_subnet c from to = Inr c'"
    and "d' = (if b then dict_set (lit ''coordinator_id'') (VInt c') (dict_set (lit ''creditor_id'') (VInt c') d)
               else dict_set (lit ''creditor_id'') (VInt c') d)"
    using assms by (fastforce simp: translate_ids_def bindE_eq_Inr_conv Let_def split: if_splits)
  then show "change_subnet c from to = Inr c'" and "map_of d' (lit ''creditor_id'') = Some (VInt c')"
    and "k \<notin> {lit ''creditor_id'', lit ''coordinator_id''} \<Longrightarrow> map_of d' k = map_of d k"
    and "map_of d' (lit ''coordinator_id'') =
      (if is_direct d = Inr True then Some (VInt c') else map_of d (lit ''coordinator_id''))"
    by auto
qed

lemma translate_ids_coordinator:
  assumes "translate_ids d c from to = Inr (d', c')" and "map_of d' (lit ''coordinator_id'') = Some v"
  shows "\<exists>v. map_of d (lit ''coordinator_id'') = Some v"
  using translate_ids_Inr(4) [OF assms(1)] assms(2) by (auto simp: is_direct_def split: if_splits)

lemma translate_ids_type:
  "translate_ids d c from to = Inr (d', c') \<Longrightarrow> map_of d' (lit ''coordinator_type'') = map_of d (lit ''coordinator_type'')"
  using translate_ids_Inr(3) [of d c "from" to d' c' "lit ''coordinator_type''"] by simp

lemma translate_ids_back:
  assumes "translate_ids d c from to = Inr (d', c')" and "change_subnet c' to from = Inr c"
    and "map_of d (lit ''creditor_id'') = Some (VInt c)"
  shows "translate_ids d' c' to from = Inr (d, c)"
proof -
  obtain b where b: "is_direct d = Inr b" using assms(1) by (auto simp: translate_ids_def bindE_eq_Inr_conv Let_def)
  show ?thesis
  proof (cases b)
    case True
    then have co: "map_of d (lit ''coordinator_id'') = Some (VInt c)"
      and d': "d' = dict_set (lit ''coordinator_id'') (VInt c') (dict_set (lit ''creditor_id'') (VInt c') d)"
      using assms(1) b by (auto simp: translate_ids_def bindE_eq_Inr_conv Let_def split: if_splits)
    have "dict_set (lit ''coordinator_id'') (VInt c) (dict_set (lit ''creditor_id'') (VInt c) d') = d"
      using co assms(3) by (simp add: d' dict_set_twice dict_set_same
          dict_set_swap [of "lit ''creditor_id''" "lit ''coordinator_id''" "dict_set (lit ''creditor_id'') (VInt c') d"])
    with True b co d' assms(2) show ?thesis by (simp add: translate_ids_def Let_def)
  next
    case False
    with assms b have "d' = dict_set (lit ''creditor_id'') (VInt c') d"
      by (auto simp: translate_ids_def bindE_eq_Inr_conv Let_def)
    with False b assms(2,3) show ?thesis by (simp add: translate_ids_def Let_def dict_set_twice dict_set_same)
  qed
qed

text \<open>The creditors' subnets of a node and its peer have the same size and the same sign.\<close>

definition paired :: "subnet \<Rightarrow> subnet \<Rightarrow> bool" where
  "paired f t \<longleftrightarrow> (\<exists>k. wf_subnet_bits k f \<and> wf_subnet_bits k t \<and> same_sign k f t)"

lemma paired_sym: "paired f t \<Longrightarrow> paired t f"
  by (auto simp: paired_def same_sign_def)

lemma paired_change:
  assumes "paired f t" and "subnet_match f c"
  obtains c' where "change_subnet c f t = Inr c'" and "subnet_match t c'" and "change_subnet c' t f = Inr c"
proof -
  obtain k where k: "wf_subnet_bits k f" "wf_subnet_bits k t" "same_sign k f t" using assms(1) by (auto simp: paired_def)
  obtain c' where c': "change_subnet c f t = Inr c'" using change_subnet_bits [OF k(1,2) assms(2)] by blast
  show ?thesis
    using that [OF c'] change_subnet_match [OF k(1,2) assms(2) c'] change_subnet_back [OF k(1,2) assms(2) c' k(3)] k(3)
    by simp
qed

lemma translate_ids_raises:
  assumes "paired f t" and "subnet_match f c" and "is_direct d = Inr b"
  shows "translate_ids d c f t \<noteq> Inl (Raises e)"
proof -
  obtain c' where "change_subnet c f t = Inr c'" using paired_change [OF assms(1,2)] by blast
  with assms(3) show ?thesis by (simp add: translate_ids_def Let_def)
qed

section \<open>The routing key\<close>

lemma i64_bytes_Inr: "list_all int64 ns \<Longrightarrow> \<exists>bs. i64_bytes ns = Inr bs"
proof (induction ns)
  case (Cons n ns)
  then obtain bs where "i64_bytes ns = Inr bs" by auto
  with Cons show ?case by (simp add: to_bytes_signed_def)
qed simp

lemma bin_digits_length [simp]: "length (bin_digits k n) = k"
  by (induction k arbitrary: n) simp_all

lemma bin_digits_set: "x \<in> set (bin_digits k n) \<Longrightarrow> x = 48 \<or> x = 49"
  by (induction k arbitrary: n) auto

lemma take_3: "length xs = 16 \<Longrightarrow> \<exists>a b c. take 3 xs = [a, b, c]"
  by (auto simp: numeral_eq_Suc length_Suc_conv)

lemma calc_bin_routing_key_Inr:
  assumes "list_all int64 (n # ns)"
  shows "\<exists>s. calc_bin_routing_key n ns = Inr (py_join (lit ''.'') (map (\<lambda>c. [c]) s)) \<and> length s = 24 \<and> set s \<subseteq> {48, 49}"
proof -
  obtain bs where bs: "i64_bytes (n # ns) = Inr bs" using i64_bytes_Inr [OF assms] by blast
  obtain a b c where abc: "take 3 (md5_digest bs) = [a, b, c]" using take_3 md5_digest_length by blast
  define s where "s = concat (map (bin_digits 8) (take 3 (md5_digest bs)))"
  have "length s = 24" by (simp add: s_def abc)
  moreover have "set s \<subseteq> {48, 49}" using bin_digits_set by (auto simp: s_def)
  ultimately show ?thesis
    unfolding calc_bin_routing_key_def bs bindE.simps s_def [symmetric] Let_def by auto
qed

lemma routing_key_Inr: "int64 b \<Longrightarrow> int64 c \<Longrightarrow> \<exists>key. routing_key nt b c = Inr key"
  using calc_bin_routing_key_Inr [of b "[c]"] calc_bin_routing_key_Inr [of c "[]"] calc_bin_routing_key_Inr [of b "[]"]
  by (cases nt) (auto simp: routing_key_def)

lemma bin_digits_8: "bin_digits 8 n =
   [48 + n div 2 ^ 7 mod 2, 48 + n div 2 ^ 6 mod 2, 48 + n div 2 ^ 5 mod 2, 48 + n div 2 ^ 4 mod 2,
    48 + n div 2 ^ 3 mod 2, 48 + n div 2 ^ 2 mod 2, 48 + n div 2 ^ 1 mod 2, 48 + n div 2 ^ 0 mod 2]"
proof -
  have "bin_digits k n = map (\<lambda>i. 48 + n div 2 ^ i mod 2) (rev [0..<k])" for k
  proof (induction k arbitrary: n)
    case (Suc k)
    have "rev [0..<Suc k] = map Suc (rev [0..<k]) @ [0]"
      by (simp add: upt_conv_Cons map_Suc_upt [symmetric] rev_map [symmetric] del: upt_Suc)
    then show ?case by (simp add: Suc div_mult2_eq)
  qed simp
  from this [of 8] show ?thesis by (simp add: upt_rec)
qed

lemma i64_examples:
  "i64_bytes [123] = Inr [0, 0, 0, 0, 0, 0, 0, 123]"
  "i64_bytes [- 123] = Inr [255, 255, 255, 255, 255, 255, 255, 133]"
  "i64_bytes [123, 456] = Inr [0, 0, 0, 0, 0, 0, 0, 123, 0, 0, 0, 0, 0, 0, 1, 200]"
  by code_simp+

section \<open>The steps of the two functions\<close>

lemma data_int_Inr: "data_int d k = Inr n \<longleftrightarrow> map_of d (lit k) = Some (VInt n)"
  by (auto simp: data_int_def data_get_def bindE_eq_Inr_conv split: option.splits elim: the_int.elims)

lemma preprocess_steps:
  assumes "preprocess_message loads dumps owner peer m = Inr r"
  obtains d c b d' c' hs key body where
    "parse_message_body loads (nd_node_type owner = AA) (nd_node_type owner \<noteq> AA) (m_content_type m) (m_type m) (m_body m) = Inr d"
    and "map_of d (lit ''creditor_id'') = Some (VInt c)" and "map_of d (lit ''debtor_id'') = Some (VInt b)"
    and "subnet_match (pd_creditors_subnet peer) c" and "subnet_match (pd_debtors_subnet peer) b"
    and "(if nd_node_type owner = CA
          then translate_ids d c (pd_creditors_subnet peer) (nd_creditors_subnet owner) else Inr (d, c)) = Inr (d', c')"
    and "coordinator_headers peer d' = Inr hs" and "routing_key (nd_node_type owner) b c' = Inr key"
    and "r = \<lparr>rm_id = m_id m, rm_body = body,
         rm_headers = [(lit ''message-type'', HStr (m_type m)), (lit ''debtor-id'', HInt b), (lit ''creditor-id'', HInt c')] @ hs,
         rm_type = m_type m, rm_content_type = lit ''application/json'', rm_routing_key = Some key\<rparr>"
proof -
  have "preprocess_body loads dumps owner peer m = Inr r"
    using assms by (auto simp: preprocess_message_def split: sum.splits proc_error.splits)
  then show ?thesis
    unfolding preprocess_body_def bindE_eq_Inr_conv raising_simps data_int_Inr check_subnets_Inr
    by (auto simp only: split_paired_Ex prod.case bindE_eq_Inr_conv raising_simps data_int_Inr check_subnets_Inr sum.inject
        intro: that)
qed

lemma transform_steps:
  assumes "transform_message loads dumps owner peer m = Inr r"
  obtains d c b d' c' body where
    "parse_message_body loads (nd_node_type owner \<noteq> AA) (nd_node_type owner = AA) (rm_content_type m) (rm_type m) (rm_body m) = Inr d"
    and "map_of d (lit ''creditor_id'') = Some (VInt c)" and "map_of d (lit ''debtor_id'') = Some (VInt b)"
    and "(if nd_node_type owner = CA
          then (if \<not> subnet_match (nd_creditors_subnet owner) c then invalid_id ''Invalid creditor ID: '' c
                else translate_ids d c (nd_creditors_subnet owner) (pd_creditors_subnet peer)) else Inr (d, c)) = Inr (d', c')"
    and "subnet_match (pd_creditors_subnet peer) c'" and "subnet_match (pd_debtors_subnet peer) b"
    and "dump_body dumps (rm_type m) d' = Inr body"
    and "r = \<lparr>m_id = rm_id m, m_type = rm_type m, m_body = body, m_content_type = lit ''application/json''\<rparr>"
  using assms unfolding transform_message_def bindE_eq_Inr_conv raising_simps data_int_Inr check_subnets_Inr
  by (auto simp only: split_paired_Ex prod.case bindE_eq_Inr_conv raising_simps data_int_Inr check_subnets_Inr sum.inject
      intro: that)

text \<open>The identifiers of a message that passes, in either direction.\<close>

lemma preprocess_ids:
  assumes "preprocess_message loads dumps owner peer m = Inr r"
  obtains c b c' key where "subnet_match (pd_creditors_subnet peer) c" and "subnet_match (pd_debtors_subnet peer) b"
    and "if nd_node_type owner = CA then change_subnet c (pd_creditors_subnet peer) (nd_creditors_subnet owner) = Inr c' else c' = c"
    and "map_of (rm_headers r) (lit ''creditor-id'') = Some (HInt c')" and "map_of (rm_headers r) (lit ''debtor-id'') = Some (HInt b)"
    and "rm_type r = m_type m" and "rm_routing_key r = Some key" and "routing_key (nd_node_type owner) b c' = Inr key"
proof (rule preprocess_steps [OF assms])
  fix d c b d' c' hs key body
  assume "subnet_match (pd_creditors_subnet peer) c" "subnet_match (pd_debtors_subnet peer) b"
    "(if nd_node_type owner = CA
      then translate_ids d c (pd_creditors_subnet peer) (nd_creditors_subnet owner) else Inr (d, c)) = Inr (d', c')"
    "routing_key (nd_node_type owner) b c' = Inr key"
    "r = \<lparr>rm_id = m_id m, rm_body = body,
         rm_headers = [(lit ''message-type'', HStr (m_type m)), (lit ''debtor-id'', HInt b), (lit ''creditor-id'', HInt c')] @ hs,
         rm_type = m_type m, rm_content_type = lit ''application/json'', rm_routing_key = Some key\<rparr>"
  then show ?thesis using translate_ids_Inr(1) by (intro that [of c b c' key]) (auto split: if_splits)
qed

lemma transform_ids:
  assumes "transform_message loads dumps owner peer m = Inr r"
  obtains sc d c b where "map_of JSON_SCHEMAS (m_type r) = Some sc" and "bindE (dumps sc d) utf8_encode = Inr (m_body r)"
    and "m_id r = rm_id m" and "m_type r = rm_type m"
    and "map_of d (lit ''creditor_id'') = Some (VInt c)" and "subnet_match (pd_creditors_subnet peer) c"
    and "map_of d (lit ''debtor_id'') = Some (VInt b)" and "subnet_match (pd_debtors_subnet peer) b"
proof (rule transform_steps [OF assms])
  fix d c b d' c' body
  assume c: "map_of d (lit ''creditor_id'') = Some (VInt c)" and b: "map_of d (lit ''debtor_id'') = Some (VInt b)"
    and t: "(if nd_node_type owner = CA
          then (if \<not> subnet_match (nd_creditors_subnet owner) c then invalid_id ''Invalid creditor ID: '' c
                else translate_ids d c (nd_creditors_subnet owner) (pd_creditors_subnet peer)) else Inr (d, c)) = Inr (d', c')"
    and m: "subnet_match (pd_creditors_subnet peer) c'" "subnet_match (pd_debtors_subnet peer) b"
    and e: "dump_body dumps (rm_type m) d' = Inr body"
    and r: "r = \<lparr>m_id = rm_id m, m_type = rm_type m, m_body = body, m_content_type = lit ''application/json''\<rparr>"
  have "map_of d' (lit ''creditor_id'') = Some (VInt c')" "map_of d' (lit ''debtor_id'') = Some (VInt b)"
    using t c b translate_ids_Inr(2,3) [of d c _ _ d' c'] by (auto simp: invalid_id_def bindE_eq_Inr_conv split: if_splits)
  moreover obtain sc where "map_of JSON_SCHEMAS (rm_type m) = Some sc" "bindE (dumps sc d') utf8_encode = Inr body"
    using e by (auto simp: dump_body_def split: option.splits)
  ultimately show ?thesis using m by (intro that [of sc d' c' b]) (simp_all add: r)
qed

lemma coordinator_headers_Inr:
  assumes "coordinator_headers peer d = Inr hs" and "map_of d (lit ''coordinator_id'') \<noteq> None"
  shows "(pd_node_type peer = CA \<longrightarrow> map_of d (lit ''coordinator_type'') = Some (VStr (lit ''direct''))) \<and>
      (pd_node_type peer = DA \<longrightarrow> map_of d (lit ''coordinator_type'') = Some (VStr (lit ''issuing'')))"
proof -
  obtain v where v: "map_of d (lit ''coordinator_type'') = Some v"
    using assms by (auto simp: coordinator_headers_def bindE_eq_Inr_conv data_get_def split: option.splits)
  with assms show ?thesis
    by (cases v) (auto simp: coordinator_headers_def bindE_eq_Inr_conv data_get_def split: if_splits)
qed

lemma coordinator_headers_accepted:
  assumes "map_of JSON_SCHEMAS t = Some sc" and "schema_accepts sc d"
    and "\<And>i. map_of d (lit ''coordinator_id'') = Some (VInt i) \<Longrightarrow> \<exists>j. map_of d' (lit ''coordinator_id'') = Some (VInt j)"
    and "map_of d' (lit ''coordinator_id'') \<noteq> None \<Longrightarrow> map_of d (lit ''coordinator_id'') \<noteq> None"
    and "map_of d' (lit ''coordinator_type'') = map_of d (lit ''coordinator_type'')"
  shows "coordinator_headers peer d' \<noteq> Inl (Raises e)"
proof (cases "map_of d' (lit ''coordinator_id'')")
  case (Some v')
  then obtain v where v: "map_of d (lit ''coordinator_id'') = Some v" using assms(4) by auto
  obtain i ct where "v = VInt i" "map_of d (lit ''coordinator_type'') = Some (VStr ct)"
    using v by (rule accepted_coordinator [OF schema_lookup [OF assms(1)] assms(2)])
  with v assms(3,5) show ?thesis
    by (auto simp: coordinator_headers_def data_get_def data_int_def split: if_splits)
qed (simp add: coordinator_headers_def)

lemma bindE_not_Inl: "m \<noteq> Inl e \<Longrightarrow> (\<And>x. m = Inr x \<Longrightarrow> f x \<noteq> Inl e) \<Longrightarrow> bindE m f \<noteq> Inl e"
  by (cases m) simp_all

text \<open>The part of \<^verbatim>\<open>preprocess_message\<close> after the checks of the identifiers.\<close>

lemma preprocess_tail_raises:
  assumes "dumps_ascii dumps" and pair: "nd_node_type owner = CA \<Longrightarrow> paired (pd_creditors_subnet peer) (nd_creditors_subnet owner)"
    and sc: "map_of JSON_SCHEMAS ty = Some sc" "schema_accepts sc d" and ids: "int64 c" "int64 b"
    and match: "subnet_match (pd_creditors_subnet peer) c" and quiet: "\<And>d. dumps sc d \<noteq> Inl e"
  shows "bindE (if nd_node_type owner = CA
      then translate_ids d c (pd_creditors_subnet peer) (nd_creditors_subnet owner) else Inr (d, c)) (\<lambda>(d, c).
      bindE (coordinator_headers peer d) (\<lambda>hs.
      bindE (raising (routing_key (nd_node_type owner) b c)) (\<lambda>key.
      bindE (dump_body dumps ty d) (\<lambda>body. Inr (R d c hs key body))))) \<noteq> Inl (Raises e)"
    (is "bindE ?t _ \<noteq> _")
proof (rule bindE_not_Inl)
  obtain dir where "is_direct d = Inr dir" using is_direct_accepted [OF sc] by blast
  then show "?t \<noteq> Inl (Raises e)" using translate_ids_raises [OF pair match] by simp
next
  fix x
  assume x: "?t = Inr x"
  obtain d' c' where dc: "x = (d', c')" by (cases x)
  have c': "int64 c'"
  proof (cases "nd_node_type owner = CA")
    case True
    then have "change_subnet c (pd_creditors_subnet peer) (nd_creditors_subnet owner) = Inr c'"
      using x dc translate_ids_Inr(1) by simp
    with paired_change [OF pair [OF True] match] show ?thesis by (auto simp: subnet_match_def)
  qed (use x dc ids in simp)
  have co: "coordinator_headers peer d' \<noteq> Inl (Raises e)"
    by (rule coordinator_headers_accepted [OF sc])
      (use x dc in \<open>auto simp: translate_ids_coordinator translate_ids_type dest: translate_ids_Inr(4) split: if_splits\<close>)
  obtain key where "routing_key (nd_node_type owner) b c' = Inr key" using routing_key_Inr [OF ids(2) c'] by blast
  moreover have "dump_body dumps ty d' \<noteq> Inl (Raises e)" using dump_body_raises [OF assms(1) sc(1)] quiet by blast
  ultimately show "(case x of (d, c) \<Rightarrow> bindE (coordinator_headers peer d) (\<lambda>hs.
    bindE (raising (routing_key (nd_node_type owner) b c)) (\<lambda>key.
    bindE (dump_body dumps ty d) (\<lambda>body. Inr (R d c hs key body))))) \<noteq> Inl (Raises e)"
    using co by (cases "coordinator_headers peer d'"; cases "dump_body dumps ty d'") (simp_all add: dc)
qed

lemma preprocess_body_raises:
  assumes "loads_sound loads" and "dumps_ascii dumps"
    and "nd_node_type owner = CA \<Longrightarrow> paired (pd_creditors_subnet peer) (nd_creditors_subnet owner)"
    and "preprocess_body loads dumps owner peer m = Inl (Raises e)"
  shows "\<exists>sc. map_of JSON_SCHEMAS (m_type m) = Some sc \<and>
    ((\<exists>s. utf8_decode (m_body m) = Some s \<and> loads sc s = Inl (LoadRaises e)) \<or> (\<exists>d. dumps sc d = Inl e))"
    (is "?raised")
proof (rule ccontr)
  assume n: "\<not> ?raised"
  have "preprocess_body loads dumps owner peer m \<noteq> Inl (Raises e)"
    unfolding preprocess_body_def
  proof (rule bindE_not_Inl, goal_cases)
    case 1
    show ?case using n by (blast elim: parse_message_body_raises)
  next
    case (2 d)
    then obtain sc where sc: "map_of JSON_SCHEMAS (m_type m) = Some sc" "schema_accepts sc d"
      by (rule parse_message_body_Inr [OF _ assms(1)]) blast
    obtain c b where cb: "map_of d (lit ''creditor_id'') = Some (VInt c)" "int64 c"
      "map_of d (lit ''debtor_id'') = Some (VInt b)" "int64 b"
      by (rule accepted_ids [OF schema_lookup [OF sc(1)] sc(2)])
    have "data_int d ''creditor_id'' = Inr c" "data_int d ''debtor_id'' = Inr b"
      using cb by (simp_all add: data_int_Inr)
    moreover have "dumps sc d' \<noteq> Inl e" for d' using n sc(1) by blast
    ultimately show ?case
      by (simp only: raising_simps bindE.simps)
        (rule bindE_not_Inl [OF check_subnets_raises [OF cb(2,4)]], rule preprocess_tail_raises [OF assms(2,3) sc cb(2,4)], simp_all)
  qed
  with assms(4) show False by simp
qed

section \<open>An example\<close>

text \<open>
  A creditors agent and its accounting authority, and a package that reads every text as the
  same \<^verbatim>\<open>PrepareTransfer\<close> message and refuses schemas that do not accept it.
\<close>

definition example_loads :: loads_fun where
  "example_loads sc s = (if schema_accepts sc example_prepare then Inr example_prepare else Inl ValidationError)"

definition example_dumps :: dumps_fun where
  "example_dumps sc d = Inr (lit ''{}'')"

definition example_node :: "node_type \<Rightarrow> node_data" where
  "example_node nt = \<lparr>nd_node_type = nt, nd_node_id = lit ''1234abcd'', nd_root_cert = [],
     nd_creditors_subnet = example_subnet (lit ''000000''), nd_debtors_subnet = example_subnet []\<rparr>"

definition example_peer :: "node_type \<Rightarrow> peer_data" where
  "example_peer nt = \<lparr>pd_node_type = nt, pd_node_id = lit ''5678'',
     pd_stomp_config = \<lparr>sc_servers = [], sc_host = [], sc_destination = [], sc_login = None, sc_passcode = None,
       sc_accepted_content_types = []\<rparr>,
     pd_root_cert = [], pd_sub_cert = [], pd_creditors_subnet = example_subnet (lit ''000000''),
     pd_debtors_subnet = example_subnet [], pd_is_active = True\<rparr>"

definition example_rmq :: rmq_message where
  "example_rmq = \<lparr>rm_id = lit ''1'', rm_body = ''{}'', rm_headers = [], rm_type = lit ''PrepareTransfer'',
     rm_content_type = lit ''application/json'', rm_routing_key = None\<rparr>"

definition example_message :: message where
  "example_message = \<lparr>m_id = lit ''1'', m_type = lit ''PrepareTransfer'', m_body = ''{}'',
     m_content_type = lit ''application/json''\<rparr>"

lemma example_codec: "loads_sound example_loads" "dumps_ascii example_dumps"
  by (auto simp: loads_sound_def dumps_ascii_def example_loads_def example_dumps_def lit_simps)

lemma example_subnet_match:
  "subnet_match (example_subnet []) 0xabc" "subnet_match (example_subnet (lit ''000000'')) 0x12abc"
  by (simp_all add: example_subnet_eval lower_hex_def hex_value_def hex_val_def lit_simps
      subnet_match_def int64_def MIN_INT64_def MAX_INT64_def)

lemma example_wf: "wf_subnet_bits 24 (example_subnet (lit ''000000''))" "wf_subnet_bits 24 (example_subnet (lit ''1234ab''))"
  using subnet_parse_bits(1) [OF example_subnet_parse [of "lit ''000000''"]]
    subnet_parse_bits(1) [OF example_subnet_parse [of "lit ''1234ab''"]]
  by (simp_all add: lower_hex_def lit_simps)

lemma example_paired: "paired (example_subnet (lit ''000000'')) (example_subnet (lit ''1234ab''))"
proof -
  have "same_sign 24 (example_subnet (lit ''000000'')) (example_subnet (lit ''1234ab''))"
    by (simp add: same_sign_def example_subnet_eval lower_hex_def hex_value_def hex_val_def lit_simps bit_iff_odd)
  with example_wf show ?thesis by (auto simp: paired_def)
qed

lemma example_body_read:
  "parse_message_body example_loads True ao (lit ''application/json'') (lit ''PrepareTransfer'') ''{}'' = Inr example_prepare"
  by (simp add: parse_message_body_def JSON_SCHEMAS_def OUT_MESSAGE_TYPES_def example_loads_def
      example_prepare_accepted Let_def utf8_decode.simps)

lemma example_data:
  "map_of example_prepare (lit ''creditor_id'') = Some (VInt 0x12abc)"
  "map_of example_prepare (lit ''debtor_id'') = Some (VInt 0xabc)"
  "map_of example_prepare (lit ''coordinator_id'') = Some (VInt 0x12abc)"
  "map_of example_prepare (lit ''coordinator_type'') = Some (VStr (lit ''direct''))"
  by (simp_all add: example_prepare_def)

lemmas example_eval = example_node_def example_peer_def example_rmq_def example_message_def example_body_read
  example_data data_int_def data_get_def example_subnet_match check_subnets_def coordinator_headers_def
  dump_body_def JSON_SCHEMAS_def example_dumps_def utf8_encode_def scalar_def surrogate_def

lemma example_transform: "\<exists>r. transform_message example_loads example_dumps (example_node DA) (example_peer AA) example_rmq = Inr r"
  by (simp add: transform_message_def example_eval) (simp add: lit_simps scalar_def surrogate_def)

lemma example_preprocess:
  "\<exists>r. preprocess_message example_loads example_dumps (example_node AA) (example_peer CA) example_message = Inr r"
proof -
  obtain key where "routing_key AA 0xabc 0x12abc = Inr key"
    using routing_key_Inr [of "0xabc" "0x12abc" AA] by (auto simp: int64_def MIN_INT64_def MAX_INT64_def)
  then show ?thesis by (simp add: preprocess_message_def preprocess_body_def example_eval) (simp add: lit_simps scalar_def surrogate_def)
qed

lemma example_translate:
  obtains d' c' where
    "translate_ids example_prepare 0x12abc (example_subnet (lit ''000000'')) (example_subnet (lit ''1234ab'')) = Inr (d', c')"
proof -
  obtain c' where "change_subnet 0x12abc (example_subnet (lit ''000000'')) (example_subnet (lit ''1234ab'')) = Inr c'"
    by (rule paired_change [OF example_paired example_subnet_match(2)])
  then show ?thesis
    using that by (simp add: translate_ids_def is_direct_def data_get_def example_data Let_def)
qed

section \<open>The properties\<close>

text \<open>
  C10: A message that \<^verbatim>\<open>preprocess_message\<close> lets through is of a type that peers of the node may
  send (the types for accounting authorities if the node is one, the types from accounting
  authorities otherwise), its body loaded under the schema of that type, and the identifiers in
  it are in the subnets of the peer. The headers carry the debtor identifier and the creditor
  identifier, the latter translated to the subnet of the node if the node is a creditors agent,
  and the routing key is that of these two numbers. A coordinator has the type that the peer's own type allows.\<close>

theorem preprocess_sound:
  assumes "loads_sound loads" and "preprocess_message loads dumps owner peer m = Inr r"
  shows "\<exists>sc s d c b c'.
    m_type m \<in> set (if nd_node_type owner = AA then IN_MESSAGE_TYPES else OUT_MESSAGE_TYPES) \<and>
    map_of JSON_SCHEMAS (m_type m) = Some sc \<and> utf8_decode (m_body m) = Some s \<and> loads sc s = Inr d \<and>
    map_of d (lit ''creditor_id'') = Some (VInt c) \<and> subnet_match (pd_creditors_subnet peer) c \<and>
    map_of d (lit ''debtor_id'') = Some (VInt b) \<and> subnet_match (pd_debtors_subnet peer) b \<and>
    (if nd_node_type owner = CA
     then change_subnet c (pd_creditors_subnet peer) (nd_creditors_subnet owner) = Inr c' else c' = c) \<and>
    rm_id r = m_id m \<and> rm_type r = m_type m \<and>
    map_of (rm_headers r) (lit ''creditor-id'') = Some (HInt c') \<and>
    map_of (rm_headers r) (lit ''debtor-id'') = Some (HInt b) \<and>
    map_option Inr (rm_routing_key r) = Some (routing_key (nd_node_type owner) b c') \<and>
    (map_of d (lit ''coordinator_id'') \<noteq> None \<longrightarrow>
       (pd_node_type peer = CA \<longrightarrow> map_of d (lit ''coordinator_type'') = Some (VStr (lit ''direct''))) \<and>
       (pd_node_type peer = DA \<longrightarrow> map_of d (lit ''coordinator_type'') = Some (VStr (lit ''issuing''))))"
proof -
  obtain d c b d' c' hs key body where
    p: "parse_message_body loads (nd_node_type owner = AA) (nd_node_type owner \<noteq> AA) (m_content_type m) (m_type m) (m_body m) = Inr d"
    and c: "map_of d (lit ''creditor_id'') = Some (VInt c)" and b: "map_of d (lit ''debtor_id'') = Some (VInt b)"
    and m: "subnet_match (pd_creditors_subnet peer) c" "subnet_match (pd_debtors_subnet peer) b"
    and t: "(if nd_node_type owner = CA
          then translate_ids d c (pd_creditors_subnet peer) (nd_creditors_subnet owner) else Inr (d, c)) = Inr (d', c')"
    and h: "coordinator_headers peer d' = Inr hs" and k: "routing_key (nd_node_type owner) b c' = Inr key"
    and r: "r = \<lparr>rm_id = m_id m, rm_body = body,
         rm_headers = [(lit ''message-type'', HStr (m_type m)), (lit ''debtor-id'', HInt b), (lit ''creditor-id'', HInt c')] @ hs,
         rm_type = m_type m, rm_content_type = lit ''application/json'', rm_routing_key = Some key\<rparr>"
    by (rule preprocess_steps [OF assms(2)])
  obtain sc s where s: "map_of JSON_SCHEMAS (m_type m) = Some sc" "utf8_decode (m_body m) = Some s" "loads sc s = Inr d"
    and ty: "m_type m \<in> set (if nd_node_type owner = AA then IN_MESSAGE_TYPES else OUT_MESSAGE_TYPES)"
    by (rule parse_message_body_Inr [OF p assms(1)]) blast
  have tr: "if nd_node_type owner = CA
      then change_subnet c (pd_creditors_subnet peer) (nd_creditors_subnet owner) = Inr c' else c' = c"
    using t translate_ids_Inr(1) by (auto split: if_splits)
  have same: "map_of d' (lit ''coordinator_type'') = map_of d (lit ''coordinator_type'')"
    "map_of d (lit ''coordinator_id'') \<noteq> None \<Longrightarrow> map_of d' (lit ''coordinator_id'') \<noteq> None"
    using t translate_ids_Inr(3) [of d c _ _ d' c' "lit ''coordinator_type''"] translate_ids_Inr(4) [of d c _ _ d' c']
    by (auto split: if_splits)
  have co: "map_of d (lit ''coordinator_id'') \<noteq> None \<longrightarrow>
       (pd_node_type peer = CA \<longrightarrow> map_of d (lit ''coordinator_type'') = Some (VStr (lit ''direct''))) \<and>
       (pd_node_type peer = DA \<longrightarrow> map_of d (lit ''coordinator_type'') = Some (VStr (lit ''issuing'')))"
    using coordinator_headers_Inr [OF h] same by simp
  show ?thesis
    by (intro exI conjI) (rule ty s c m(1) b m(2) tr co | simp add: r k)+
qed

theorem preprocess_sound_witness:
  "\<exists>r. preprocess_message example_loads example_dumps (example_node AA) (example_peer CA) example_message = Inr r \<and>
     map_of (rm_headers r) (lit ''creditor-id'') = Some (HInt 0x12abc) \<and>
     map_of (rm_headers r) (lit ''debtor-id'') = Some (HInt 0xabc)"
proof -
  obtain r where r: "preprocess_message example_loads example_dumps (example_node AA) (example_peer CA) example_message = Inr r"
    using example_preprocess by blast
  have "\<exists>c b. map_of (rm_headers r) (lit ''creditor-id'') = Some (HInt c) \<and> map_of (rm_headers r) (lit ''debtor-id'') = Some (HInt b) \<and>
      map_of example_prepare (lit ''creditor_id'') = Some (VInt c) \<and> map_of example_prepare (lit ''debtor_id'') = Some (VInt b)"
    using preprocess_sound [OF example_codec(1) r]
    by (auto simp: example_node_def example_loads_def split: if_splits)
  with r show ?thesis by (auto simp: example_data)
qed

text \<open>
  C11: A message that \<^verbatim>\<open>transform_message\<close> lets through is of a type that the node may send to a
  peer (the types from accounting authorities if the node is one, the types for accounting authorities
  otherwise), and it is the text of data whose creditor and debtor identifiers are in the subnets of
  the peer: the data that was loaded, but for a creditors agent with the creditor identifier
  translated from the subnet of the node, and every other field but the coordinator identifier as it was.\<close>

theorem transform_sound:
  assumes "loads_sound loads" and "transform_message loads dumps owner peer m = Inr r"
  shows "\<exists>sc s d d' c' b.
    rm_type m \<in> set (if nd_node_type owner = AA then OUT_MESSAGE_TYPES else IN_MESSAGE_TYPES) \<and>
    map_of JSON_SCHEMAS (rm_type m) = Some sc \<and> utf8_decode (rm_body m) = Some s \<and> loads sc s = Inr d \<and>
    m_id r = rm_id m \<and> m_type r = rm_type m \<and> bindE (dumps sc d') utf8_encode = Inr (m_body r) \<and>
    map_of d' (lit ''creditor_id'') = Some (VInt c') \<and> subnet_match (pd_creditors_subnet peer) c' \<and>
    map_of d' (lit ''debtor_id'') = Some (VInt b) \<and> subnet_match (pd_debtors_subnet peer) b \<and>
    (if nd_node_type owner = CA
     then (\<exists>c. map_of d (lit ''creditor_id'') = Some (VInt c) \<and> subnet_match (nd_creditors_subnet owner) c \<and>
               change_subnet c (nd_creditors_subnet owner) (pd_creditors_subnet peer) = Inr c') \<and>
          (\<forall>k. k \<notin> {lit ''creditor_id'', lit ''coordinator_id''} \<longrightarrow> map_of d' k = map_of d k)
     else d' = d)"
proof -
  obtain d c b d' c' body where
    p: "parse_message_body loads (nd_node_type owner \<noteq> AA) (nd_node_type owner = AA) (rm_content_type m) (rm_type m) (rm_body m) = Inr d"
    and c: "map_of d (lit ''creditor_id'') = Some (VInt c)" and b: "map_of d (lit ''debtor_id'') = Some (VInt b)"
    and t: "(if nd_node_type owner = CA
          then (if \<not> subnet_match (nd_creditors_subnet owner) c then invalid_id ''Invalid creditor ID: '' c
                else translate_ids d c (nd_creditors_subnet owner) (pd_creditors_subnet peer)) else Inr (d, c)) = Inr (d', c')"
    and m: "subnet_match (pd_creditors_subnet peer) c'" "subnet_match (pd_debtors_subnet peer) b"
    and e: "dump_body dumps (rm_type m) d' = Inr body"
    and r: "r = \<lparr>m_id = rm_id m, m_type = rm_type m, m_body = body, m_content_type = lit ''application/json''\<rparr>"
    by (rule transform_steps [OF assms(2)])
  obtain sc s where s: "map_of JSON_SCHEMAS (rm_type m) = Some sc" "utf8_decode (rm_body m) = Some s" "loads sc s = Inr d"
    and ty0: "rm_type m \<in> set (if nd_node_type owner \<noteq> AA then IN_MESSAGE_TYPES else OUT_MESSAGE_TYPES)"
    by (rule parse_message_body_Inr [OF p assms(1)]) blast
  have ty: "rm_type m \<in> set (if nd_node_type owner = AA then OUT_MESSAGE_TYPES else IN_MESSAGE_TYPES)"
    using ty0 by (simp split: if_splits)
  have t': "if nd_node_type owner = CA
      then subnet_match (nd_creditors_subnet owner) c \<and>
        translate_ids d c (nd_creditors_subnet owner) (pd_creditors_subnet peer) = Inr (d', c')
      else d' = d \<and> c' = c"
    using t by (auto simp: invalid_id_def bindE_eq_Inr_conv split: if_splits)
  have "map_of d' (lit ''creditor_id'') = Some (VInt c')" "map_of d' (lit ''debtor_id'') = Some (VInt b)"
    using t' c b translate_ids_Inr(2,3) [of d c _ _ d' c'] by (auto split: if_splits)
  moreover have "if nd_node_type owner = CA
     then (\<exists>c. map_of d (lit ''creditor_id'') = Some (VInt c) \<and> subnet_match (nd_creditors_subnet owner) c \<and>
               change_subnet c (nd_creditors_subnet owner) (pd_creditors_subnet peer) = Inr c') \<and>
          (\<forall>k. k \<notin> {lit ''creditor_id'', lit ''coordinator_id''} \<longrightarrow> map_of d' k = map_of d k)
     else d' = d"
  proof (cases "nd_node_type owner = CA")
    case True
    with t' have tr: "translate_ids d c (nd_creditors_subnet owner) (pd_creditors_subnet peer) = Inr (d', c')" by simp
    with True t' c translate_ids_Inr(1,3) [OF tr] show ?thesis by simp
  qed (use t' in simp)
  moreover have "bindE (dumps sc d') utf8_encode = Inr (m_body r)" using e s(1) r by (simp add: dump_body_def)
  ultimately show ?thesis
    using ty s m by (intro exI conjI) (assumption | simp add: r)+
qed

theorem transform_sound_witness:
  "\<exists>r. transform_message example_loads example_dumps (example_node DA) (example_peer AA) example_rmq = Inr r \<and>
     m_id r = lit ''1'' \<and> m_type r = lit ''PrepareTransfer''"
proof -
  obtain r where r: "transform_message example_loads example_dumps (example_node DA) (example_peer AA) example_rmq = Inr r"
    using example_transform by blast
  with transform_sound [OF example_codec(1) r] show ?thesis by (auto simp: example_rmq_def)
qed

text \<open>
  C24: What a creditors agent does to the identifiers of a message on its way out, the same
  agent undoes when it comes back, and the other way round: the translation from the one creditors'
  subnet to the other restores the data exactly, with the coordinator identifier of a
  direct transfer in step with the creditor identifier.\<close>

theorem translation_roundtrip:
  assumes "paired f t" and "map_of d (lit ''creditor_id'') = Some (VInt c)" and "subnet_match f c"
    and "translate_ids d c f t = Inr (d', c')"
  shows "subnet_match t c' \<and> map_of d' (lit ''creditor_id'') = Some (VInt c') \<and>
    (is_direct d = Inr True \<longrightarrow> map_of d' (lit ''coordinator_id'') = Some (VInt c')) \<and>
    translate_ids d' c' t f = Inr (d, c)"
proof -
  obtain c'' where c'': "change_subnet c f t = Inr c''" "subnet_match t c''" "change_subnet c'' t f = Inr c"
    by (rule paired_change [OF assms(1,3)])
  with translate_ids_Inr(1) [OF assms(4)] have "subnet_match t c'" "change_subnet c' t f = Inr c" by simp_all
  with translate_ids_back [OF assms(4) _ assms(2)] translate_ids_Inr(2,4) [OF assms(4)] show ?thesis by simp
qed

theorem translation_roundtrip_witness:
  "\<exists>d' c'. translate_ids example_prepare 0x12abc (example_subnet (lit ''000000'')) (example_subnet (lit ''1234ab'')) = Inr (d', c') \<and>
     map_of d' (lit ''coordinator_id'') = Some (VInt c') \<and>
     translate_ids d' c' (example_subnet (lit ''1234ab'')) (example_subnet (lit ''000000'')) = Inr (example_prepare, 0x12abc)"
proof -
  obtain d' c' where t:
    "translate_ids example_prepare 0x12abc (example_subnet (lit ''000000'')) (example_subnet (lit ''1234ab'')) = Inr (d', c')"
    by (rule example_translate)
  have "is_direct example_prepare = Inr True" by (simp add: is_direct_def data_get_def example_data)
  with translation_roundtrip [OF example_paired example_data(1) example_subnet_match(2) t] t show ?thesis by blast
qed

text \<open>
  C25: If the subnets of the node and its peer are paired, then \<^verbatim>\<open>preprocess_message\<close> either returns a
  message with the identifier that it was given, or raises ServerError, with the identifier of the
  message as its receipt and with the body, the type and the content type of the message as its
  context. Another exception escapes only if a method of the schema itself raises it: \<^verbatim>\<open>loads\<close>, for the text of
  the body, an exception that is not one of those that mean an invalid message, or \<^verbatim>\<open>dumps\<close>.\<close>

theorem preprocess_total:
  assumes "loads_sound loads" and "dumps_ascii dumps"
    and "nd_node_type owner = CA \<Longrightarrow> paired (pd_creditors_subnet peer) (nd_creditors_subnet owner)"
  shows "case preprocess_message loads dumps owner peer m of
      Inr r \<Rightarrow> rm_id r = m_id m
    | Inl (PreServerError e) \<Rightarrow>
        e_receipt_id e = Some (m_id m) \<and> e_context e = Some (m_body m) \<and>
        e_context_type e = Some (m_type m) \<and> e_context_content_type e = Some (m_content_type m)
    | Inl (PreRaises e) \<Rightarrow>
        (\<exists>sc. map_of JSON_SCHEMAS (m_type m) = Some sc \<and>
           ((\<exists>s. utf8_decode (m_body m) = Some s \<and> loads sc s = Inl (LoadRaises e)) \<or> (\<exists>d. dumps sc d = Inl e)))"
proof (cases "preprocess_body loads dumps owner peer m")
  case (Inl e)
  with preprocess_body_raises [OF assms] show ?thesis
    by (cases e) (auto simp: preprocess_message_def)
next
  case (Inr r)
  then have "preprocess_message loads dumps owner peer m = Inr r" by (simp add: preprocess_message_def)
  then show ?thesis by (auto elim!: preprocess_steps)
qed

text \<open>A package that also raises, for a text with a surrogate, and otherwise works as the one above.\<close>

definition example_raising :: loads_fun where
  "example_raising sc s = (if list_ex surrogate s then Inl (LoadRaises UnicodeEncodeError) else example_loads sc s)"

theorem preprocess_total_witness:
  "loads_sound example_raising \<and> dumps_ascii example_dumps \<and>
   paired (pd_creditors_subnet (example_peer AA)) (nd_creditors_subnet (example_node CA)) \<and>
   \<not> (\<exists>e. preprocess_message example_raising example_dumps (example_node CA) (example_peer AA) example_message = Inl (PreRaises e))"
proof -
  have p: "paired (pd_creditors_subnet (example_peer AA)) (nd_creditors_subnet (example_node CA))"
    using example_wf(1) by (auto simp: paired_def same_sign_def example_peer_def example_node_def)
  have l: "loads_sound example_raising"
    using example_codec(1) by (simp add: loads_sound_def example_raising_def)
  have "example_raising sc (lit ''{}'') \<noteq> Inl (LoadRaises e)" "utf8_decode (m_body example_message) = Some (lit ''{}'')" for sc e
    by (simp_all add: example_raising_def example_loads_def example_message_def lit_simps surrogate_def utf8_decode.simps)
  from preprocess_total [OF l example_codec(2), of "example_node CA" "example_peer AA" example_message] p l example_codec(2) this
  show ?thesis by (auto simp: example_dumps_def split: sum.splits pre_error.splits)
qed

text \<open>
  C36: The routing key of 64-bit integers is a text of 24 binary digits with dots between them; and
  it is the one that the documentation gives for 123, for -123 and for 123 with 456.\<close>

theorem routing_key_text:
  "(int64 n \<and> list_all int64 ns \<longrightarrow>
     (\<exists>s. calc_bin_routing_key n ns = Inr (py_join (lit ''.'') (map (\<lambda>c. [c]) s)) \<and> length s = 24 \<and> set s \<subseteq> {48, 49})) \<and>
   calc_bin_routing_key 123 [] = Inr (lit ''1.1.1.1.1.1.0.0.0.0.0.1.0.0.0.0.0.1.1.0.0.0.1.1'') \<and>
   calc_bin_routing_key (- 123) [] = Inr (lit ''1.1.0.0.0.0.1.1.1.1.1.1.1.1.1.0.1.0.1.0.1.1.1.1'') \<and>
   calc_bin_routing_key 123 [456] = Inr (lit ''0.0.0.0.1.0.0.0.0.1.0.0.0.1.0.0.0.0.1.1.0.1.0.0'')"
proof (intro conjI impI)
  assume "int64 n \<and> list_all int64 ns"
  then show "\<exists>s. calc_bin_routing_key n ns = Inr (py_join (lit ''.'') (map (\<lambda>c. [c]) s)) \<and> length s = 24 \<and> set s \<subseteq> {48, 49}"
    by (intro calc_bin_routing_key_Inr) simp
next
  show "calc_bin_routing_key 123 [] = Inr (lit ''1.1.1.1.1.1.0.0.0.0.0.1.0.0.0.0.0.1.1.0.0.0.1.1'')"
    "calc_bin_routing_key (- 123) [] = Inr (lit ''1.1.0.0.0.0.1.1.1.1.1.1.1.1.1.0.1.0.1.0.1.1.1.1'')"
    "calc_bin_routing_key 123 [456] = Inr (lit ''0.0.0.0.1.0.0.0.0.1.0.0.0.1.0.0.0.0.1.1.0.1.0.0'')"
    unfolding calc_bin_routing_key_def i64_examples bindE.simps md5_examples
    by (simp_all add: bin_digits_8 lit_simps)
qed

theorem routing_key_text_witness:
  "\<exists>s. calc_bin_routing_key 1 [2] = Inr (py_join (lit ''.'') (map (\<lambda>c. [c]) s)) \<and> length s = 24"
proof -
  have "int64 1 \<and> list_all int64 [2]" by (simp add: int64_def MIN_INT64_def MAX_INT64_def)
  with routing_key_text [of 1 "[2]"] show ?thesis by blast
qed

end
