(* ===== verification/Rmq_Channel.thy ===== *)
theory Rmq_Channel
  imports Common Complex_Main
begin

text \<open>
  The opening of RabbitMQ channels in \<^verbatim>\<open>swpt_stomp/rmq.py\<close>: \<^verbatim>\<open>open_robust_channel\<close> and the context
  manager \<^verbatim>\<open>_open_channel\<close>. The calls of the package \<^verbatim>\<open>aio_pika\<close> are values; which of them raise,
  and what, is an argument. An operation gives the calls in their order and the exception that
  ended it, if any.
\<close>

declare lit_simps [simp del]

datatype rmq_call =
    Connect_robust str rat
  | Connect str rat
  | Open_channel bool bool rat
  | Set_qos int int rat
  | Close_connection

type_synonym 'e rmq_answers = "rmq_call \<Rightarrow> 'e option"

text \<open>Publisher confirms are switched on, and a message that cannot be routed raises an exception.\<close>

definition open_robust_channel :: "'e rmq_answers \<Rightarrow> str \<Rightarrow> rat \<Rightarrow> rmq_call list \<times> 'e option" where
  "open_robust_channel answers url timeout =
     run_calls answers [Connect_robust url timeout, Open_channel True True timeout]"

text \<open>
  \<^verbatim>\<open>_open_channel\<close> up to \<^verbatim>\<open>yield\<close>: once the connection is open, an exception closes it. After the body
  the connection is closed, however the body has ended; that this may fail is a step of the
  publisher and of the consumer.
\<close>

definition open_channel_calls :: "rat \<Rightarrow> int \<Rightarrow> int \<Rightarrow> rmq_call list" where
  "open_channel_calls timeout prefetch_count prefetch_size =
     [Open_channel True True timeout] @
     (if prefetch_count \<noteq> 0 \<or> prefetch_size \<noteq> 0 then [Set_qos prefetch_count prefetch_size timeout] else [])"

definition open_channel :: "'e rmq_answers \<Rightarrow> str \<Rightarrow> rat \<Rightarrow> int \<Rightarrow> int \<Rightarrow> rmq_call list \<times> 'e option" where
  "open_channel answers url timeout prefetch_count prefetch_size =
     (case answers (Connect url timeout) of
        Some e \<Rightarrow> ([Connect url timeout], Some e)
      | None \<Rightarrow>
          (let (calls, e) = run_calls answers (open_channel_calls timeout prefetch_count prefetch_size) in
           (Connect url timeout # calls @ (if e = None then [] else [Close_connection]), e)))"

section \<open>What the opening gives\<close>

lemma open_channel_answered: "(\<And>c. answers c = None) \<Longrightarrow> snd (open_channel answers url timeout n m) = None"
  by (simp add: open_channel_def run_calls_answered)

lemma open_channel_ok:
  assumes "open_channel answers url timeout n m = (calls, None)"
  shows "calls = Connect url timeout # open_channel_calls timeout n m"
  using assms by (auto simp: open_channel_def dest: run_calls_None split: option.splits prod.splits if_splits)

text \<open>A connection that was opened for nothing is closed again.\<close>

lemma open_channel_raises:
  assumes "open_channel answers url timeout n m = (calls, Some e)"
  shows "calls = [Connect url timeout] \<and> answers (Connect url timeout) = Some e \<or>
    (\<exists>opened. calls = Connect url timeout # opened @ [Close_connection] \<and> Close_connection \<notin> set opened)"
proof (cases "answers (Connect url timeout)")
  case (Some x)
  with assms show ?thesis by (simp add: open_channel_def)
next
  case None
  obtain opened where opened: "run_calls answers (open_channel_calls timeout n m) = (opened, Some e)"
    "calls = Connect url timeout # opened @ [Close_connection]"
    using assms None by (auto simp: open_channel_def split: prod.splits if_splits)
  from run_calls_Some [OF opened(1)] obtain rest where "open_channel_calls timeout n m = opened @ rest" by blast
  moreover have "Close_connection \<notin> set (open_channel_calls timeout n m)" by (simp add: open_channel_calls_def)
  ultimately have "Close_connection \<notin> set opened" by simp
  with opened(2) show ?thesis by blast
qed

end
