(* ===== verification/Rmq_Publisher.thy ===== *)
theory Rmq_Publisher
  imports Process_Messages Rmq_Channel
begin

text \<open>
  The publisher of \<^verbatim>\<open>swpt_stomp/rmq.py\<close>, \<^verbatim>\<open>publish_to_exchange\<close>: it takes messages from a receive
  queue, publishes them to a RabbitMQ exchange, and puts confirmations into a send queue.

  The three tasks of \<^verbatim>\<open>_publish_to_exchange\<close> run concurrently, and so do the deliveries that it
  starts; each task is cut where it waits, and one step runs it from one wait to the next. The
  broker (the package \<^verbatim>\<open>aio_pika\<close>) confirms a published message or fails to, in any order and after
  any time; \<^verbatim>\<open>preprocess_message\<close> is an argument. An object of the class \<^verbatim>\<open>_Delivery\<close> is mutated
  after it was appended to the deque, so it carries the number of its creation as its identity.
  A channel is passed by the caller, or is opened in one step before the runs; when that fails, no
  task is started.
\<close>

section \<open>The state\<close>

record delivery =
  dl_ref :: nat
  dl_message_id :: str
  dl_confirmed :: bool

text \<open>
  What \<^verbatim>\<open>exchange.publish\<close> is called with: the \<^verbatim>\<open>aio_pika.Message\<close>, the routing key and the flag
  \<^verbatim>\<open>mandatory\<close>. The delivery mode of every message is \<^verbatim>\<open>PERSISTENT\<close>.
\<close>

record broker_message =
  bm_body :: bytes
  bm_headers :: "(str \<times> header_value) list"
  bm_type :: str
  bm_content_type :: str
  bm_persistent :: bool
  bm_app_id :: str
  bm_routing_key :: str
  bm_mandatory :: bool

definition broker_message_of :: "rmq_message \<Rightarrow> broker_message" where
  "broker_message_of m = \<lparr>bm_body = rm_body m, bm_headers = rm_headers m, bm_type = rm_type m,
     bm_content_type = rm_content_type m, bm_persistent = True, bm_app_id = lit ''swpt_stomp'',
     bm_routing_key = (case rm_routing_key m of None \<Rightarrow> [] | Some key \<Rightarrow> key), bm_mandatory = True\<rparr>"

text \<open>The coroutine \<^verbatim>\<open>deliver_message\<close>: before and after the message was handed to the broker.\<close>

datatype deliver_state = Preprocessing | Publishing broker_message

text \<open>Why a delivery failed: what \<^verbatim>\<open>publish_to_exchange\<close> distinguishes.\<close>

datatype pub_exc = PubServerError server_error | PubConnectionError | PubException

datatype pub_pc = PubGet | PubWait message | PubDone
datatype rec_pc = RecWait | RecPut str | RecDone
datatype pub_result = PubEnded | PubFailed pub_exc

record publisher =
  pb_send :: "str send_item aqueue"
  pb_recv :: "(message option, flow_cb) wqueue"
  pb_callbacks :: "flow_cb list"
  pb_deliveries :: "delivery list"
  pb_next_ref :: nat
  pb_can_make_deliveries :: bool
  pb_pending :: "(nat \<times> message \<times> deliver_state) list"
  pb_has_confirmed :: bool
  pb_has_failed :: bool
  pb_failed :: "pub_exc option"
  pb_pc :: pub_pc
  pb_rc :: rec_pc
  pb_result :: "pub_result option"
  pb_cancelled :: bool
  pb_terminated :: bool
  pb_raised :: bool
  pb_opened :: bool

definition publisher_new :: "str send_item aqueue \<Rightarrow> (message option, flow_cb) wqueue \<Rightarrow> publisher" where
  "publisher_new send recv = \<lparr>pb_send = send, pb_recv = recv, pb_callbacks = [], pb_deliveries = [],
     pb_next_ref = 0, pb_can_make_deliveries = True, pb_pending = [], pb_has_confirmed = False,
     pb_has_failed = False, pb_failed = None, pb_pc = PubGet, pb_rc = RecWait, pb_result = None,
     pb_cancelled = False, pb_terminated = False, pb_raised = False, pb_opened = False\<rparr>"

definition max_parallel_deliveries :: "publisher \<Rightarrow> int" where
  "max_parallel_deliveries s = max (aq_maxsize (pb_send s)) 1"

text \<open>
  \<^verbatim>\<open>publish_to_exchange\<close> up to the tasks: with the channel of the caller, or with one of its own
  (\<open>pb_opened\<close>), which it closes at the end.
\<close>

definition publisher_failed :: "pub_exc \<Rightarrow> str send_item aqueue \<Rightarrow> (message option, flow_cb) wqueue \<Rightarrow> publisher" where
  "publisher_failed e send recv =
     (publisher_new send recv)\<lparr>pb_pc := PubDone, pb_rc := RecDone, pb_result := Some (PubFailed e)\<rparr>"

definition publish_to_exchange ::
  "pub_exc rmq_answers \<Rightarrow> bool \<Rightarrow> str \<Rightarrow> rat \<Rightarrow> str send_item aqueue \<Rightarrow> (message option, flow_cb) wqueue \<Rightarrow>
   rmq_call list \<times> publisher" where
  "publish_to_exchange answers channel_passed url connection_timeout send_queue recv_queue =
     (if channel_passed then ([], publisher_new send_queue recv_queue)
      else
        (let (calls, failed) = open_channel answers url connection_timeout 0 0 in
         (calls, case failed of None \<Rightarrow> (publisher_new send_queue recv_queue)\<lparr>pb_opened := True\<rparr>
                              | Some e \<Rightarrow> publisher_failed e send_queue recv_queue)))"

section \<open>The callback and the tasks\<close>

text \<open>\<^verbatim>\<open>on_confirmation\<close>: the delivery with the given identity succeeded, or failed for a reason.\<close>

definition on_confirmation :: "nat \<Rightarrow> pub_exc option \<Rightarrow> publisher \<Rightarrow> publisher" where
  "on_confirmation ref failed s =
     (let s = s\<lparr>pb_pending := filter (\<lambda>c. fst c \<noteq> ref) (pb_pending s)\<rparr> in
      case failed of
        Some e \<Rightarrow>
          if pb_failed s = None then s\<lparr>pb_failed := Some e, pb_has_failed := True\<rparr> else s
      | None \<Rightarrow>
          s\<lparr>pb_deliveries := map (\<lambda>d. if dl_ref d = ref then d\<lparr>dl_confirmed := True\<rparr> else d) (pb_deliveries s),
            pb_has_confirmed := True\<rparr>)"

text \<open>
  \<^verbatim>\<open>publish_messages\<close>: from \<^verbatim>\<open>recv_queue.get()\<close> to \<^verbatim>\<open>can_make_deliveries.wait()\<close>. A \<^verbatim>\<open>None\<close> ends the
  loop and cancels the two other tasks. The first task that ends with an exception (here the
  \<^verbatim>\<open>CancelledError\<close> of a cancelled task) decides how \<^verbatim>\<open>asyncio.gather\<close> ends.
\<close>

definition gather_ends :: "pub_result \<Rightarrow> publisher \<Rightarrow> publisher" where
  "gather_ends r s = (case pb_result s of None \<Rightarrow> s\<lparr>pb_result := Some r\<rparr> | Some _ \<Rightarrow> s)"

definition publish_take :: "publisher \<Rightarrow> publisher option" where
  "publish_take s =
     (case aq_get (pb_recv s) of
        None \<Rightarrow> None
      | Some (Some m, q) \<Rightarrow> Some (s\<lparr>pb_recv := q, pb_pc := PubWait m\<rparr>)
      | Some (None, q) \<Rightarrow>
          Some (gather_ends PubEnded (s\<lparr>pb_recv := q, pb_pc := PubDone, pb_rc := RecDone\<rparr>)))"

text \<open>From \<^verbatim>\<open>can_make_deliveries.wait()\<close> to the next \<^verbatim>\<open>recv_queue.get()\<close>.\<close>

definition publish_make :: "message \<Rightarrow> publisher \<Rightarrow> publisher" where
  "publish_make m s =
     (let ref = pb_next_ref s;
          deliveries = pb_deliveries s @ [\<lparr>dl_ref = ref, dl_message_id = m_id m, dl_confirmed = False\<rparr>];
          s = s\<lparr>pb_deliveries := deliveries, pb_next_ref := Suc ref,
                pb_can_make_deliveries :=
                  (if int (length deliveries) \<ge> max_parallel_deliveries s then False else pb_can_make_deliveries s),
                pb_pending := (ref, m, Preprocessing) # pb_pending s\<rparr> in
      case task_done (pb_recv s) of
        Inl e \<Rightarrow> gather_ends (PubFailed PubException) (s\<lparr>pb_pc := PubDone\<rparr>)
      | Inr (cbs, q) \<Rightarrow> s\<lparr>pb_recv := q, pb_callbacks := pb_callbacks s @ cbs, pb_pc := PubGet\<rparr>)"

text \<open>The inner loop of \<^verbatim>\<open>send_receipts\<close>: \<^verbatim>\<open>receipt_id\<close> and what is left of the deque.\<close>

fun pop_confirmed :: "str option \<Rightarrow> delivery list \<Rightarrow> str option \<times> delivery list" where
  "pop_confirmed receipt_id [] = (receipt_id, [])"
| "pop_confirmed receipt_id (first # deliveries) =
     (if \<not> dl_confirmed first then (receipt_id, first # deliveries)
      else pop_confirmed (Some (dl_message_id first)) deliveries)"

text \<open>\<^verbatim>\<open>send_receipts\<close>: from \<^verbatim>\<open>has_confirmed_deliveries.wait()\<close> to \<^verbatim>\<open>send_queue.put\<close>, and from there back.\<close>

definition receipts_wake :: "publisher \<Rightarrow> publisher" where
  "receipts_wake s =
     (let (receipt_id, deliveries) = pop_confirmed None (pb_deliveries s);
          s = s\<lparr>pb_deliveries := deliveries, pb_has_confirmed := False\<rparr> in
      case receipt_id of
        None \<Rightarrow> s
      | Some r \<Rightarrow>
          s\<lparr>pb_can_make_deliveries :=
              (if int (length deliveries) < max_parallel_deliveries s then True else pb_can_make_deliveries s),
            pb_rc := RecPut r\<rparr>)"

definition receipts_put :: "str \<Rightarrow> publisher \<Rightarrow> publisher option" where
  "receipts_put r s =
     (case aq_put_nowait (Payload r) (pb_send s) of
        Inl _ \<Rightarrow> None
      | Inr q \<Rightarrow> Some (s\<lparr>pb_send := q, pb_rc := RecWait\<rparr>))"

text \<open>\<^verbatim>\<open>report_failed_confirmations\<close>: the exception of the failed delivery.\<close>

definition report_failed :: "publisher \<Rightarrow> publisher" where
  "report_failed s =
     gather_ends (PubFailed (case pb_failed s of None \<Rightarrow> PubException | Some e \<Rightarrow> e)) s"

text \<open>
  \<^verbatim>\<open>deliver_message\<close>: the message is preprocessed and handed to the broker, or its preprocessing fails.
\<close>

definition deliver_message :: "(message \<Rightarrow> pre_error + rmq_message) \<Rightarrow> nat \<Rightarrow> message \<Rightarrow> publisher \<Rightarrow> publisher" where
  "deliver_message preprocess ref m s =
     (case preprocess m of
        Inr r \<Rightarrow>
          s\<lparr>pb_pending :=
              map (\<lambda>c. if fst c = ref then (ref, m, Publishing (broker_message_of r)) else c) (pb_pending s)\<rparr>
      | Inl (PreServerError e) \<Rightarrow> on_confirmation ref (Some (PubServerError e)) s
      | Inl (PreRaises e) \<Rightarrow> on_confirmation ref (Some PubException) s)"

text \<open>
  The end of \<^verbatim>\<open>_publish_to_exchange\<close>: first the pending confirmations are cancelled and awaited; the
  tasks that still run go on meanwhile, until they are cancelled, too. A cancelled future counts as
  a failed one.
\<close>

definition cancel_pending :: "publisher \<Rightarrow> publisher" where
  "cancel_pending s =
     (fold (\<lambda>c. on_confirmation (fst c) (Some PubException)) (pb_pending s) s)\<lparr>pb_cancelled := True\<rparr>"

text \<open>
  Then \<^verbatim>\<open>publish_to_exchange\<close> puts the last item into the send queue, which tells the other side why
  there will be no more. It raises what is not an error of the broker's connection.
\<close>

definition last_item :: "pub_result \<Rightarrow> server_error option" where
  "last_item r =
     (case r of
        PubEnded \<Rightarrow> None
      | PubFailed (PubServerError e) \<Rightarrow> Some e
      | PubFailed _ \<Rightarrow> Some (ServerError (lit ''Internal server error.'')))"

definition publish_finish :: "pub_result \<Rightarrow> publisher \<Rightarrow> publisher" where
  "publish_finish r s =
     s\<lparr>pb_pc := PubDone, pb_rc := RecDone, pb_terminated := True,
       pb_send := terminate_queue (pb_send s) (Stop (last_item r)),
       pb_raised := (r = PubFailed PubException)\<rparr>"

text \<open>
  The task of the publisher itself is cancelled from outside: \<^verbatim>\<open>asyncio.gather\<close> passes this on to the
  three tasks, and the \<^verbatim>\<open>CancelledError\<close> is taken for an orderly end.
\<close>

definition cancel_publisher :: "publisher \<Rightarrow> publisher" where
  "cancel_publisher s = gather_ends PubEnded (s\<lparr>pb_pc := PubDone, pb_rc := RecDone\<rparr>)"

section \<open>The runs of a publisher\<close>

text \<open>
  The logs have no counterpart in the program: the messages for which a delivery was made, in
  order; what was handed to the broker for each of them; the deliveries that the broker confirmed;
  the receipts that were put into the send queue; and the items that were taken from it.
\<close>

record pub_sys =
  pl_pub :: publisher
  pl_taken :: "message list"
  pl_published :: "(nat \<times> broker_message) list"
  pl_confirmed :: "nat list"
  pl_receipts :: "str list"
  pl_read :: "str send_item list"

definition pub_starts :: "str send_item aqueue \<Rightarrow> (message option, flow_cb) wqueue \<Rightarrow> publisher set" where
  "pub_starts send recv =
     {publisher_new send recv, (publisher_new send recv)\<lparr>pb_opened := True\<rparr>} \<union> range (\<lambda>e. publisher_failed e send recv)"

lemma publish_to_exchange_starts: "snd (publish_to_exchange answers passed url timeout send recv) \<in> pub_starts send recv"
  by (simp add: publish_to_exchange_def pub_starts_def split: prod.split option.split)

definition pub_start :: "pub_sys \<Rightarrow> bool" where
  "pub_start y \<longleftrightarrow> (\<exists>send recv. pl_pub y \<in> pub_starts send recv \<and>
     aq_items send = [] \<and> aq_put_task send = NoPutTask \<and> aq_unfinished recv = length (aq_items recv)) \<and>
     pl_taken y = [] \<and> pl_published y = [] \<and> pl_confirmed y = [] \<and> pl_receipts y = [] \<and> pl_read y = []"

lemma pub_start_new: "pl_pub y = publisher_new send recv \<Longrightarrow> aq_items send = [] \<Longrightarrow> aq_put_task send = NoPutTask \<Longrightarrow>
    aq_unfinished recv = length (aq_items recv) \<Longrightarrow> pl_taken y = [] \<Longrightarrow> pl_published y = [] \<Longrightarrow> pl_confirmed y = [] \<Longrightarrow>
    pl_receipts y = [] \<Longrightarrow> pl_read y = [] \<Longrightarrow> pub_start y"
  unfolding pub_start_def pub_starts_def by blast

text \<open>
  The steps of the publisher itself, of its deliveries and of the broker; \<open>unclosed\<close>: closing the
  connection at the end fails; \<open>put_last\<close> is the task that \<^verbatim>\<open>terminate_queue\<close> may leave behind. Whatever
  fails before the three tasks exist, \<^verbatim>\<open>get_exchange\<close> included, is the start \<open>publisher_failed\<close> of \<open>pub_starts\<close>
  (with \<^verbatim>\<open>ensure=False\<close> that call asks nothing of the broker). A second cancellation, while the
  \<^verbatim>\<open>finally\<close> block waits for the tasks it has cancelled, is left out.
\<close>

inductive pub_own :: "(message \<Rightarrow> pre_error + rmq_message) \<Rightarrow> pub_sys \<Rightarrow> pub_sys \<Rightarrow> bool" for preprocess where
  take: "pb_pc (pl_pub y) = PubGet \<Longrightarrow> publish_take (pl_pub y) = Some s \<Longrightarrow>
    pub_own preprocess y (y\<lparr>pl_pub := s\<rparr>)"
| make: "pb_pc (pl_pub y) = PubWait m \<Longrightarrow> pb_can_make_deliveries (pl_pub y) \<Longrightarrow>
    pub_own preprocess y (y\<lparr>pl_pub := publish_make m (pl_pub y), pl_taken := pl_taken y @ [m]\<rparr>)"
| wake: "pb_rc (pl_pub y) = RecWait \<Longrightarrow> pb_has_confirmed (pl_pub y) \<Longrightarrow>
    pub_own preprocess y (y\<lparr>pl_pub := receipts_wake (pl_pub y)\<rparr>)"
| put: "pb_rc (pl_pub y) = RecPut r \<Longrightarrow> receipts_put r (pl_pub y) = Some s \<Longrightarrow>
    pub_own preprocess y (y\<lparr>pl_pub := s, pl_receipts := pl_receipts y @ [r]\<rparr>)"
| report: "pb_result (pl_pub y) = None \<Longrightarrow> pb_has_failed (pl_pub y) \<Longrightarrow>
    pub_own preprocess y (y\<lparr>pl_pub := report_failed (pl_pub y)\<rparr>)"
| cancelled: "pb_result (pl_pub y) = None \<Longrightarrow>
    pub_own preprocess y (y\<lparr>pl_pub := cancel_publisher (pl_pub y)\<rparr>)"
| cleanup: "pb_result (pl_pub y) = Some r \<Longrightarrow> \<not> pb_cancelled (pl_pub y) \<Longrightarrow>
    pub_own preprocess y (y\<lparr>pl_pub := cancel_pending (pl_pub y)\<rparr>)"
| unclosed: "pb_opened (pl_pub y) \<Longrightarrow> pb_result (pl_pub y) = Some r \<Longrightarrow> pb_cancelled (pl_pub y) \<Longrightarrow>
    \<not> pb_terminated (pl_pub y) \<Longrightarrow> e \<in> {PubConnectionError, PubException} \<Longrightarrow>
    pub_own preprocess y (y\<lparr>pl_pub := (pl_pub y)\<lparr>pb_result := Some (PubFailed e), pb_opened := False\<rparr>\<rparr>)"
| finish: "pb_result (pl_pub y) = Some r \<Longrightarrow> pb_cancelled (pl_pub y) \<Longrightarrow> \<not> pb_terminated (pl_pub y) \<Longrightarrow>
    pub_own preprocess y (y\<lparr>pl_pub := publish_finish r (pl_pub y)\<rparr>)"
| process: "(ref, m, Preprocessing) \<in> set (pb_pending (pl_pub y)) \<Longrightarrow>
    pub_own preprocess y (y\<lparr>pl_pub := deliver_message preprocess ref m (pl_pub y),
      pl_published := pl_published y @ (case preprocess m of Inr r \<Rightarrow> [(ref, broker_message_of r)] | Inl _ \<Rightarrow> [])\<rparr>)"
| confirm: "(ref, m, Publishing r) \<in> set (pb_pending (pl_pub y)) \<Longrightarrow>
    pub_own preprocess y (y\<lparr>pl_pub := on_confirmation ref None (pl_pub y), pl_confirmed := ref # pl_confirmed y\<rparr>)"
| refuse: "(ref, m, Publishing r) \<in> set (pb_pending (pl_pub y)) \<Longrightarrow> e \<in> {PubConnectionError, PubException} \<Longrightarrow>
    pub_own preprocess y (y\<lparr>pl_pub := on_confirmation ref (Some e) (pl_pub y)\<rparr>)"
| put_last: "pub_own preprocess y (y\<lparr>pl_pub := (pl_pub y)\<lparr>pb_send := run_put_task (pb_send (pl_pub y))\<rparr>\<rparr>)"

text \<open>
  With what the protocol on the other side of the queues may do: it adds items to the receive queue,
  and it takes items from the send queue.
\<close>

inductive pub_step :: "(message \<Rightarrow> pre_error + rmq_message) \<Rightarrow> pub_sys \<Rightarrow> pub_sys \<Rightarrow> bool" for preprocess where
  own: "pub_own preprocess y y' \<Longrightarrow> pub_step preprocess y y'"
| receive: "aq_items q = aq_items (pb_recv (pl_pub y)) @ xs \<Longrightarrow>
    aq_unfinished q = aq_unfinished (pb_recv (pl_pub y)) + length xs \<Longrightarrow>
    pub_step preprocess y (y\<lparr>pl_pub := (pl_pub y)\<lparr>pb_recv := q\<rparr>\<rparr>)"
| read: "aq_items (pb_send (pl_pub y)) = xs @ aq_items q \<Longrightarrow> aq_maxsize q = aq_maxsize (pb_send (pl_pub y)) \<Longrightarrow>
    aq_put_task q = aq_put_task (pb_send (pl_pub y)) \<Longrightarrow>
    pub_step preprocess y (y\<lparr>pl_pub := (pl_pub y)\<lparr>pb_send := q\<rparr>, pl_read := pl_read y @ xs\<rparr>)"

inductive_cases pub_ownE: "pub_own preprocess y y'"

section \<open>The deque in terms of the logs\<close>

text \<open>The deliveries from the \<open>n\<close>-th on, as the logs determine them.\<close>

definition open_deliveries :: "message list \<Rightarrow> nat list \<Rightarrow> nat \<Rightarrow> delivery list" where
  "open_deliveries taken confirmed n =
     map (\<lambda>i. \<lparr>dl_ref = i, dl_message_id = m_id (taken ! i), dl_confirmed = (i \<in> set confirmed)\<rparr>) [n..<length taken]"

lemma open_deliveries_length [simp]: "length (open_deliveries taken confirmed n) = length taken - n"
  by (simp add: open_deliveries_def)

lemma open_deliveries_Cons:
  "n < length taken \<Longrightarrow> open_deliveries taken confirmed n =
     \<lparr>dl_ref = n, dl_message_id = m_id (taken ! n), dl_confirmed = (n \<in> set confirmed)\<rparr> # open_deliveries taken confirmed (Suc n)"
  by (simp add: open_deliveries_def upt_conv_Cons)

lemma open_deliveries_Nil: "length taken \<le> n \<Longrightarrow> open_deliveries taken confirmed n = []"
  by (simp add: open_deliveries_def)

lemma open_deliveries_snoc:
  assumes "n \<le> length taken" and "length taken \<notin> set confirmed"
  shows "open_deliveries (taken @ [m]) confirmed n =
    open_deliveries taken confirmed n @ [\<lparr>dl_ref = length taken, dl_message_id = m_id m, dl_confirmed = False\<rparr>]"
  using assms by (simp add: open_deliveries_def nth_append)

lemma open_deliveries_confirm:
  "map (\<lambda>d. if dl_ref d = ref then d\<lparr>dl_confirmed := True\<rparr> else d) (open_deliveries taken confirmed n) =
     open_deliveries taken (ref # confirmed) n"
  by (simp add: open_deliveries_def)

lemma pop_confirmed_open:
  "n \<le> length taken \<Longrightarrow>
   \<exists>n'\<ge>n. n' \<le> length taken \<and> (\<forall>i. n \<le> i \<and> i < n' \<longrightarrow> i \<in> set confirmed) \<and>
      (n' < length taken \<longrightarrow> n' \<notin> set confirmed) \<and>
      pop_confirmed r (open_deliveries taken confirmed n) =
        (if n' = n then r else Some (m_id (taken ! (n' - 1))), open_deliveries taken confirmed n')"
proof (induction "length taken - n" arbitrary: n r)
  case 0
  then show ?case by (intro exI [of _ n]) (auto simp: open_deliveries_Nil)
next
  case (Suc k)
  then have n: "n < length taken" by simp
  show ?case
  proof (cases "n \<in> set confirmed")
    case False
    with n show ?thesis by (intro exI [of _ n]) (auto simp: open_deliveries_Cons)
  next
    case True
    from n Suc(2) have "k = length taken - Suc n" "Suc n \<le> length taken" by simp_all
    from Suc(1) [OF this, of "Some (m_id (taken ! n))"] obtain n' where
      n': "Suc n \<le> n'" "n' \<le> length taken" "\<forall>i. Suc n \<le> i \<and> i < n' \<longrightarrow> i \<in> set confirmed"
      "n' < length taken \<longrightarrow> n' \<notin> set confirmed"
      "pop_confirmed (Some (m_id (taken ! n))) (open_deliveries taken confirmed (Suc n)) =
        (if n' = Suc n then Some (m_id (taken ! n)) else Some (m_id (taken ! (n' - 1))), open_deliveries taken confirmed n')"
      by blast
    have "i \<in> set confirmed" if "n \<le> i" "i < n'" for i
      using True n'(3) that by (cases "i = n") auto
    with n' n True show ?thesis by (intro exI [of _ n']) (auto simp: open_deliveries_Cons)
  qed
qed

section \<open>The invariant\<close>

text \<open>
  The parts of the invariant; \<open>n\<close> is the number of deliveries that have left the deque.
\<close>

definition inv_deque :: "nat \<Rightarrow> pub_sys \<Rightarrow> bool" where
  "inv_deque n y \<longleftrightarrow> n \<le> length (pl_taken y) \<and> pb_next_ref (pl_pub y) = length (pl_taken y) \<and>
     pb_deliveries (pl_pub y) = open_deliveries (pl_taken y) (pl_confirmed y) n \<and>
     (\<forall>i<n. i \<in> set (pl_confirmed y)) \<and> (\<forall>i\<in>set (pl_confirmed y). i < length (pl_taken y))"

definition inv_pending :: "(message \<Rightarrow> pre_error + rmq_message) \<Rightarrow> pub_sys \<Rightarrow> bool" where
  "inv_pending preprocess y \<longleftrightarrow>
     distinct (map fst (pb_pending (pl_pub y))) \<and>
     (\<forall>(ref, m, st)\<in>set (pb_pending (pl_pub y)). ref < length (pl_taken y) \<and> pl_taken y ! ref = m \<and>
        ref \<notin> set (pl_confirmed y) \<and> (\<forall>r. st = Publishing r \<longrightarrow> (ref, r) \<in> set (pl_published y))) \<and>
     (\<forall>(i, r)\<in>set (pl_published y). i < length (pl_taken y) \<and>
        (\<exists>r'. preprocess (pl_taken y ! i) = Inr r' \<and> r = broker_message_of r')) \<and>
     (\<forall>i\<in>set (pl_confirmed y). \<exists>r. (i, r) \<in> set (pl_published y))"

definition inv_slots :: "nat \<Rightarrow> pub_sys \<Rightarrow> bool" where
  "inv_slots n y \<longleftrightarrow>
     (pb_can_make_deliveries (pl_pub y) \<longleftrightarrow> int (length (pl_taken y) - n) < max_parallel_deliveries (pl_pub y)) \<and>
     int (length (pl_taken y) - n) \<le> max_parallel_deliveries (pl_pub y)"

definition inv_events :: "nat \<Rightarrow> pub_sys \<Rightarrow> bool" where
  "inv_events n y \<longleftrightarrow>
     (n < length (pl_taken y) \<and> n \<in> set (pl_confirmed y) \<longrightarrow> pb_has_confirmed (pl_pub y)) \<and>
     (pb_has_failed (pl_pub y) \<longleftrightarrow> pb_failed (pl_pub y) \<noteq> None) \<and>
     (\<forall>i<length (pl_taken y). i \<notin> set (pl_confirmed y) \<longrightarrow>
        i \<in> fst ` set (pb_pending (pl_pub y)) \<or> pb_has_failed (pl_pub y))"

definition inv_receipts :: "nat \<Rightarrow> pub_sys \<Rightarrow> bool" where
  "inv_receipts n y \<longleftrightarrow>
     (\<exists>ks. sorted_wrt (<) ks \<and> (\<forall>k\<in>set ks. k < n) \<and>
        pl_receipts y @ (case pb_rc (pl_pub y) of RecPut r \<Rightarrow> [r] | _ \<Rightarrow> []) = map (\<lambda>k. m_id (pl_taken y ! k)) ks \<and>
        (0 < n \<and> pb_rc (pl_pub y) \<noteq> RecDone \<longrightarrow> ks \<noteq> [] \<and> last ks = n - 1))"

definition inv_queue :: "pub_sys \<Rightarrow> bool" where
  "inv_queue y \<longleftrightarrow>
     length (aq_items (pb_recv (pl_pub y))) + (case pb_pc (pl_pub y) of PubWait _ \<Rightarrow> 1 | _ \<Rightarrow> 0) \<le>
       aq_unfinished (pb_recv (pl_pub y))"

definition inv_tasks :: "pub_sys \<Rightarrow> bool" where
  "inv_tasks y \<longleftrightarrow>
     (pb_result (pl_pub y) = None \<longrightarrow> pb_pc (pl_pub y) \<noteq> PubDone \<and> pb_rc (pl_pub y) \<noteq> RecDone \<and> \<not> pb_terminated (pl_pub y)) \<and>
     (pb_terminated (pl_pub y) \<longrightarrow> pb_pc (pl_pub y) = PubDone \<and> pb_rc (pl_pub y) = RecDone)"

definition inv_sent :: "pub_sys \<Rightarrow> bool" where
  "inv_sent y \<longleftrightarrow>
     (\<not> pb_terminated (pl_pub y) \<longrightarrow> aq_put_task (pb_send (pl_pub y)) = NoPutTask) \<and>
     pl_read y @ aq_future (pb_send (pl_pub y)) = map Payload (pl_receipts y) @
       (case pb_result (pl_pub y) of Some r \<Rightarrow> if pb_terminated (pl_pub y) then [Stop (last_item r)] else [] | None \<Rightarrow> [])"

definition pub_inv :: "(message \<Rightarrow> pre_error + rmq_message) \<Rightarrow> pub_sys \<Rightarrow> bool" where
  "pub_inv preprocess y \<longleftrightarrow>
     (\<exists>n. inv_deque n y \<and> inv_pending preprocess y \<and> inv_slots n y \<and> inv_events n y \<and> inv_receipts n y) \<and>
     inv_queue y \<and> inv_tasks y \<and> inv_sent y"

lemma pub_inv_start: "pub_start y \<Longrightarrow> pub_inv preprocess y"
  by (auto simp: pub_start_def pub_starts_def pub_inv_def inv_deque_def inv_pending_def inv_slots_def inv_events_def
      inv_receipts_def inv_queue_def inv_tasks_def inv_sent_def publisher_new_def publisher_failed_def open_deliveries_def
      max_parallel_deliveries_def aq_future_def intro!: exI [of _ 0])

section \<open>The steps keep the invariant\<close>

lemma gather_ends_simps [simp]:
  "pb_send (gather_ends r s) = pb_send s" "pb_recv (gather_ends r s) = pb_recv s"
  "pb_deliveries (gather_ends r s) = pb_deliveries s" "pb_next_ref (gather_ends r s) = pb_next_ref s"
  "pb_can_make_deliveries (gather_ends r s) = pb_can_make_deliveries s" "pb_pending (gather_ends r s) = pb_pending s"
  "pb_has_confirmed (gather_ends r s) = pb_has_confirmed s" "pb_has_failed (gather_ends r s) = pb_has_failed s"
  "pb_failed (gather_ends r s) = pb_failed s" "pb_pc (gather_ends r s) = pb_pc s" "pb_rc (gather_ends r s) = pb_rc s"
  "pb_terminated (gather_ends r s) = pb_terminated s" "pb_result (gather_ends r s) \<noteq> None"
  by (simp_all add: gather_ends_def split: option.split)

text \<open>The parts depend on some fields of the state only.\<close>

lemma inv_deque_cong:
  "inv_deque n y \<Longrightarrow> pl_taken y' = pl_taken y \<Longrightarrow> pl_confirmed y' = pl_confirmed y \<Longrightarrow>
   pb_next_ref (pl_pub y') = pb_next_ref (pl_pub y) \<Longrightarrow> pb_deliveries (pl_pub y') = pb_deliveries (pl_pub y) \<Longrightarrow>
   inv_deque n y'"
  by (simp add: inv_deque_def)

lemma inv_pending_cong:
  "inv_pending preprocess y \<Longrightarrow> pl_taken y' = pl_taken y \<Longrightarrow> pl_confirmed y' = pl_confirmed y \<Longrightarrow>
   pl_published y' = pl_published y \<Longrightarrow> pb_pending (pl_pub y') = pb_pending (pl_pub y) \<Longrightarrow> inv_pending preprocess y'"
  by (simp add: inv_pending_def)

lemma inv_slots_cong:
  "inv_slots n y \<Longrightarrow> pl_taken y' = pl_taken y \<Longrightarrow>
   pb_can_make_deliveries (pl_pub y') = pb_can_make_deliveries (pl_pub y) \<Longrightarrow>
   aq_maxsize (pb_send (pl_pub y')) = aq_maxsize (pb_send (pl_pub y)) \<Longrightarrow> inv_slots n y'"
  by (simp only: inv_slots_def max_parallel_deliveries_def)

lemma inv_events_cong:
  "inv_events n y \<Longrightarrow> pl_taken y' = pl_taken y \<Longrightarrow> pl_confirmed y' = pl_confirmed y \<Longrightarrow>
   pb_pending (pl_pub y') = pb_pending (pl_pub y) \<Longrightarrow> pb_has_confirmed (pl_pub y') = pb_has_confirmed (pl_pub y) \<Longrightarrow>
   pb_has_failed (pl_pub y') = pb_has_failed (pl_pub y) \<Longrightarrow> pb_failed (pl_pub y') = pb_failed (pl_pub y) \<Longrightarrow>
   inv_events n y'"
  unfolding inv_events_def by (elim conjE) (intro conjI; simp)

text \<open>A receipt that waits for its place in the send queue is put, or is lost with the task.\<close>

lemma inv_receipts_cong:
  assumes "inv_receipts n y" and "pl_taken y' = pl_taken y"
    and "pb_rc (pl_pub y') = pb_rc (pl_pub y) \<and> pl_receipts y' = pl_receipts y \<or>
      pb_rc (pl_pub y') = RecDone \<and> pl_receipts y' = pl_receipts y \<or>
      (\<exists>r. pb_rc (pl_pub y) = RecPut r \<and> pb_rc (pl_pub y') = RecWait \<and> pl_receipts y' = pl_receipts y @ [r])"
  shows "inv_receipts n y'"
proof -
  obtain ks where ks: "sorted_wrt (<) ks" "\<forall>k\<in>set ks. k < n"
    "pl_receipts y @ (case pb_rc (pl_pub y) of RecPut r \<Rightarrow> [r] | _ \<Rightarrow> []) = map (\<lambda>k. m_id (pl_taken y ! k)) ks"
    "0 < n \<and> pb_rc (pl_pub y) \<noteq> RecDone \<longrightarrow> ks \<noteq> [] \<and> last ks = n - 1"
    using assms(1) by (auto simp: inv_receipts_def)
  show ?thesis
  proof (cases "pb_rc (pl_pub y') = RecDone \<and> (\<exists>r. pb_rc (pl_pub y) = RecPut r)")
    case True
    then obtain r where r: "pb_rc (pl_pub y) = RecPut r" by blast
    then obtain ks0 k where ks0: "ks = ks0 @ [k]" "pl_receipts y = map (\<lambda>k. m_id (pl_taken y ! k)) ks0"
      using ks(3) by (cases ks rule: rev_cases) auto
    have "pl_receipts y' = pl_receipts y" using assms(3) True by auto
    with True ks0 ks(1,2) assms(2) show ?thesis
      by (auto simp: inv_receipts_def sorted_wrt_append intro!: exI [of _ ks0])
  next
    case False
    have "pl_receipts y' @ (case pb_rc (pl_pub y') of RecPut r \<Rightarrow> [r] | _ \<Rightarrow> []) = map (\<lambda>k. m_id (pl_taken y ! k)) ks"
      using assms(3) ks(3) False by (auto split: rec_pc.splits)
    moreover have "0 < n \<and> pb_rc (pl_pub y') \<noteq> RecDone \<longrightarrow> ks \<noteq> [] \<and> last ks = n - 1"
      using assms(3) ks(4) by auto
    ultimately show ?thesis using ks(1,2) assms(2) by (auto simp: inv_receipts_def)
  qed
qed

lemma pub_invE:
  assumes "pub_inv preprocess y"
  obtains n where "inv_deque n y" "inv_pending preprocess y" "inv_slots n y" "inv_events n y" "inv_receipts n y"
    "inv_queue y" "inv_tasks y" "inv_sent y"
  using assms by (auto simp: pub_inv_def)

text \<open>A step that touches neither the deque nor the confirmations: only the queues and tasks are left to show.\<close>

definition same_core :: "pub_sys \<Rightarrow> pub_sys \<Rightarrow> bool" where
  "same_core y y' \<longleftrightarrow>
     pl_taken y' = pl_taken y \<and> pl_published y' = pl_published y \<and> pl_confirmed y' = pl_confirmed y \<and>
     pb_deliveries (pl_pub y') = pb_deliveries (pl_pub y) \<and> pb_next_ref (pl_pub y') = pb_next_ref (pl_pub y) \<and>
     pb_can_make_deliveries (pl_pub y') = pb_can_make_deliveries (pl_pub y) \<and>
     pb_pending (pl_pub y') = pb_pending (pl_pub y) \<and> pb_has_confirmed (pl_pub y') = pb_has_confirmed (pl_pub y) \<and>
     pb_has_failed (pl_pub y') = pb_has_failed (pl_pub y) \<and> pb_failed (pl_pub y') = pb_failed (pl_pub y) \<and>
     aq_maxsize (pb_send (pl_pub y')) = aq_maxsize (pb_send (pl_pub y)) \<and>
     (pb_rc (pl_pub y') = pb_rc (pl_pub y) \<and> pl_receipts y' = pl_receipts y \<or>
      pb_rc (pl_pub y') = RecDone \<and> pl_receipts y' = pl_receipts y \<or>
      (\<exists>r. pb_rc (pl_pub y) = RecPut r \<and> pb_rc (pl_pub y') = RecWait \<and> pl_receipts y' = pl_receipts y @ [r]))"

lemma pub_inv_same_core:
  assumes "pub_inv preprocess y" and "same_core y y'" and "inv_queue y'" and "inv_tasks y'" and "inv_sent y'"
  shows "pub_inv preprocess y'"
proof -
  obtain n where n: "inv_deque n y" "inv_pending preprocess y" "inv_slots n y" "inv_events n y" "inv_receipts n y"
    by (rule pub_invE [OF assms(1)])
  have "inv_deque n y'" using n(1) by (rule inv_deque_cong) (use assms(2) in \<open>simp_all add: same_core_def\<close>)
  moreover have "inv_pending preprocess y'"
    using n(2) by (rule inv_pending_cong) (use assms(2) in \<open>simp_all add: same_core_def\<close>)
  moreover have "inv_slots n y'" using n(3) by (rule inv_slots_cong) (use assms(2) in \<open>simp_all add: same_core_def\<close>)
  moreover have "inv_events n y'" using n(4) by (rule inv_events_cong) (use assms(2) in \<open>simp_all add: same_core_def\<close>)
  moreover have "inv_receipts n y'" using n(5) by (rule inv_receipts_cong) (use assms(2) in \<open>simp_all add: same_core_def\<close>)
  ultimately show ?thesis using assms(3-5) by (auto simp: pub_inv_def)
qed

lemma pub_inv_take:
  assumes "pub_inv preprocess y" and pc: "pb_pc (pl_pub y) = PubGet" and "publish_take (pl_pub y) = Some s"
  shows "pub_inv preprocess (y\<lparr>pl_pub := s\<rparr>)"
proof -
  obtain n where n: "inv_queue y" "inv_tasks y" "inv_sent y" by (rule pub_invE [OF assms(1)])
  obtain x q where xq: "aq_get (pb_recv (pl_pub y)) = Some (x, q)"
    using assms(3) by (auto simp: publish_take_def split: option.splits)
  then have q: "aq_items (pb_recv (pl_pub y)) = x # aq_items q" "aq_unfinished q = aq_unfinished (pb_recv (pl_pub y))"
    by (auto simp: aq_get_def split: list.splits)
  note s = assms(3) [unfolded publish_take_def xq]
  show ?thesis
  proof (rule pub_inv_same_core [OF assms(1)])
    show "same_core y (y\<lparr>pl_pub := s\<rparr>)" using s by (auto simp: same_core_def split: option.splits)
    show "inv_queue (y\<lparr>pl_pub := s\<rparr>)" using n(1) s q pc by (auto simp: inv_queue_def split: option.splits)
    show "inv_tasks (y\<lparr>pl_pub := s\<rparr>)" using n(2) s pc by (auto simp: inv_tasks_def split: option.splits)
    show "inv_sent (y\<lparr>pl_pub := s\<rparr>)" using n(2,3) s pc
      by (auto simp: inv_sent_def inv_tasks_def gather_ends_def split: option.splits)
  qed
qed

lemma pub_inv_put:
  assumes "pub_inv preprocess y" and rc: "pb_rc (pl_pub y) = RecPut r" and "receipts_put r (pl_pub y) = Some s"
  shows "pub_inv preprocess (y\<lparr>pl_pub := s, pl_receipts := pl_receipts y @ [r]\<rparr>)"
proof -
  obtain n where n: "inv_queue y" "inv_tasks y" "inv_sent y" by (rule pub_invE [OF assms(1)])
  obtain q where q: "s = (pl_pub y)\<lparr>pb_send := q, pb_rc := RecWait\<rparr>" "aq_items q = aq_items (pb_send (pl_pub y)) @ [Payload r]"
    "aq_maxsize q = aq_maxsize (pb_send (pl_pub y))" "aq_put_task q = aq_put_task (pb_send (pl_pub y))"
    using assms(3) by (auto simp: receipts_put_def aq_put_nowait_def split: if_splits)
  have "\<not> pb_terminated (pl_pub y)" using n(2) rc by (auto simp: inv_tasks_def)
  then show ?thesis
    by (intro pub_inv_same_core [OF assms(1)])
      (use n q rc in \<open>auto simp: same_core_def inv_queue_def inv_tasks_def inv_sent_def aq_future_def split: option.splits\<close>)
qed

lemma pub_inv_report:
  assumes "pub_inv preprocess y" and "pb_result (pl_pub y) = None"
  shows "pub_inv preprocess (y\<lparr>pl_pub := report_failed (pl_pub y)\<rparr>)"
proof -
  obtain n where "inv_queue y" "inv_tasks y" "inv_sent y" by (rule pub_invE [OF assms(1)])
  with assms show ?thesis
    by (intro pub_inv_same_core [OF assms(1)])
      (auto simp: report_failed_def same_core_def inv_queue_def inv_tasks_def inv_sent_def gather_ends_def)
qed

lemma pub_inv_cancelled:
  assumes "pub_inv preprocess y" and "pb_result (pl_pub y) = None"
  shows "pub_inv preprocess (y\<lparr>pl_pub := cancel_publisher (pl_pub y)\<rparr>)"
proof -
  obtain n where "inv_queue y" "inv_tasks y" "inv_sent y" by (rule pub_invE [OF assms(1)])
  with assms show ?thesis
    by (intro pub_inv_same_core [OF assms(1)])
      (auto simp: cancel_publisher_def same_core_def inv_queue_def inv_tasks_def inv_sent_def gather_ends_def split: pub_pc.splits)
qed

lemma pub_inv_finish:
  assumes "pub_inv preprocess y" and "pb_result (pl_pub y) = Some r" and "\<not> pb_terminated (pl_pub y)"
  shows "pub_inv preprocess (y\<lparr>pl_pub := publish_finish r (pl_pub y)\<rparr>)"
proof -
  obtain n where "inv_queue y" "inv_tasks y" "inv_sent y" by (rule pub_invE [OF assms(1)])
  with assms show ?thesis
    by (intro pub_inv_same_core [OF assms(1)])
      (auto simp: publish_finish_def same_core_def inv_queue_def inv_tasks_def inv_sent_def terminate_queue_future
        simp flip: append_assoc split: pub_pc.splits)
qed

lemma pub_inv_unclosed:
  assumes "pub_inv preprocess y" and "pb_result (pl_pub y) = Some r" and "\<not> pb_terminated (pl_pub y)"
  shows "pub_inv preprocess (y\<lparr>pl_pub := (pl_pub y)\<lparr>pb_result := Some r', pb_opened := False\<rparr>\<rparr>)"
proof -
  obtain n where "inv_queue y" "inv_tasks y" "inv_sent y" by (rule pub_invE [OF assms(1)])
  with assms(2,3) show ?thesis
    by (intro pub_inv_same_core [OF assms(1)]) (auto simp: same_core_def inv_queue_def inv_tasks_def inv_sent_def)
qed

lemma pub_inv_receive:
  assumes "pub_inv preprocess y" and "aq_items q = aq_items (pb_recv (pl_pub y)) @ xs"
    and "aq_unfinished q = aq_unfinished (pb_recv (pl_pub y)) + length xs"
  shows "pub_inv preprocess (y\<lparr>pl_pub := (pl_pub y)\<lparr>pb_recv := q\<rparr>\<rparr>)"
proof -
  obtain n where "inv_queue y" "inv_tasks y" "inv_sent y" by (rule pub_invE [OF assms(1)])
  with assms(2,3) show ?thesis
    by (intro pub_inv_same_core [OF assms(1)])
      (auto simp: same_core_def inv_queue_def inv_tasks_def inv_sent_def split: option.splits)
qed

lemma pub_inv_read:
  assumes "pub_inv preprocess y" and "aq_items (pb_send (pl_pub y)) = xs @ aq_items q"
    and "aq_maxsize q = aq_maxsize (pb_send (pl_pub y))" and "aq_put_task q = aq_put_task (pb_send (pl_pub y))"
  shows "pub_inv preprocess (y\<lparr>pl_pub := (pl_pub y)\<lparr>pb_send := q\<rparr>, pl_read := pl_read y @ xs\<rparr>)"
proof -
  obtain n where n: "inv_queue y" "inv_tasks y" "inv_sent y" by (rule pub_invE [OF assms(1)])
  have "xs @ aq_future q = aq_future (pb_send (pl_pub y))" using assms(2,4) by (simp add: aq_future_def)
  with n assms(3,4) show ?thesis
    by (intro pub_inv_same_core [OF assms(1)])
      (auto simp: same_core_def inv_queue_def inv_tasks_def inv_sent_def split: option.splits)
qed

lemma pub_inv_put_last:
  assumes "pub_inv preprocess y"
  shows "pub_inv preprocess (y\<lparr>pl_pub := (pl_pub y)\<lparr>pb_send := run_put_task (pb_send (pl_pub y))\<rparr>\<rparr>)"
proof -
  obtain n where "inv_queue y" "inv_tasks y" "inv_sent y" by (rule pub_invE [OF assms(1)])
  with assms show ?thesis
    by (intro pub_inv_same_core [OF assms(1)])
      (auto simp: same_core_def inv_queue_def inv_tasks_def inv_sent_def run_put_task_future run_put_task_none
        split: option.splits)
qed

text \<open>The steps of the deque.\<close>

lemma pub_inv_make:
  assumes "pub_inv preprocess y" and pc: "pb_pc (pl_pub y) = PubWait m" and can: "pb_can_make_deliveries (pl_pub y)"
  shows "pub_inv preprocess (y\<lparr>pl_pub := publish_make m (pl_pub y), pl_taken := pl_taken y @ [m]\<rparr>)"
proof -
  obtain n where n: "inv_deque n y" "inv_pending preprocess y" "inv_slots n y" "inv_events n y" "inv_receipts n y"
    "inv_queue y" "inv_tasks y" "inv_sent y" by (rule pub_invE [OF assms(1)])
  have "0 < aq_unfinished (pb_recv (pl_pub y))" using n(6) pc by (simp add: inv_queue_def)
  then obtain cbs q where q: "task_done (pb_recv (pl_pub y)) = Inr (cbs, q)" "aq_items q = aq_items (pb_recv (pl_pub y))"
    "aq_unfinished q = aq_unfinished (pb_recv (pl_pub y)) - 1" using task_done_unfinished by blast
  define y' where "y' = y\<lparr>pl_pub := publish_make m (pl_pub y), pl_taken := pl_taken y @ [m]\<rparr>"
  have new: "length (pl_taken y) \<notin> set (pl_confirmed y)" "n \<le> length (pl_taken y)"
    "pb_next_ref (pl_pub y) = length (pl_taken y)" using n(1) by (auto simp: inv_deque_def)
  note make = publish_make_def Let_def q(1) max_parallel_deliveries_def
  have "inv_deque n y'" using n(1) new by (auto simp: y'_def make inv_deque_def open_deliveries_snoc less_Suc_eq)
  moreover have "inv_pending preprocess y'" unfolding inv_pending_def
  proof (intro conjI)
    have old: "ref < length (pl_taken y)" if "c \<in> set (pb_pending (pl_pub y))" "fst c = ref" for c ref
      using n(2) that by (auto simp: inv_pending_def)
    then show "distinct (map fst (pb_pending (pl_pub y')))"
      using n(1,2) by (fastforce simp: y'_def make inv_deque_def inv_pending_def)
  qed (use n(1,2) new in \<open>auto simp: y'_def make inv_deque_def inv_pending_def nth_append\<close>)
  moreover have "inv_slots n y'" using n(1,3) can new by (auto simp: y'_def make inv_slots_def inv_deque_def)
  moreover have "inv_events n y'" using n(4) new by (auto simp: y'_def make inv_events_def less_Suc_eq)
  moreover have "inv_receipts n y'"
  proof -
    obtain ks where ks: "sorted_wrt (<) ks" "\<forall>k\<in>set ks. k < n"
      "pl_receipts y @ (case pb_rc (pl_pub y) of RecPut r \<Rightarrow> [r] | _ \<Rightarrow> []) = map (\<lambda>k. m_id (pl_taken y ! k)) ks"
      "0 < n \<and> pb_rc (pl_pub y) \<noteq> RecDone \<longrightarrow> ks \<noteq> [] \<and> last ks = n - 1"
      using n(5) by (auto simp: inv_receipts_def)
    moreover have "map (\<lambda>k. m_id ((pl_taken y @ [m]) ! k)) ks = map (\<lambda>k. m_id (pl_taken y ! k)) ks"
      using ks(2) new(2) by (auto simp: nth_append)
    ultimately show ?thesis by (auto simp: y'_def make inv_receipts_def)
  qed
  moreover have "inv_queue y'" using n(6) q pc by (simp add: y'_def make inv_queue_def)
  moreover have "inv_tasks y'" using n(7) pc by (simp add: y'_def make inv_tasks_def)
  moreover have "inv_sent y'" using n(8) by (simp add: y'_def make inv_sent_def split: option.splits)
  ultimately show ?thesis by (auto simp: pub_inv_def y'_def)
qed

lemma pub_inv_wake:
  assumes "pub_inv preprocess y" and rc: "pb_rc (pl_pub y) = RecWait"
  shows "pub_inv preprocess (y\<lparr>pl_pub := receipts_wake (pl_pub y)\<rparr>)"
proof -
  obtain n where n: "inv_deque n y" "inv_pending preprocess y" "inv_slots n y" "inv_events n y" "inv_receipts n y"
    "inv_queue y" "inv_tasks y" "inv_sent y" by (rule pub_invE [OF assms(1)])
  define y' where "y' = y\<lparr>pl_pub := receipts_wake (pl_pub y)\<rparr>"
  from n(1) have "n \<le> length (pl_taken y)" by (simp add: inv_deque_def)
  then obtain n' where n': "n \<le> n'" "n' \<le> length (pl_taken y)" "\<forall>i. n \<le> i \<and> i < n' \<longrightarrow> i \<in> set (pl_confirmed y)"
    "n' < length (pl_taken y) \<longrightarrow> n' \<notin> set (pl_confirmed y)"
    "pop_confirmed None (open_deliveries (pl_taken y) (pl_confirmed y) n) =
      (if n' = n then None else Some (m_id (pl_taken y ! (n' - 1))), open_deliveries (pl_taken y) (pl_confirmed y) n')"
    using pop_confirmed_open by blast
  have ds: "pb_deliveries (pl_pub y) = open_deliveries (pl_taken y) (pl_confirmed y) n" using n(1) by (simp add: inv_deque_def)
  note wake = receipts_wake_def Let_def ds n'(5) max_parallel_deliveries_def
  have "inv_deque n' y'" using n(1) n' by (auto simp: y'_def wake inv_deque_def) (meson linorder_not_less)+
  moreover have "inv_pending preprocess y'" using n(2) by (rule inv_pending_cong) (simp_all add: y'_def wake)
  moreover have "inv_slots n' y'" using n(3) n'(1,2) by (auto simp: y'_def wake inv_slots_def)
  moreover have "inv_events n' y'" using n(4) n'(4) by (auto simp: y'_def wake inv_events_def)
  moreover have "inv_receipts n' y'"
  proof -
    obtain ks where ks: "sorted_wrt (<) ks" "\<forall>k\<in>set ks. k < n" "pl_receipts y = map (\<lambda>k. m_id (pl_taken y ! k)) ks"
      "0 < n \<longrightarrow> ks \<noteq> [] \<and> last ks = n - 1"
      using n(5) rc by (auto simp: inv_receipts_def)
    show ?thesis
    proof (cases "n' = n")
      case True
      with ks rc show ?thesis by (auto simp: y'_def wake inv_receipts_def)
    next
      case False
      with n'(1) have "n < n'" by simp
      with ks have "\<forall>k\<in>set ks. k < n' - 1" "\<forall>k\<in>set ks. k < n'" by fastforce+
      with ks \<open>n < n'\<close> show ?thesis
        by (auto simp: y'_def wake inv_receipts_def sorted_wrt_append intro!: exI [of _ "ks @ [n' - 1]"])
    qed
  qed
  moreover have "inv_queue y'" using n(6) by (simp add: y'_def wake inv_queue_def)
  moreover have "inv_tasks y'" using n(7) rc by (auto simp: y'_def wake inv_tasks_def)
  moreover have "inv_sent y'" using n(8) by (simp add: y'_def wake inv_sent_def split: option.splits)
  ultimately show ?thesis by (auto simp: pub_inv_def y'_def)
qed

text \<open>The steps of a confirmation.\<close>

lemma pub_inv_confirm:
  assumes "pub_inv preprocess y" and "(ref, m, Publishing r) \<in> set (pb_pending (pl_pub y))"
  shows "pub_inv preprocess (y\<lparr>pl_pub := on_confirmation ref None (pl_pub y), pl_confirmed := ref # pl_confirmed y\<rparr>)"
proof -
  obtain n where n: "inv_deque n y" "inv_pending preprocess y" "inv_slots n y" "inv_events n y" "inv_receipts n y"
    "inv_queue y" "inv_tasks y" "inv_sent y" by (rule pub_invE [OF assms(1)])
  define y' where "y' = y\<lparr>pl_pub := on_confirmation ref None (pl_pub y), pl_confirmed := ref # pl_confirmed y\<rparr>"
  have ref: "ref < length (pl_taken y)" "(ref, r) \<in> set (pl_published y)"
    using n(2) assms(2) by (auto simp: inv_pending_def)
  note conf = on_confirmation_def Let_def
  have "inv_deque n y'" using n(1) ref by (auto simp: y'_def conf inv_deque_def open_deliveries_confirm)
  moreover have "inv_pending preprocess y'" unfolding inv_pending_def
    by (intro conjI) (use n(2) ref in \<open>auto simp: y'_def conf inv_pending_def distinct_map_filter\<close>)
  moreover have "inv_slots n y'" using n(3) by (rule inv_slots_cong) (simp_all add: y'_def conf)
  moreover have "inv_events n y'" using n(4) by (force simp: y'_def conf inv_events_def)
  moreover have "inv_receipts n y'" using n(5) by (rule inv_receipts_cong) (simp_all add: y'_def conf)
  moreover have "inv_queue y'" using n(6) by (simp add: y'_def conf inv_queue_def)
  moreover have "inv_tasks y'" using n(7) by (simp add: y'_def conf inv_tasks_def)
  moreover have "inv_sent y'" using n(8) by (simp add: y'_def conf inv_sent_def split: option.splits)
  ultimately show ?thesis by (auto simp: pub_inv_def y'_def)
qed

lemma pub_inv_failed:
  assumes "pub_inv preprocess y"
  shows "pub_inv preprocess (y\<lparr>pl_pub := on_confirmation ref (Some e) (pl_pub y)\<rparr>)"
proof -
  obtain n where n: "inv_deque n y" "inv_pending preprocess y" "inv_slots n y" "inv_events n y" "inv_receipts n y"
    "inv_queue y" "inv_tasks y" "inv_sent y" by (rule pub_invE [OF assms(1)])
  define y' where "y' = y\<lparr>pl_pub := on_confirmation ref (Some e) (pl_pub y)\<rparr>"
  note conf = on_confirmation_def Let_def
  have "inv_deque n y'" using n(1) by (rule inv_deque_cong) (simp_all add: y'_def conf)
  moreover have "inv_pending preprocess y'" unfolding inv_pending_def
    by (intro conjI) (use n(2) in \<open>auto simp: y'_def conf inv_pending_def distinct_map_filter\<close>)
  moreover have "inv_slots n y'" using n(3) by (rule inv_slots_cong) (simp_all add: y'_def conf)
  moreover have "inv_events n y'" using n(4) by (auto simp: y'_def conf inv_events_def)
  moreover have "inv_receipts n y'" using n(5) by (rule inv_receipts_cong) (simp_all add: y'_def conf)
  moreover have "inv_queue y'" using n(6) by (simp add: y'_def conf inv_queue_def)
  moreover have "inv_tasks y'" using n(7) by (simp add: y'_def conf inv_tasks_def)
  moreover have "inv_sent y'" using n(8) by (simp add: y'_def conf inv_sent_def split: option.splits)
  ultimately show ?thesis by (auto simp: pub_inv_def y'_def)
qed

lemma pub_inv_fold_failed:
  assumes "pub_inv preprocess (y\<lparr>pl_pub := s\<rparr>)"
  shows "pub_inv preprocess (y\<lparr>pl_pub := fold (\<lambda>c. on_confirmation (fst c) (Some e)) cs s\<rparr>)"
  using assms
proof (induction cs arbitrary: s)
  case (Cons c cs)
  show ?case using Cons.IH [of "on_confirmation (fst c) (Some e) s"] pub_inv_failed [OF Cons.prems, of "fst c" e] by simp
qed simp

lemma pub_inv_cancelled_flag:
  assumes "pub_inv preprocess (y\<lparr>pl_pub := s\<rparr>)"
  shows "pub_inv preprocess (y\<lparr>pl_pub := s\<lparr>pb_cancelled := True\<rparr>\<rparr>)"
proof -
  obtain n where "inv_queue (y\<lparr>pl_pub := s\<rparr>)" "inv_tasks (y\<lparr>pl_pub := s\<rparr>)" "inv_sent (y\<lparr>pl_pub := s\<rparr>)"
    by (rule pub_invE [OF assms])
  then show ?thesis
    by (intro pub_inv_same_core [OF assms])
      (simp_all add: same_core_def inv_queue_def inv_tasks_def inv_sent_def split: option.splits)
qed

lemma pub_inv_cleanup:
  assumes "pub_inv preprocess y"
  shows "pub_inv preprocess (y\<lparr>pl_pub := cancel_pending (pl_pub y)\<rparr>)"
  unfolding cancel_pending_def
  by (rule pub_inv_cancelled_flag, rule pub_inv_fold_failed) (use assms in simp)

lemma pub_inv_process:
  assumes "pub_inv preprocess y" and "(ref, m, Preprocessing) \<in> set (pb_pending (pl_pub y))"
  shows "pub_inv preprocess (y\<lparr>pl_pub := deliver_message preprocess ref m (pl_pub y),
      pl_published := pl_published y @ (case preprocess m of Inr r \<Rightarrow> [(ref, broker_message_of r)] | Inl _ \<Rightarrow> [])\<rparr>)"
proof (cases "preprocess m")
  case (Inl e)
  then show ?thesis using pub_inv_failed [OF assms(1), of ref]
    by (cases e) (simp_all add: deliver_message_def)
next
  case (Inr r)
  obtain n where n: "inv_deque n y" "inv_pending preprocess y" "inv_slots n y" "inv_events n y" "inv_receipts n y"
    "inv_queue y" "inv_tasks y" "inv_sent y" by (rule pub_invE [OF assms(1)])
  define y' where "y' = y\<lparr>pl_pub := deliver_message preprocess ref m (pl_pub y),
      pl_published := pl_published y @ [(ref, broker_message_of r)]\<rparr>"
  have ref: "ref < length (pl_taken y)" "pl_taken y ! ref = m" "ref \<notin> set (pl_confirmed y)"
    using n(2) assms(2) by (auto simp: inv_pending_def)
  note del = deliver_message_def Inr
  have fst: "map fst (pb_pending (pl_pub y')) = map fst (pb_pending (pl_pub y))" by (auto simp: y'_def del)
  have "inv_deque n y'" using n(1) by (rule inv_deque_cong) (simp_all add: y'_def del)
  moreover have "inv_pending preprocess y'" unfolding inv_pending_def fst
    by (intro conjI) (use n(2) ref Inr in \<open>auto simp: y'_def del inv_pending_def split: if_splits\<close>)
  moreover have "inv_slots n y'" using n(3) by (rule inv_slots_cong) (simp_all add: y'_def del)
  moreover have "inv_events n y'"
    using n(4) unfolding inv_events_def set_map [symmetric] fst by (auto simp: y'_def del)
  moreover have "inv_receipts n y'" using n(5) by (rule inv_receipts_cong) (simp_all add: y'_def del)
  moreover have "inv_queue y'" using n(6) by (simp add: y'_def del inv_queue_def)
  moreover have "inv_tasks y'" using n(7) by (simp add: y'_def del inv_tasks_def)
  moreover have "inv_sent y'" using n(8) by (simp add: y'_def del inv_sent_def split: option.splits)
  ultimately show ?thesis by (auto simp: pub_inv_def y'_def Inr)
qed

lemma pub_inv_own:
  assumes "pub_inv preprocess y" and "pub_own preprocess y y'"
  shows "pub_inv preprocess y'"
  using assms(2) by (cases rule: pub_own.cases)
    (auto intro: pub_inv_take pub_inv_make pub_inv_wake pub_inv_put pub_inv_report pub_inv_cancelled pub_inv_cleanup
      pub_inv_finish pub_inv_unclosed pub_inv_process pub_inv_confirm pub_inv_failed pub_inv_put_last assms(1)
      simp only:)

lemma pub_inv_step:
  assumes "pub_inv preprocess y" and "pub_step preprocess y y'"
  shows "pub_inv preprocess y'"
  using assms(2) by (cases rule: pub_step.cases)
    (auto intro: pub_inv_own [OF assms(1)] pub_inv_receive [OF assms(1)] pub_inv_read [OF assms(1)] simp only:)

interpretation publisher_run: inductive_invariant pub_start "pub_step preprocess" "pub_inv preprocess" for preprocess
  by unfold_locales (rule pub_inv_start, assumption, rule pub_inv_step)

section \<open>What the invariant gives\<close>

lemma inv_receipts_confirmed:
  assumes "inv_deque n y" and "inv_pending preprocess y" and "inv_receipts n y"
  shows "\<exists>ks. sorted_wrt (<) ks \<and> pl_receipts y = map (\<lambda>k. m_id (pl_taken y ! k)) ks \<and>
    (\<forall>k\<in>set ks. \<forall>i\<le>k. i < length (pl_taken y) \<and> i \<in> set (pl_confirmed y) \<and>
      (\<exists>r. preprocess (pl_taken y ! i) = Inr r \<and> (i, broker_message_of r) \<in> set (pl_published y)))"
proof -
  obtain ks where ks: "sorted_wrt (<) ks" "\<forall>k\<in>set ks. k < n"
    "pl_receipts y @ (case pb_rc (pl_pub y) of RecPut r \<Rightarrow> [r] | _ \<Rightarrow> []) = map (\<lambda>k. m_id (pl_taken y ! k)) ks"
    using assms(3) by (auto simp: inv_receipts_def)
  let ?l = "length (pl_receipts y)"
  have "pl_receipts y = map (\<lambda>k. m_id (pl_taken y ! k)) (take ?l ks)"
    using arg_cong [OF ks(3), of "List.take ?l"] by (simp add: take_map)
  moreover have "sorted_wrt (<) (take ?l ks)" using ks(1) by (rule sorted_wrt_take)
  moreover have "i < length (pl_taken y) \<and> i \<in> set (pl_confirmed y) \<and>
      (\<exists>r. preprocess (pl_taken y ! i) = Inr r \<and> (i, broker_message_of r) \<in> set (pl_published y))"
    if "k \<in> set (take ?l ks)" "i \<le> k" for k i
  proof -
    have "i < n" using ks(2) that by (meson in_set_takeD order.strict_trans1)
    then have i: "i \<in> set (pl_confirmed y)" "i < length (pl_taken y)" using assms(1) by (auto simp: inv_deque_def)
    then obtain r where "(i, r) \<in> set (pl_published y)" using assms(2) by (auto simp: inv_pending_def)
    with i assms(2) show ?thesis by (fastforce simp: inv_pending_def)
  qed
  ultimately show ?thesis by blast
qed

lemma inv_pending_bounded:
  assumes "inv_deque n y" and "inv_pending preprocess y"
  shows "length (pb_pending (pl_pub y)) \<le> length (pb_deliveries (pl_pub y))"
proof -
  have "fst ` set (pb_pending (pl_pub y)) \<subseteq> {n..<length (pl_taken y)}"
  proof (rule image_subsetI)
    fix c assume "c \<in> set (pb_pending (pl_pub y))"
    then have "fst c < length (pl_taken y)" "fst c \<notin> set (pl_confirmed y)" using assms(2) by (auto simp: inv_pending_def)
    moreover from this(2) have "\<not> fst c < n" using assms(1) by (auto simp: inv_deque_def)
    ultimately show "fst c \<in> {n..<length (pl_taken y)}" by simp
  qed
  then have "card (set (map fst (pb_pending (pl_pub y)))) \<le> length (pl_taken y) - n"
    by (metis card_atLeastLessThan card_mono finite_atLeastLessThan set_map)
  moreover have "card (set (map fst (pb_pending (pl_pub y)))) = length (pb_pending (pl_pub y))"
    using assms(2) distinct_card [of "map fst (pb_pending (pl_pub y))"] unfolding inv_pending_def by (simp only: length_map)
  ultimately show ?thesis using assms(1) by (simp add: inv_deque_def)
qed

section \<open>An example\<close>

text \<open>Two messages are published; the broker confirms the second one first.\<close>

definition example_pre :: "message \<Rightarrow> pre_error + rmq_message" where
  "example_pre m = Inr \<lparr>rm_id = m_id m, rm_body = m_body m, rm_headers = [], rm_type = m_type m,
     rm_content_type = m_content_type m, rm_routing_key = Some (lit ''key'')\<rparr>"

definition example_pub_message :: "char list \<Rightarrow> message" where
  "example_pub_message i = \<lparr>m_id = lit i, m_type = lit ''T'', m_body = ''body'', m_content_type = lit ''text/plain''\<rparr>"

definition example_pub_sys :: pub_sys where
  "example_pub_sys = \<lparr>pl_pub = publisher_new (aq_new 2)
      \<lparr>aq_items = [Some (example_pub_message ''1''), Some (example_pub_message ''2'')], aq_maxsize = 0, aq_unfinished = 2,
       aq_put_task = NoPutTask, wq_paused = False, wq_lw_callbacks = [], wq_hw_callbacks = [],
       wq_low_watermark = 1, wq_high_watermark = 4\<rparr>,
    pl_taken = [], pl_published = [], pl_confirmed = [], pl_receipts = [], pl_read = []\<rparr>"

definition example_accept :: "char list \<Rightarrow> pub_sys \<Rightarrow> pub_sys" where
  "example_accept i y = (let m = example_pub_message i; s = the (publish_take (pl_pub y)) in
     y\<lparr>pl_pub := publish_make m s, pl_taken := pl_taken y @ [m]\<rparr>)"

definition example_process :: "nat \<Rightarrow> pub_sys \<Rightarrow> pub_sys" where
  "example_process ref y = (let m = pl_taken y ! ref in
     y\<lparr>pl_pub := deliver_message example_pre ref m (pl_pub y),
       pl_published := pl_published y @ (case example_pre m of Inr r \<Rightarrow> [(ref, broker_message_of r)] | Inl _ \<Rightarrow> [])\<rparr>)"

definition example_confirm :: "nat \<Rightarrow> pub_sys \<Rightarrow> pub_sys" where
  "example_confirm ref y = y\<lparr>pl_pub := on_confirmation ref None (pl_pub y), pl_confirmed := ref # pl_confirmed y\<rparr>"

lemma example_accept_reached:
  assumes "reaches pub_start (pub_step preprocess) y" and "pb_pc (pl_pub y) = PubGet"
    and "publish_take (pl_pub y) \<noteq> None" and "pb_pc (the (publish_take (pl_pub y))) = PubWait (example_pub_message i)"
    and "pb_can_make_deliveries (the (publish_take (pl_pub y)))"
  shows "reaches pub_start (pub_step preprocess) (example_accept i y)"
proof -
  obtain s where s: "publish_take (pl_pub y) = Some s" using assms(3) by auto
  from reaches_step [OF reaches_step [OF assms(1) pub_step.own [OF pub_own.take [OF assms(2) s]]], OF pub_step.own [OF pub_own.make [of _ "example_pub_message i"]]]
  show ?thesis using assms(4,5) s by (simp add: example_accept_def Let_def)
qed

lemma example_process_reached:
  assumes "reaches pub_start (pub_step example_pre) y"
    and "(ref, pl_taken y ! ref, Preprocessing) \<in> set (pb_pending (pl_pub y))"
  shows "reaches pub_start (pub_step example_pre) (example_process ref y)"
  unfolding example_process_def Let_def by (rule reaches_step [OF assms(1) pub_step.own [OF pub_own.process [OF assms(2)]]])

lemma example_confirm_reached:
  assumes "reaches pub_start (pub_step preprocess) y"
    and "\<exists>m r. (ref, m, Publishing r) \<in> set (pb_pending (pl_pub y))"
  shows "reaches pub_start (pub_step preprocess) (example_confirm ref y)"
proof -
  obtain m r where "(ref, m, Publishing r) \<in> set (pb_pending (pl_pub y))" using assms(2) by blast
  from reaches_step [OF assms(1) pub_step.own [OF pub_own.confirm [OF this]]] show ?thesis by (simp add: example_confirm_def)
qed

lemmas example_pub_simps = example_pub_sys_def publisher_new_def example_pub_message_def example_accept_def example_process_def
  example_confirm_def publish_take_def publish_make_def aq_get_def aq_new_def task_done_def aq_task_done_def
  max_parallel_deliveries_def deliver_message_def example_pre_def broker_message_of_def on_confirmation_def Let_def
  receipts_wake_def receipts_put_def aq_put_nowait_def aq_full_def

text \<open>Both messages are with the broker, and the second one is confirmed.\<close>

definition example_pub_waiting :: pub_sys where
  "example_pub_waiting = example_confirm 1 (example_process 0 (example_process 1
     (example_accept ''2'' (example_accept ''1'' example_pub_sys))))"

lemma example_pub_waiting_reached: "reaches pub_start (pub_step example_pre) example_pub_waiting"
  unfolding example_pub_waiting_def
proof (intro example_confirm_reached example_process_reached)
  have "reaches pub_start (pub_step example_pre) example_pub_sys"
    unfolding example_pub_sys_def by (intro reaches_init pub_start_new) (simp, simp_all add: aq_new_def)
  then have "reaches pub_start (pub_step example_pre) (example_accept ''1'' example_pub_sys)"
    by (rule example_accept_reached) (simp_all add: example_pub_simps)
  then show "reaches pub_start (pub_step example_pre) (example_accept ''2'' (example_accept ''1'' example_pub_sys))"
    by (rule example_accept_reached) (simp_all add: example_pub_simps)
qed (simp_all add: example_pub_simps)

text \<open>The first message is confirmed, and a receipt for both of them is put into the send queue.\<close>

definition example_pub_done :: pub_sys where
  "example_pub_done = (let y = example_confirm 0 example_pub_waiting; s = receipts_wake (pl_pub y) in
     y\<lparr>pl_pub := the (receipts_put (lit ''2'') s), pl_receipts := [lit ''2'']\<rparr>)"

lemma example_pub_done_reached: "reaches pub_start (pub_step example_pre) example_pub_done"
proof -
  let ?y = "example_confirm 0 example_pub_waiting"
  have "reaches pub_start (pub_step example_pre) ?y"
    by (rule example_confirm_reached [OF example_pub_waiting_reached]) (simp add: example_pub_waiting_def example_pub_simps)
  moreover have "pub_step example_pre ?y (?y\<lparr>pl_pub := receipts_wake (pl_pub ?y)\<rparr>)"
    by (rule pub_step.own [OF pub_own.wake]) (simp_all add: example_pub_waiting_def example_pub_simps)
  ultimately have "reaches pub_start (pub_step example_pre) (?y\<lparr>pl_pub := receipts_wake (pl_pub ?y)\<rparr>)"
    by (rule reaches_step)
  moreover have "pub_step example_pre (?y\<lparr>pl_pub := receipts_wake (pl_pub ?y)\<rparr>) example_pub_done"
    using pub_step.own [OF pub_own.put [of "?y\<lparr>pl_pub := receipts_wake (pl_pub ?y)\<rparr>" "lit ''2''"]]
    by (simp add: example_pub_waiting_def example_pub_done_def example_pub_simps)
  ultimately show ?thesis by (rule reaches_step)
qed

text \<open>A new publisher, and one message on its way through it: from the receive queue to the receipt.\<close>

definition pub_sys_new :: "str send_item aqueue \<Rightarrow> (message option, flow_cb) wqueue \<Rightarrow> pub_sys" where
  "pub_sys_new send recv = \<lparr>pl_pub = publisher_new send recv, pl_taken = [], pl_published = [], pl_confirmed = [],
     pl_receipts = [], pl_read = []\<rparr>"

lemma pub_sys_new_start:
  "aq_items send = [] \<Longrightarrow> aq_put_task send = NoPutTask \<Longrightarrow> aq_unfinished recv = length (aq_items recv) \<Longrightarrow>
   pub_start (pub_sys_new send recv)"
  by (rule pub_start_new [of _ send recv]) (simp_all add: pub_sys_new_def)

lemma one_message_own:
  assumes pre: "preprocess m = Inr r" and rq: "aq_items rq = [Some m]" "aq_unfinished rq = 1"
  shows "\<exists>y. (pub_own preprocess)\<^sup>*\<^sup>* (pub_sys_new (aq_new 4) rq) y \<and> pl_taken y = [m] \<and> pl_receipts y = [m_id m] \<and>
    pb_send (pl_pub y) = (aq_new 4)\<lparr>aq_items := [Payload (m_id m)], aq_unfinished := 1\<rparr>"
proof -
  obtain cbs q where q: "task_done (rq\<lparr>aq_items := []\<rparr>) = Inr (cbs, q)"
    using task_done_unfinished [of "rq\<lparr>aq_items := []\<rparr>"] rq(2) by auto
  let ?y1 = "pub_sys_new (aq_new 4) rq"
  let ?y2 = "?y1\<lparr>pl_pub := the (publish_take (pl_pub ?y1))\<rparr>"
  let ?y3 = "?y2\<lparr>pl_pub := publish_make m (pl_pub ?y2), pl_taken := [m]\<rparr>"
  let ?y4 = "?y3\<lparr>pl_pub := deliver_message preprocess 0 m (pl_pub ?y3), pl_published := [(0, broker_message_of r)]\<rparr>"
  let ?y5 = "?y4\<lparr>pl_pub := on_confirmation 0 None (pl_pub ?y4), pl_confirmed := [0]\<rparr>"
  let ?y6 = "?y5\<lparr>pl_pub := receipts_wake (pl_pub ?y5)\<rparr>"
  let ?y7 = "?y6\<lparr>pl_pub := the (receipts_put (m_id m) (pl_pub ?y6)), pl_receipts := [m_id m]\<rparr>"
  note defs = pub_sys_new_def publisher_new_def publish_take_def publish_make_def aq_get_def aq_new_def rq q
    max_parallel_deliveries_def deliver_message_def pre on_confirmation_def Let_def
    receipts_wake_def receipts_put_def aq_put_nowait_def aq_full_def
  have "pub_own preprocess ?y1 ?y2" by (rule pub_own.take) (simp_all add: defs)
  moreover have "pub_own preprocess ?y2 ?y3" using pub_own.make [of ?y2 m preprocess] by (simp add: defs)
  moreover have "pub_own preprocess ?y3 ?y4" using pub_own.process [of 0 m ?y3 preprocess] by (simp add: defs)
  moreover have "pub_own preprocess ?y4 ?y5"
    using pub_own.confirm [of 0 m "broker_message_of r" ?y4 preprocess] by (simp add: defs)
  moreover have "pub_own preprocess ?y5 ?y6" by (rule pub_own.wake) (simp_all add: defs)
  moreover have "pub_own preprocess ?y6 ?y7" using pub_own.put [of ?y6 "m_id m" _ preprocess] by (simp add: defs)
  ultimately have "(pub_own preprocess)\<^sup>*\<^sup>* ?y1 ?y7" by (meson converse_rtranclp_into_rtranclp rtranclp.rtrancl_refl)
  moreover have "pl_taken ?y7 = [m]" "pl_receipts ?y7 = [m_id m]"
    "pb_send (pl_pub ?y7) = (aq_new 4)\<lparr>aq_items := [Payload (m_id m)], aq_unfinished := 1\<rparr>" by (simp_all add: defs)
  ultimately show ?thesis by blast
qed

section \<open>The promises of the publisher\<close>

text \<open>
  C5: In every run of \<^verbatim>\<open>publish_to_exchange\<close>, whatever the order in which the broker confirms, the
  receipts are the ids of some of the messages, in the order in which the messages were taken from
  the receive queue, and when a receipt is put into the send queue, its message and every earlier
  one has been preprocessed, published and confirmed by the broker. The other side gets exactly
  these receipts and, once the publisher has ended, one last item with its result.
\<close>

theorem receipts_confirmed:
  assumes "reaches pub_start (pub_step preprocess) y"
  shows "(\<exists>ks. sorted_wrt (<) ks \<and> pl_receipts y = map (\<lambda>k. m_id (pl_taken y ! k)) ks \<and>
      (\<forall>k\<in>set ks. \<forall>i\<le>k. i < length (pl_taken y) \<and> i \<in> set (pl_confirmed y) \<and>
        (\<exists>r. preprocess (pl_taken y ! i) = Inr r \<and> (i, broker_message_of r) \<in> set (pl_published y)))) \<and>
    pl_read y @ aq_future (pb_send (pl_pub y)) = map Payload (pl_receipts y) @
      (case pb_result (pl_pub y) of Some r \<Rightarrow> if pb_terminated (pl_pub y) then [Stop (last_item r)] else [] | None \<Rightarrow> [])"
proof -
  obtain n where "inv_deque n y" "inv_pending preprocess y" "inv_receipts n y" "inv_sent y"
    by (rule pub_invE [OF publisher_run.reaches_inv [OF assms]])
  with inv_receipts_confirmed [OF this(1-3)] show ?thesis by (simp add: inv_sent_def)
qed

theorem receipts_confirmed_witness:
  "pl_receipts example_pub_done = [lit ''2''] \<and> set (pl_confirmed example_pub_done) = {0, 1} \<and>
   (\<exists>ks. sorted_wrt (<) ks \<and> pl_receipts example_pub_done = map (\<lambda>k. m_id (pl_taken example_pub_done ! k)) ks) \<and>
   aq_future (pb_send (pl_pub example_pub_done)) = [Payload (lit ''2'')]"
proof -
  have "pl_receipts example_pub_done = [lit ''2'']" "set (pl_confirmed example_pub_done) = {0, 1}"
    "pb_result (pl_pub example_pub_done) = None" "pl_read example_pub_done = []"
    by (auto simp: example_pub_done_def example_pub_waiting_def example_pub_simps)
  with receipts_confirmed [OF example_pub_done_reached] show ?thesis by (auto simp del: sorted_wrt_map)
qed

text \<open>
  C27: At no time are there more deliveries than \<^verbatim>\<open>max_parallel_deliveries\<close> for which no receipt was
  sent, nor more pending confirmations, and the event \<^verbatim>\<open>can_make_deliveries\<close> is set exactly when there
  is room for one more.
\<close>

theorem deliveries_bounded:
  assumes "reaches pub_start (pub_step preprocess) y"
  shows "int (length (pb_deliveries (pl_pub y))) \<le> max_parallel_deliveries (pl_pub y) \<and>
    int (length (pb_pending (pl_pub y))) \<le> max_parallel_deliveries (pl_pub y) \<and>
    (pb_can_make_deliveries (pl_pub y) \<longleftrightarrow> int (length (pb_deliveries (pl_pub y))) < max_parallel_deliveries (pl_pub y))"
proof -
  obtain n where n: "inv_deque n y" "inv_pending preprocess y" "inv_slots n y"
    by (rule pub_invE [OF publisher_run.reaches_inv [OF assms]])
  have "length (pb_deliveries (pl_pub y)) = length (pl_taken y) - n" using n(1) by (simp add: inv_deque_def)
  with n(3) inv_pending_bounded [OF n(1,2)] show ?thesis by (auto simp: inv_slots_def)
qed

theorem deliveries_bounded_witness:
  "length (pb_deliveries (pl_pub example_pub_waiting)) = 2 \<and> max_parallel_deliveries (pl_pub example_pub_waiting) = 2 \<and>
   \<not> pb_can_make_deliveries (pl_pub example_pub_waiting)"
proof -
  have "length (pb_deliveries (pl_pub example_pub_waiting)) = 2" "max_parallel_deliveries (pl_pub example_pub_waiting) = 2"
    by (simp_all add: example_pub_waiting_def example_pub_simps)
  with deliveries_bounded [OF example_pub_waiting_reached] show ?thesis by simp
qed

text \<open>
  C21: No wakeup is lost. While \<^verbatim>\<open>publish_messages\<close> has to wait for room, some other task of the
  publisher can run or the broker still owes an answer: a receipt waits for its place in the send
  queue, or a confirmation was not looked at, or a failure was not reported, or the oldest delivery
  is pending. And once every delivery is confirmed, looked at and its receipt put, the last receipt
  is the one for the last message.
\<close>

theorem publisher_not_stuck:
  assumes "reaches pub_start (pub_step preprocess) y" and "pb_result (pl_pub y) = None"
  shows "(\<not> pb_can_make_deliveries (pl_pub y) \<longrightarrow>
      (\<exists>r. pb_rc (pl_pub y) = RecPut r) \<or>
      (pb_rc (pl_pub y) = RecWait \<and> pb_has_confirmed (pl_pub y)) \<or>
      pb_has_failed (pl_pub y) \<or>
      (\<exists>d ds. pb_deliveries (pl_pub y) = d # ds \<and> \<not> dl_confirmed d \<and> dl_ref d \<in> fst ` set (pb_pending (pl_pub y)))) \<and>
    (pl_taken y \<noteq> [] \<and> (\<forall>i<length (pl_taken y). i \<in> set (pl_confirmed y)) \<and>
      pb_rc (pl_pub y) = RecWait \<and> \<not> pb_has_confirmed (pl_pub y) \<longrightarrow>
      pl_receipts y \<noteq> [] \<and> last (pl_receipts y) = m_id (last (pl_taken y)))"
proof (intro conjI impI)
  obtain n where n: "inv_deque n y" "inv_slots n y" "inv_events n y" "inv_receipts n y" "inv_tasks y"
    by (rule pub_invE [OF publisher_run.reaches_inv [OF assms(1)]])
  have rc: "pb_rc (pl_pub y) \<noteq> RecDone" using n(5) assms(2) by (simp add: inv_tasks_def)
  {
    assume "\<not> pb_can_make_deliveries (pl_pub y)"
    with n(2) have lt: "n < length (pl_taken y)" by (auto simp: inv_slots_def max_parallel_deliveries_def)
    with n(1) have "pb_deliveries (pl_pub y) = \<lparr>dl_ref = n, dl_message_id = m_id (pl_taken y ! n),
        dl_confirmed = (n \<in> set (pl_confirmed y))\<rparr> # open_deliveries (pl_taken y) (pl_confirmed y) (Suc n)"
      by (simp add: inv_deque_def open_deliveries_Cons)
    with lt n(3) rc show "(\<exists>r. pb_rc (pl_pub y) = RecPut r) \<or> (pb_rc (pl_pub y) = RecWait \<and> pb_has_confirmed (pl_pub y)) \<or>
        pb_has_failed (pl_pub y) \<or>
        (\<exists>d ds. pb_deliveries (pl_pub y) = d # ds \<and> \<not> dl_confirmed d \<and> dl_ref d \<in> fst ` set (pb_pending (pl_pub y)))"
      by (cases "pb_rc (pl_pub y)") (auto simp: inv_events_def)
  next
    assume q: "pl_taken y \<noteq> [] \<and> (\<forall>i<length (pl_taken y). i \<in> set (pl_confirmed y)) \<and>
      pb_rc (pl_pub y) = RecWait \<and> \<not> pb_has_confirmed (pl_pub y)"
    then have "n = length (pl_taken y)" using n(1,3) by (auto simp: inv_deque_def inv_events_def le_less)
    with q n(4) obtain ks where "pl_receipts y = map (\<lambda>k. m_id (pl_taken y ! k)) ks" "ks \<noteq> []" "last ks = length (pl_taken y) - 1"
      by (auto simp: inv_receipts_def)
    with q show "pl_receipts y \<noteq> []" "last (pl_receipts y) = m_id (last (pl_taken y))"
      by (simp_all add: last_map last_conv_nth)
  }
qed

theorem publisher_not_stuck_witness:
  "\<not> pb_can_make_deliveries (pl_pub example_pub_waiting) \<and>
   ((\<exists>r. pb_rc (pl_pub example_pub_waiting) = RecPut r) \<or>
    (pb_rc (pl_pub example_pub_waiting) = RecWait \<and> pb_has_confirmed (pl_pub example_pub_waiting)) \<or>
    pb_has_failed (pl_pub example_pub_waiting) \<or>
    (\<exists>d ds. pb_deliveries (pl_pub example_pub_waiting) = d # ds \<and> \<not> dl_confirmed d \<and>
      dl_ref d \<in> fst ` set (pb_pending (pl_pub example_pub_waiting)))) \<and>
   last (pl_receipts example_pub_done) = m_id (last (pl_taken example_pub_done))"
proof -
  have w: "pb_result (pl_pub example_pub_waiting) = None" "\<not> pb_can_make_deliveries (pl_pub example_pub_waiting)"
    by (simp_all add: example_pub_waiting_def example_pub_simps)
  have d: "pb_result (pl_pub example_pub_done) = None" "pl_taken example_pub_done \<noteq> []"
    "\<forall>i<length (pl_taken example_pub_done). i \<in> set (pl_confirmed example_pub_done)"
    "pb_rc (pl_pub example_pub_done) = RecWait" "\<not> pb_has_confirmed (pl_pub example_pub_done)"
    by (auto simp: example_pub_done_def example_pub_waiting_def example_pub_simps)
  from publisher_not_stuck [OF example_pub_waiting_reached w(1)] publisher_not_stuck [OF example_pub_done_reached d(1)] w d
  show ?thesis by simp
qed

end
