(* ===== verification/Server_Connection.thy ===== *)
theory Server_Connection
  imports Composition Aio_Queues Rmq_Publisher
begin

text \<open>
  A connection of the server process: the protocol (\<^verbatim>\<open>StompServer\<close>) and the publisher
  (\<^verbatim>\<open>publish_to_exchange\<close>) that run concurrently on the same two queues, as the picture at the top of
  \<^verbatim>\<open>swpt_stomp/server.py\<close> shows them. Both models carry the queues; what one does to them, the other
  one sees.
\<close>

declare lit_simps [simp del]

section \<open>The connection\<close>

text \<open>What was taken from the front of a queue.\<close>

definition removed :: "'a list \<Rightarrow> 'a list \<Rightarrow> 'a list" where
  "removed before after = take (length before - length after) before"

lemma removed_simps [simp]: "removed xs xs = []" "removed (ys @ xs) xs = ys" "removed (x # xs) xs = [x]" "removed xs (xs @ ys) = []"
  by (simp_all add: removed_def)

text \<open>The publisher after a step of the protocol, and the protocol after a step of the publisher.\<close>

definition server_seen :: "server_sys \<Rightarrow> server_sys \<Rightarrow> pub_sys \<Rightarrow> pub_sys" where
  "server_seen y y' z =
     z\<lparr>pl_pub := (pl_pub z)\<lparr>pb_send := pr_send_queue (y_server y'), pb_recv := pr_recv_queue (y_server y')\<rparr>,
       pl_read := pl_read z @ removed (aq_items (pr_send_queue (y_server y))) (aq_items (pr_send_queue (y_server y')))\<rparr>"

definition pub_seen :: "pub_sys \<Rightarrow> pub_sys \<Rightarrow> server_sys \<Rightarrow> server_sys" where
  "pub_seen z z' y =
     y\<lparr>y_server := run_callbacks (drop (length (pb_callbacks (pl_pub z))) (pb_callbacks (pl_pub z')))
         ((y_server y)\<lparr>pr_send_queue := pb_send (pl_pub z'), pr_recv_queue := pb_recv (pl_pub z')\<rparr>),
       y_taken := y_taken y @ removed (aq_items (pb_recv (pl_pub z))) (aq_items (pb_recv (pl_pub z')))\<rparr>"

definition conn_step ::
  "(rat \<Rightarrow> str) \<Rightarrow> (message \<Rightarrow> pre_error + rmq_message) \<Rightarrow> server_sys \<times> pub_sys \<Rightarrow> server_sys \<times> pub_sys \<Rightarrow> bool" where
  "conn_step fmt preprocess = par_step (server_own fmt) server_seen (pub_own preprocess) pub_seen"

text \<open>
  How the logs of the two are related: the publisher has made deliveries for what it took from the
  receive queue, except for the last item; and the writer has got what was read from the send queue.
\<close>

definition server_link :: "server_sys \<Rightarrow> pub_sys \<Rightarrow> bool" where
  "server_link y z \<longleftrightarrow>
     pb_send (pl_pub z) = pr_send_queue (y_server y) \<and> pb_recv (pl_pub z) = pr_recv_queue (y_server y) \<and>
     y_confirmed y = payloads (pl_read z) \<and>
     (\<exists>rest. y_taken y = map Some (pl_taken z) @ rest \<and>
        (case pb_pc (pl_pub z) of PubGet \<Rightarrow> rest = [] | PubWait m \<Rightarrow> rest = [Some m] | PubDone \<Rightarrow> length rest \<le> 1))"

section \<open>What a step of the publisher does to the queues\<close>

lemma publisher_queue_fields [simp]:
  "pb_send (on_confirmation ref e s) = pb_send s" "pb_recv (on_confirmation ref e s) = pb_recv s"
  "pb_callbacks (on_confirmation ref e s) = pb_callbacks s" "pb_pc (on_confirmation ref e s) = pb_pc s"
  "pb_callbacks (gather_ends r s) = pb_callbacks s"
  by (simp_all add: on_confirmation_def gather_ends_def Let_def split: option.splits)

lemma deliver_message_fields [simp]:
  "pb_send (deliver_message preprocess ref m s) = pb_send s" "pb_recv (deliver_message preprocess ref m s) = pb_recv s"
  "pb_callbacks (deliver_message preprocess ref m s) = pb_callbacks s" "pb_pc (deliver_message preprocess ref m s) = pb_pc s"
  by (simp_all add: deliver_message_def split: sum.splits pre_error.splits)

lemma cancel_pending_fields [simp]:
  "pb_send (cancel_pending s) = pb_send s" "pb_recv (cancel_pending s) = pb_recv s"
  "pb_callbacks (cancel_pending s) = pb_callbacks s" "pb_pc (cancel_pending s) = pb_pc s"
proof -
  have "pb_send (fold (\<lambda>c. on_confirmation (fst c) e) cs s) = pb_send s \<and>
      pb_recv (fold (\<lambda>c. on_confirmation (fst c) e) cs s) = pb_recv s \<and>
      pb_callbacks (fold (\<lambda>c. on_confirmation (fst c) e) cs s) = pb_callbacks s \<and>
      pb_pc (fold (\<lambda>c. on_confirmation (fst c) e) cs s) = pb_pc s" for e and cs :: "(nat \<times> message \<times> deliver_state) list"
    by (induction cs arbitrary: s) simp_all
  then show "pb_send (cancel_pending s) = pb_send s" "pb_recv (cancel_pending s) = pb_recv s"
    "pb_callbacks (cancel_pending s) = pb_callbacks s" "pb_pc (cancel_pending s) = pb_pc s"
    by (simp_all add: cancel_pending_def)
qed

lemma receipts_wake_fields [simp]:
  "pb_send (receipts_wake s) = pb_send s" "pb_recv (receipts_wake s) = pb_recv s"
  "pb_callbacks (receipts_wake s) = pb_callbacks s" "pb_pc (receipts_wake s) = pb_pc s"
  by (simp_all add: receipts_wake_def Let_def split: prod.splits option.splits)

lemma terminate_queue_items: "\<exists>xs. aq_items (terminate_queue q x) = aq_items q @ xs"
  by (auto simp: terminate_queue_def aq_put_nowait_def split: put_task.splits)

lemma run_put_task_items: "\<exists>xs. aq_items (run_put_task q) = aq_items q @ xs"
  by (auto simp: run_put_task_def aq_put_nowait_def split: put_task.splits)

lemma pub_own_queues:
  assumes "pub_inv preprocess z" and "pub_own preprocess z z'"
  obtains (quiet) xs where "aq_items (pb_send (pl_pub z')) = aq_items (pb_send (pl_pub z)) @ xs"
      "pb_recv (pl_pub z') = pb_recv (pl_pub z)" "pb_callbacks (pl_pub z') = pb_callbacks (pl_pub z)"
      "pl_taken z' = pl_taken z" "pl_read z' = pl_read z" "pb_pc (pl_pub z') \<in> {pb_pc (pl_pub z), PubDone}"
  | (taken) x q where "aq_get (pb_recv (pl_pub z)) = Some (x, q)" "pb_recv (pl_pub z') = q"
      "pb_send (pl_pub z') = pb_send (pl_pub z)" "pb_callbacks (pl_pub z') = pb_callbacks (pl_pub z)"
      "pl_taken z' = pl_taken z" "pl_read z' = pl_read z" "pb_pc (pl_pub z) = PubGet"
      "pb_pc (pl_pub z') = (case x of Some m \<Rightarrow> PubWait m | None \<Rightarrow> PubDone)"
  | (made) m cbs q where "task_done (pb_recv (pl_pub z)) = Inr (cbs, q)" "pb_recv (pl_pub z') = q"
      "pb_send (pl_pub z') = pb_send (pl_pub z)" "pb_callbacks (pl_pub z') = pb_callbacks (pl_pub z) @ cbs"
      "pl_taken z' = pl_taken z @ [m]" "pl_read z' = pl_read z" "pb_pc (pl_pub z) = PubWait m" "pb_pc (pl_pub z') = PubGet"
  using assms(2)
proof cases
  case (take s)
  then obtain x q where xq: "aq_get (pb_recv (pl_pub z)) = Some (x, q)"
    by (auto simp: publish_take_def split: option.splits)
  show thesis
  proof (rule taken [OF xq])
  qed (use take xq in \<open>auto simp: publish_take_def split: option.splits\<close>)
next
  case (make m)
  obtain n where "inv_queue z" by (rule pub_invE [OF assms(1)])
  with make(2) have "0 < aq_unfinished (pb_recv (pl_pub z))" by (simp add: inv_queue_def)
  then obtain cbs q where q: "task_done (pb_recv (pl_pub z)) = Inr (cbs, q)" using task_done_unfinished by blast
  show thesis
    by (rule made [OF q]) (use make q in \<open>simp_all add: publish_make_def Let_def\<close>)
next
  case (put r s)
  then obtain q where "s = (pl_pub z)\<lparr>pb_send := q, pb_rc := RecWait\<rparr>"
    "aq_items q = aq_items (pb_send (pl_pub z)) @ [Payload r]"
    by (auto simp: receipts_put_def aq_put_nowait_def split: if_splits)
  with put(1) show thesis by (intro quiet [of "[Payload r]"]) simp_all
next
  case (finish r)
  obtain xs where "aq_items (terminate_queue (pb_send (pl_pub z)) (Stop (last_item r))) = aq_items (pb_send (pl_pub z)) @ xs"
    by (rule exE [OF terminate_queue_items])
  with finish show thesis by (intro quiet [of xs]) (simp_all add: publish_finish_def)
next
  case put_last
  obtain xs where "aq_items (run_put_task (pb_send (pl_pub z))) = aq_items (pb_send (pl_pub z)) @ xs"
    by (rule exE [OF run_put_task_items])
  with put_last show thesis by (intro quiet [of xs]) simp_all
qed (rule quiet [of "[]"]; simp add: report_failed_def cancel_publisher_def)+

section \<open>Each part is the environment of the other one\<close>

lemma server_own_seen:
  assumes "server_link y z" and "server_own fmt y y'"
  shows "(pub_step preprocess)\<^sup>*\<^sup>* z (server_seen y y' z) \<and> server_link y' (server_seen y y' z)"
proof -
  obtain xs ys where mv: "moves xs ys (y_server y) (y_server y')" "y_taken y' = y_taken y"
    "y_confirmed y' = y_confirmed y @ payloads ys"
    using server_own_moves [OF assms(2)] by blast
  let ?sq = "pr_send_queue (y_server y')" and ?rq = "pr_recv_queue (y_server y')"
  let ?z = "z\<lparr>pl_pub := (pl_pub z)\<lparr>pb_recv := ?rq\<rparr>\<rparr>"
  have link: "pb_send (pl_pub z) = pr_send_queue (y_server y)" "pb_recv (pl_pub z) = pr_recv_queue (y_server y)"
    using assms(1) by (simp_all add: server_link_def)
  have "pub_step preprocess z ?z"
    using mv(1) link by (intro pub_step.receive [of _ _ xs]) (simp_all add: moves_def)
  moreover have "pub_step preprocess ?z (?z\<lparr>pl_pub := (pl_pub ?z)\<lparr>pb_send := ?sq\<rparr>, pl_read := pl_read ?z @ ys\<rparr>)"
    using mv(1) link by (intro pub_step.read) (simp_all add: moves_def)
  moreover have seen: "server_seen y y' z = ?z\<lparr>pl_pub := (pl_pub ?z)\<lparr>pb_send := ?sq\<rparr>, pl_read := pl_read ?z @ ys\<rparr>"
    using mv(1) by (simp add: server_seen_def moves_def)
  ultimately have "(pub_step preprocess)\<^sup>*\<^sup>* z (server_seen y y' z)"
    by (metis converse_rtranclp_into_rtranclp r_into_rtranclp)
  moreover have "server_link y' (server_seen y y' z)"
    using assms(1) mv(2,3) unfolding seen by (simp add: server_link_def)
  ultimately show ?thesis by blast
qed

lemma run_callbacks_Nil [simp]: "run_callbacks [] s = s"
  by (cases "pr_transport s") (simp_all add: run_callbacks_def)

lemma pub_own_seen:
  assumes "pub_inv preprocess z" and "server_link y z" and "pub_own preprocess z z'"
  shows "(server_step fmt)\<^sup>*\<^sup>* y (pub_seen z z' y) \<and> server_link (pub_seen z z' y) z'"
proof -
  have link: "pb_send (pl_pub z) = pr_send_queue (y_server y)" "pb_recv (pl_pub z) = pr_recv_queue (y_server y)"
    using assms(2) by (simp_all add: server_link_def)
  from assms(1,3) show ?thesis
  proof (cases rule: pub_own_queues)
    case (quiet xs)
    then have seen: "pub_seen z z' y = y\<lparr>y_server := (y_server y)\<lparr>pr_send_queue := pb_send (pl_pub z')\<rparr>\<rparr>"
      using link by (simp add: pub_seen_def)
    have "server_step fmt y (pub_seen z z' y)"
      unfolding seen using quiet(1) link by (intro step_enqueue [of _ _ xs]) simp
    moreover have "server_link (pub_seen z z' y) z'"
      using assms(2) quiet(2-) link unfolding seen by (cases "pb_pc (pl_pub z)") (auto simp: server_link_def)
    ultimately show ?thesis by blast
  next
    case (taken x q)
    have items: "removed (aq_items (pb_recv (pl_pub z))) (aq_items q) = [x]"
      using taken(1) by (auto simp: aq_get_def split: list.splits)
    then have seen: "pub_seen z z' y = y\<lparr>y_server := (y_server y)\<lparr>pr_recv_queue := q\<rparr>, y_taken := y_taken y @ [x]\<rparr>"
      using taken(2-4) link by (simp add: pub_seen_def)
    have "server_step fmt y (pub_seen z z' y)"
      unfolding seen using taken(1) link by (intro step_consume) simp
    moreover have "server_link (pub_seen z z' y) z'"
      using assms(2) taken(2-) link unfolding seen by (auto simp: server_link_def split: option.splits)
    ultimately show ?thesis by blast
  next
    case (made m cbs q)
    then have "removed (aq_items (pb_recv (pl_pub z))) (aq_items q) = []" using task_done_fields [OF made(1)] by simp
    then have seen: "pub_seen z z' y = y\<lparr>y_server := run_callbacks cbs ((y_server y)\<lparr>pr_recv_queue := q\<rparr>)\<rparr>"
      using made(2-4) link by (simp add: pub_seen_def)
    have "server_step fmt y (pub_seen z z' y)"
      unfolding seen using made(1) link by (intro step_consumed) simp
    moreover have "server_link (pub_seen z z' y) z'"
      using assms(2) made(2-) link unfolding seen by (auto simp: server_link_def)
    ultimately show ?thesis by blast
  qed
qed

interpretation server_conn: composition server_start "server_step fmt" server_ok pub_start "pub_step preprocess" "pub_inv preprocess"
  "server_own fmt" server_seen "pub_own preprocess" pub_seen server_link for fmt preprocess
  by unfold_locales (auto intro: step_own pub_step.own dest: server_own_seen pub_own_seen)

section \<open>Receipts on the wire\<close>

text \<open>
  The identifier of a message which, with every earlier one, was published in the form that
  \<^verbatim>\<open>preprocess_message\<close> gives it and was confirmed by the broker.
\<close>

definition confirmed_id :: "(message \<Rightarrow> pre_error + rmq_message) \<Rightarrow> pub_sys \<Rightarrow> str \<Rightarrow> bool" where
  "confirmed_id preprocess z r \<longleftrightarrow>
     (\<exists>k<length (pl_taken z). r = m_id (pl_taken z ! k) \<and>
        (\<forall>i\<le>k. i \<in> set (pl_confirmed z) \<and>
           (\<exists>m. preprocess (pl_taken z ! i) = Inr m \<and> (i, broker_message_of m) \<in> set (pl_published z))))"

lemma receipts_confirmed_id:
  assumes "pub_inv preprocess z" and "r \<in> set (pl_receipts z)"
  shows "confirmed_id preprocess z r"
proof -
  obtain n where n: "inv_deque n z" "inv_pending preprocess z" "inv_receipts n z" by (rule pub_invE [OF assms(1)])
  from inv_receipts_confirmed [OF n] obtain ks where ks: "pl_receipts z = map (\<lambda>k. m_id (pl_taken z ! k)) ks"
    "\<forall>k\<in>set ks. \<forall>i\<le>k. i < length (pl_taken z) \<and> i \<in> set (pl_confirmed z) \<and>
      (\<exists>m. preprocess (pl_taken z ! i) = Inr m \<and> (i, broker_message_of m) \<in> set (pl_published z))" by blast
  from assms(2) ks(1) obtain k where "k \<in> set ks" "r = m_id (pl_taken z ! k)" by auto
  with ks(2) show ?thesis unfolding confirmed_id_def by (intro exI [of _ k]) auto
qed

lemma read_confirmed_id:
  assumes "pub_inv preprocess z" and "r \<in> set (payloads (pl_read z))"
  shows "confirmed_id preprocess z r"
proof -
  obtain n where "inv_sent z" by (rule pub_invE [OF assms(1)])
  then obtain rest where "pl_read z @ aq_future (pb_send (pl_pub z)) = map Payload (pl_receipts z) @ rest" "payloads rest = []"
    by (auto simp: inv_sent_def split: option.splits if_splits)
  then have "payloads (pl_read z @ aq_future (pb_send (pl_pub z))) = pl_receipts z" by simp
  then have "r \<in> set (pl_receipts z)" using assms(2) by (metis UnCI payloads_append set_append)
  with assms(1) show ?thesis by (rule receipts_confirmed_id)
qed

text \<open>The messages that the protocol has put into the receive queue so far.\<close>

definition received_messages :: "server_sys \<Rightarrow> message list" where
  "received_messages y = concat (map (case_option [] (\<lambda>m. [m])) (y_taken y @ aq_items (pr_recv_queue (y_server y))))"

lemma received_messages_eq:
  assumes "server_ok y"
  shows "y_taken y @ aq_items (pr_recv_queue (y_server y)) =
      map Some (received_messages y) @ (if pr_connection_lost (y_server y) then [None] else [])"
    and "s_last_message_id (y_server y) = (if received_messages y = [] then None else Some (m_id (last (received_messages y))))"
proof -
  obtain ms where ms: "y_taken y @ aq_items (pr_recv_queue (y_server y)) =
      map Some ms @ (if pr_connection_lost (y_server y) then [None] else [])"
    using assms by (auto simp: server_ok_def server_inv_def proto_inv_def)
  have "concat (map (case_option [] (\<lambda>m. [m])) (map Some ms)) = ms" by (induction ms) simp_all
  then have eq: "received_messages y = ms" unfolding received_messages_def ms by simp
  show "y_taken y @ aq_items (pr_recv_queue (y_server y)) =
      map Some (received_messages y) @ (if pr_connection_lost (y_server y) then [None] else [])" using ms eq by simp
  have "s_last_message_id (y_server y) = last_id (y_taken y @ aq_items (pr_recv_queue (y_server y))) None"
    using assms by (simp add: server_ok_def)
  then show "s_last_message_id (y_server y) = (if received_messages y = [] then None else Some (m_id (last (received_messages y))))"
    unfolding ms eq by (simp add: last_id_map)
qed

lemma taken_received:
  assumes "server_ok y" and "server_link y z"
  shows "\<exists>rest. received_messages y = pl_taken z @ rest"
proof -
  obtain ys where "y_taken y = map Some (pl_taken z) @ ys" using assms(2) by (auto simp: server_link_def)
  moreover have "concat (map (case_option [] (\<lambda>m. [m])) (map Some ms)) = ms" for ms :: "message list"
    by (induction ms) simp_all
  ultimately show ?thesis unfolding received_messages_def by simp
qed

text \<open>
  When a receipt is due: for a confirmed message; or as the answer to DISCONNECT, when the last
  message that was received is confirmed. If the peer did not use an identifier twice, then all
  messages received are.
\<close>

definition receipt_due :: "(message \<Rightarrow> pre_error + rmq_message) \<Rightarrow> server_sys \<Rightarrow> pub_sys \<Rightarrow> str \<Rightarrow> bool" where
  "receipt_due preprocess y z r \<longleftrightarrow> confirmed_id preprocess z r \<or>
     s_disconnect_receipt_id (y_server y) = Some r \<and>
     (received_messages y = [] \<or> confirmed_id preprocess z (m_id (last (received_messages y)))) \<and>
     (distinct (map m_id (received_messages y)) \<longrightarrow> pl_taken z = received_messages y)"

text \<open>The bytes of a RECEIPT frame tell the identifier, and are those of no other kind of frame.\<close>

lemma frame_bytes_command:
  assumes "frame_bytes f = Inr b" and "10 \<notin> set (f_command f)"
  shows "takeWhile (\<lambda>c. c \<noteq> NL) b = map char_of (f_command f)"
proof -
  obtain h where f: "list_all (\<lambda>cp. cp < 0x80) (f_command f)" "b = map char_of (f_command f) @ [NL] @ h"
    using assms(1) by (auto simp: frame_bytes_def bindE_eq_Inr_conv ascii_encode_def split: if_splits)
  have "char_of cp \<noteq> NL" if "cp \<in> set (f_command f)" for cp
  proof
    assume "char_of cp = NL"
    then have "of_char (char_of cp :: char) = (10 :: nat)" by simp
    then show False using that f(1) assms(2) by (auto simp: list_all_iff of_char_of)
  qed
  then have "NL \<notin> set (map char_of (f_command f))" by force
  from takeWhile_sep [OF this, of h] f(2) show ?thesis by simp
qed

lemma receipt_bytes_inj:
  assumes "frame_bytes (receipt_frame r) = Inr b" and "frame_bytes (receipt_frame r') = Inr b"
  shows "r = r'"
proof -
  have parts: "\<exists>h. utf8_encode (header_lines (receipt_frame r)) = Inr h \<and> b = map char_of (lit ''RECEIPT'') @ [NL] @ h @ [NL, NUL]"
    if "frame_bytes (receipt_frame r) = Inr b" for r
    using that by (auto simp: frame_bytes_def bindE_eq_Inr_conv ascii_encode_def receipt_frame_def split: if_splits)
  obtain h h' where h: "utf8_encode (header_lines (receipt_frame r)) = Inr h" "utf8_encode (header_lines (receipt_frame r')) = Inr h'"
    "h = h'" using parts [OF assms(1)] parts [OF assms(2)] by auto
  then have "header_lines (receipt_frame r) = header_lines (receipt_frame r')"
    using utf8_decode_encode [OF h(1)] utf8_decode_encode [OF h(2)] by simp
  then have eq: "translate r = translate r'" by (simp add: header_lines_def receipt_frame_def header_line_def)
  have "list_all scalar (translate r)"
    using h(1) by (auto simp: utf8_encode_def header_lines_def receipt_frame_def header_line_def split: if_splits)
  then obtain c where c: "utf8_encode (translate r) = Inr c" by (auto simp: utf8_encode_def)
  have "decode_header c = Inr r'" using c unfolding eq by (rule header_text_roundtrip)
  with header_text_roundtrip [OF c] show ?thesis by simp
qed

lemma receipt_bytes_other:
  assumes "frame_bytes (receipt_frame r) = Inr b"
  shows "b \<noteq> [NL]" "frame_bytes (connected_frame x x') \<noteq> Inr b" "frame_bytes (error_frame m i c ct cct) \<noteq> Inr b"
proof -
  have b: "takeWhile (\<lambda>c. c \<noteq> NL) b = map char_of (lit ''RECEIPT'')"
    using frame_bytes_command [OF assms] by (simp add: receipt_frame_def lit_simps)
  show "b \<noteq> [NL]" using b by (auto simp: lit_simps)
  show "frame_bytes (connected_frame x x') \<noteq> Inr b"
  proof
    assume "frame_bytes (connected_frame x x') = Inr b"
    from frame_bytes_command [OF this] b show False by (simp add: connected_frame_def lit_simps)
  qed
  show "frame_bytes (error_frame m i c ct cct) \<noteq> Inr b"
  proof
    assume "frame_bytes (error_frame m i c ct cct) = Inr b"
    from frame_bytes_command [OF this] b show False by (simp add: error_frame_def Let_def lit_simps)
  qed
qed

lemma last_confirmed_all:
  assumes "received = taken @ rest" and "distinct (map m_id received)" and "k < length taken"
    and "m_id (last received) = m_id (taken ! k)"
  shows "taken = received"
proof -
  have len: "received \<noteq> []" "k < length received" "taken ! k = received ! k"
    using assms(1,3) by (auto simp: nth_append)
  then have "map m_id received ! (length received - 1) = map m_id received ! k"
    using assms(4) by (simp add: last_conv_nth)
  then have "k = length received - 1"
    using len nth_eq_iff_index_eq [OF assms(2), of "length received - 1" k] by simp
  with assms(1,3) have "rest = []" by (cases rest) auto
  with assms(1) show ?thesis by simp
qed

lemma justified_receipt:
  assumes "justified conf s b" and "frame_bytes (receipt_frame r) = Inr b"
  shows "r \<in> set conf \<or> s_disconnect_receipt_id s = Some r \<and> all_confirmed conf s"
  using assms(1) receipt_bytes_other [OF assms(2)] receipt_bytes_inj [OF assms(2)] unfolding justified_def by metis

lemma conn_receipt_due:
  assumes ok: "server_ok y" and inv: "pub_inv preprocess z" and link: "server_link y z"
    and b: "b \<in> set (out_of (y_server y))" "frame_bytes (receipt_frame r) = Inr b"
  shows "receipt_due preprocess y z r"
proof -
  let ?ms = "received_messages y"
  have conf: "confirmed_id preprocess z r" if "r \<in> set (y_confirmed y)" for r
    using that link read_confirmed_id [OF inv] by (simp add: server_link_def)
  have "justified (y_confirmed y) (y_server y) b"
    using ok b(1) by (auto simp: server_ok_def server_inv_def list_all_iff)
  then consider "r \<in> set (y_confirmed y)"
    | "s_disconnect_receipt_id (y_server y) = Some r" "all_confirmed (y_confirmed y) (y_server y)"
    using justified_receipt [OF _ b(2)] by blast
  then show ?thesis
  proof cases
    case 2
    obtain rest where rest: "?ms = pl_taken z @ rest" using taken_received [OF ok link] by blast
    show ?thesis
    proof (cases "?ms = []")
      case True
      with 2(1) rest show ?thesis by (auto simp: receipt_due_def)
    next
      case False
      then have "m_id (last ?ms) \<in> set (y_confirmed y)"
        using 2(2) received_messages_eq(2) [OF ok] by (simp add: all_confirmed_def)
      then have c: "confirmed_id preprocess z (m_id (last ?ms))" by (rule conf)
      then obtain k where "k < length (pl_taken z)" "m_id (last ?ms) = m_id (pl_taken z ! k)"
        by (auto simp: confirmed_id_def)
      with last_confirmed_all [OF rest] have "distinct (map m_id ?ms) \<longrightarrow> pl_taken z = ?ms" by blast
      with 2(1) c show ?thesis by (auto simp: receipt_due_def)
    qed
  qed (use conf in \<open>auto simp: receipt_due_def\<close>)
qed

section \<open>A run of a connection\<close>

text \<open>A message in the receive queue is published and confirmed, and its receipt is written.\<close>

definition writer_ready :: "writer \<Rightarrow> server \<Rightarrow> bool" where
  "writer_ready w s \<longleftrightarrow> pr_writer s = w \<and> pr_start_sending s \<and> \<not> pr_done s \<and> pr_transport s \<noteq> None \<and>
     s_disconnect_receipt_id s = None"

text \<open>A parser that has read whole frames reads the next ones whole.\<close>

definition idle :: "stomp_parser \<Rightarrow> bool" where
  "idle p \<longleftrightarrow> p_data p = [] \<and> p_current_pos p = 0 \<and> p_command p = [] \<and> p_frames p = []"

lemma idle_reset [simp]: "idle reset"
  by (simp add: idle_def reset_def)

lemma idle_reads:
  assumes "idle p" and "list_all wf_frame fs"
  shows "\<exists>p'. add_bytes (concat (map wire fs)) p = Some (Inr (), p') \<and> p_frames p' = map parsed fs \<and> idle (p'\<lparr>p_frames := []\<rparr>)"
proof -
  have "stream (map Frame fs) = concat (map wire fs)" "frames_of (map Frame fs) = fs" by (induction fs) simp_all
  moreover have "list_all wf_item (map Frame fs)" using assms(2) by (simp add: list.pred_map comp_def)
  ultimately have "tracks p (concat (map wire fs) @ []) None (map Frame fs)"
    using assms(1) by (simp add: idle_def unread_def)
  from add_bytes_tracks [OF this] assms(1) \<open>frames_of (map Frame fs) = fs\<close> show ?thesis by (auto simp: idle_def)
qed

lemma pub_own_conn:
  assumes "(pub_own preprocess)\<^sup>*\<^sup>* z z'" and "writer_ready w (y_server y)" and "pb_send (pl_pub z) = pr_send_queue (y_server y)"
  shows "\<exists>y'. (conn_step fmt preprocess)\<^sup>*\<^sup>* (y, z) (y', z') \<and> writer_ready w (y_server y') \<and>
    pb_send (pl_pub z') = pr_send_queue (y_server y') \<and> out_of (y_server y') = out_of (y_server y) \<and> y_received y' = y_received y"
  using assms
proof (induction rule: rtranclp_induct)
  case (step z' z'')
  then obtain y' where y': "(conn_step fmt preprocess)\<^sup>*\<^sup>* (y, z) (y', z')" "writer_ready w (y_server y')"
    "out_of (y_server y') = out_of (y_server y)" "y_received y' = y_received y" by blast
  have "conn_step fmt preprocess (y', z') (pub_seen z' z'' y', z'')"
    unfolding conn_step_def by (rule par_second) (rule step(2))
  moreover have "writer_ready w (y_server (pub_seen z' z'' y'))" "pr_send_queue (y_server (pub_seen z' z'' y')) = pb_send (pl_pub z'')"
    "out_of (y_server (pub_seen z' z'' y')) = out_of (y_server y)" "y_received (pub_seen z' z'' y') = y_received y"
    using y'(2-4) by (auto simp: writer_ready_def pub_seen_def run_callbacks_def out_of_def)
  ultimately show ?case using y'(1) by (metis rtranclp.rtrancl_into_rtrancl)
qed auto

lemma writer_writes_receipt:
  assumes "writer_ready WaitStart (y_server y)"
    and "pr_send_queue (y_server y) = (aq_new 4)\<lparr>aq_items := [Payload r], aq_unfinished := 1\<rparr>"
    and "frame_bytes (receipt_frame r) = Inr b"
  shows "\<exists>y'. (server_own fmt)\<^sup>*\<^sup>* y y' \<and> out_of (y_server y') = out_of (y_server y) @ [b] \<and> y_received y' = y_received y"
proof -
  let ?y1 = "y\<lparr>y_server := snd (server_writer (y_server y)), y_confirmed := y_confirmed y @ next_payload (y_server y)\<rparr>"
  let ?y2 = "?y1\<lparr>y_server := snd (server_writer (y_server ?y1)), y_confirmed := y_confirmed ?y1 @ next_payload (y_server ?y1)\<rparr>"
  have "server_own fmt y ?y1" "server_own fmt ?y1 ?y2" by (rule step_writer)+
  then have "(server_own fmt)\<^sup>*\<^sup>* y ?y2" by (meson converse_rtranclp_into_rtranclp rtranclp.rtrancl_refl)
  moreover have "out_of (y_server ?y2) = out_of (y_server y) @ [b]" "y_received ?y2 = y_received y"
    using assms by (auto simp: writer_ready_def server_writer_def process_send_queue_def aq_get_def aq_new_def server_send_frame_def
        send_receipt_command_def write_frame_def transport_write_def send_task_done_def aq_task_done_def out_of_def)
  ultimately show ?thesis by blast
qed

lemma server_own_conn:
  assumes "(server_own fmt)\<^sup>*\<^sup>* y y'"
  shows "\<exists>z'. (conn_step fmt preprocess)\<^sup>*\<^sup>* (y, z) (y', z') \<and> pl_taken z' = pl_taken z \<and> pl_receipts z' = pl_receipts z"
  using assms
proof (induction rule: rtranclp_induct)
  case (step y' y'')
  then obtain z' where z': "(conn_step fmt preprocess)\<^sup>*\<^sup>* (y, z) (y', z')" "pl_taken z' = pl_taken z" "pl_receipts z' = pl_receipts z"
    by blast
  have "conn_step fmt preprocess (y', z') (y'', server_seen y' y'' z')"
    unfolding conn_step_def by (rule par_first) (rule step(2))
  with z' show ?case
    by (intro exI [of _ "server_seen y' y'' z'"]) (auto simp: server_seen_def intro: rtranclp.rtrancl_into_rtrancl)
qed blast

lemma receipt_run:
  assumes "preprocess m = Inr r" and "aq_items rq = [Some m]" "aq_unfinished rq = 1"
    and "writer_ready WaitStart (y_server y)" and "pr_send_queue (y_server y) = aq_new 4"
    and "frame_bytes (receipt_frame (m_id m)) = Inr b"
  shows "\<exists>y' z'. (conn_step fmt preprocess)\<^sup>*\<^sup>* (y, pub_sys_new (aq_new 4) rq) (y', z') \<and> pl_taken z' = [m] \<and>
    pl_receipts z' = [m_id m] \<and> out_of (y_server y') = out_of (y_server y) @ [b] \<and> y_received y' = y_received y"
proof -
  obtain z where z: "(pub_own preprocess)\<^sup>*\<^sup>* (pub_sys_new (aq_new 4) rq) z" "pl_taken z = [m]" "pl_receipts z = [m_id m]"
    "pb_send (pl_pub z) = (aq_new 4)\<lparr>aq_items := [Payload (m_id m)], aq_unfinished := 1\<rparr>"
    using one_message_own [where preprocess = preprocess, OF assms(1-3)] by blast
  have "pb_send (pl_pub (pub_sys_new (aq_new 4) rq)) = pr_send_queue (y_server y)"
    by (simp add: assms(5) pub_sys_new_def publisher_new_def)
  from pub_own_conn [OF z(1) assms(4) this, of fmt] obtain y1 where
    y1: "(conn_step fmt preprocess)\<^sup>*\<^sup>* (y, pub_sys_new (aq_new 4) rq) (y1, z)" "writer_ready WaitStart (y_server y1)"
    "pr_send_queue (y_server y1) = (aq_new 4)\<lparr>aq_items := [Payload (m_id m)], aq_unfinished := 1\<rparr>"
    "out_of (y_server y1) = out_of (y_server y)" "y_received y1 = y_received y"
    using z(4) by auto
  obtain y2 where y2: "(server_own fmt)\<^sup>*\<^sup>* y1 y2" "out_of (y_server y2) = out_of (y_server y) @ [b]" "y_received y2 = y_received y"
    using writer_writes_receipt [OF y1(2,3) assms(6), of fmt] unfolding y1(4,5) by blast
  obtain z2 where "(conn_step fmt preprocess)\<^sup>*\<^sup>* (y1, z) (y2, z2)" "pl_taken z2 = pl_taken z" "pl_receipts z2 = pl_receipts z"
    using server_own_conn [OF y2(1)] by blast
  with y1(1) y2(2,3) z(2,3) show ?thesis by (metis rtranclp_trans)
qed

end
