(* ===== verification/Peer_Files.thy ===== *)
theory Peer_Files
  imports Regex Node_Data Complex_Main
begin

text \<open>
  The files of the database of peers and how they are read, from \<^verbatim>\<open>swpt_stomp/peer_data.py\<close>: paths,
  certificates, the type of a node, and the configuration of a peer's STOMP servers with its host names.
  The file system and \<^verbatim>\<open>tomli.loads\<close> are arguments: what reading a path gives, or the exception it
  raises, and which paths are directories. At the end, what a well-formed node and peer are.
\<close>

declare lit_simps [simp del]
declare lit_eq_iff [simp] lit_Nil_iff [simp]

section \<open>Text\<close>

definition starts_with :: "'a list \<Rightarrow> 'a list \<Rightarrow> bool" where
  "starts_with p s \<longleftrightarrow> take (length p) s = p"

definition ends_with :: "'a list \<Rightarrow> 'a list \<Rightarrow> bool" where
  "ends_with p s \<longleftrightarrow> starts_with (rev p) (rev s)"

text \<open>\<^verbatim>\<open>s.replace(old, new)\<close> for a text \<^verbatim>\<open>old\<close> that is not empty.\<close>

function py_replace :: "'a list \<Rightarrow> 'a list \<Rightarrow> 'a list \<Rightarrow> 'a list" where
  "py_replace old new s =
     (if s = [] then []
      else if old \<noteq> [] \<and> starts_with old s then new @ py_replace old new (drop (length old) s)
      else hd s # py_replace old new (tl s))"
  by pat_completeness auto
termination
  by (relation "measure (\<lambda>(old, new, s). length s)") (auto simp: neq_Nil_conv)

declare py_replace.simps [simp del]

text \<open>\<^verbatim>\<open>os.path.join(a, b)\<close> and \<^verbatim>\<open>os.path.normpath(path)\<close>.\<close>

definition path_join :: "str \<Rightarrow> str \<Rightarrow> str" where
  "path_join a b =
     (if starts_with (lit ''/'') b then b
      else if a = [] \<or> ends_with (lit ''/'') a then a @ b
      else a @ lit ''/'' @ b)"

fun norm_comps :: "bool \<Rightarrow> str list \<Rightarrow> str list \<Rightarrow> str list" where
  "norm_comps rooted new_comps [] = new_comps"
| "norm_comps rooted new_comps (cp # comps) =
     norm_comps rooted
       (if cp = [] \<or> cp = lit ''.'' then new_comps
        else if cp \<noteq> lit ''..'' \<or> \<not> rooted \<and> new_comps = [] \<or> new_comps \<noteq> [] \<and> last new_comps = lit ''..''
        then new_comps @ [cp]
        else butlast new_comps) comps"

definition normpath :: "str \<Rightarrow> str" where
  "normpath path =
     (let slashes = (if starts_with (lit ''//'') path \<and> \<not> starts_with (lit ''///'') path then 2
                     else if starts_with (lit ''/'') path then 1 else 0);
          comps = norm_comps (0 < slashes) [] (py_split 47 (length path) path);
          p = replicate slashes 47 @ py_join (lit ''/'') comps
      in if p = [] then lit ''.'' else p)"

section \<open>The files of the directory\<close>

record file_system =
  fs_read :: "str \<Rightarrow> exc + bytes"
  fs_isdir :: "str \<Rightarrow> bool"

datatype toml = TStr str | TList "toml list" | TOther

type_synonym tomli = "str \<Rightarrow> exc + (str \<times> toml) list"

definition lits :: "string \<Rightarrow> char re" where
  "lits s = foldr (\<lambda>c r. Cat (Lit c) r) s Eps"

definition PEM_CERTIFICATE_RE :: "char re" where
  "PEM_CERTIFICATE_RE =
     Cat (Bol (CHR 0x0A)) (Cat (lits ''-----BEGIN CERTIFICATE-----'') (Cat (Eol (CHR 0x0A))
     (Cat (Plus (Cls (\<lambda>c. c \<noteq> CHR ''-'')))
     (Cat (Bol (CHR 0x0A)) (Cat (lits ''-----END CERTIFICATE-----'') (Cat (Eol (CHR 0x0A))
     (Opt (Cat (Opt (Lit (CHR 0x0D))) (Lit (CHR 0x0A))))))))))"

text \<open>A letter matches \<^verbatim>\<open>[a-z]\<close> regardless of its case; so do four letters outside of ASCII.\<close>

definition dn_char :: "nat \<Rightarrow> bool" where
  "dn_char x \<longleftrightarrow> 97 \<le> x \<and> x \<le> 122 \<or> 65 \<le> x \<and> x \<le> 90 \<or> is_digit x \<or> x = 45 \<or>
     x \<in> {0x130, 0x131, 0x17f, 0x212a}"

definition DN_PART_RE :: "nat re" where
  "DN_PART_RE = Cat (NotAhead (\<lambda>x. x = 45)) (Cat (Rep (Cls dn_char) 1 63) (Cat (NotBehind (\<lambda>x. x = 45)) (Dollar 10)))"

definition ZERO_SUBNET :: subnet where
  "ZERO_SUBNET = \<lparr>sn_subnet = 0, sn_mask = 0xffffffffffffffff\<rparr>"

definition UNIVERSAL_SUBNET :: subnet where
  "UNIVERSAL_SUBNET = \<lparr>sn_subnet = 0, sn_mask = 0\<rparr>"

definition parse_node_type :: "str \<Rightarrow> exc + node_type" where
  "parse_node_type s =
     (if s = lit ''Accounting Authorities'' then Inr AA
      else if s = lit ''Creditors Agents'' then Inr CA
      else if s = lit ''Debtors Agents'' then Inr DA
      else Inl ValueError)"

section \<open>The configuration of a peer's STOMP servers\<close>

text \<open>\<^verbatim>\<open>hostname[-1]\<close> raises IndexError for an empty name. A text has no more dots than characters.\<close>

definition is_valid_hostname :: "str \<Rightarrow> exc + bool" where
  "is_valid_hostname hostname =
     (if hostname = [] then Inl IndexError
      else
        (let hostname = (if last hostname = 46 then butlast hostname else hostname) in
         if 253 < length hostname then Inr False
         else Inr (list_all (\<lambda>label. re_match DN_PART_RE label \<noteq> None) (py_split 46 (length hostname) hostname))))"

definition parse_server :: "toml \<Rightarrow> exc + (str \<times> int)" where
  "parse_server server =
     (case server of
        TStr s \<Rightarrow>
          (case py_split 58 1 s of
             [host, port_str] \<Rightarrow>
               bindE (is_valid_hostname host) (\<lambda>valid.
                 if \<not> valid then Inl ValueError
                 else
                   (case py_int 10 port_str of
                      None \<Rightarrow> Inl ValueError
                    | Some port \<Rightarrow> if 1 \<le> port \<and> port \<le> 65535 then Inr (host, port) else Inl ValueError))
           | _ \<Rightarrow> Inl ValueError)
      | _ \<Rightarrow> Inl ValueError)"

fun parse_servers :: "toml list \<Rightarrow> exc + (str \<times> int) list" where
  "parse_servers [] = Inr []"
| "parse_servers (s # ss) = bindE (parse_server s) (\<lambda>p. map_sum id ((#) p) (parse_servers ss))"

definition parse_servers_list :: "toml list \<Rightarrow> exc + (str \<times> int) list" where
  "parse_servers_list servers = (if servers = [] then Inl ValueError else parse_servers servers)"

definition NODE_ID_VAR :: str where
  "NODE_ID_VAR = lit (''$'' @ ''{NODE_ID}'')"

fun toml_str :: "toml option \<Rightarrow> exc + str" where
  "toml_str (Some (TStr s)) = Inr s"
| "toml_str _ = Inl ValueError"

fun toml_opt_str :: "toml option \<Rightarrow> exc + str option" where
  "toml_opt_str None = Inr None"
| "toml_opt_str (Some (TStr s)) = Inr (Some s)"
| "toml_opt_str _ = Inl ValueError"

fun is_tstr :: "toml \<Rightarrow> bool" where
  "is_tstr (TStr _) = True"
| "is_tstr _ = False"

fun toml_str_list :: "toml option \<Rightarrow> exc + str list" where
  "toml_str_list None = Inr []"
| "toml_str_list (Some (TList ts)) =
     (if list_all is_tstr ts then Inr (map (\<lambda>t. case t of TStr s \<Rightarrow> s | _ \<Rightarrow> []) ts)
      else Inl ValueError)"
| "toml_str_list _ = Inl ValueError"

definition parse_stomp_toml :: "tomli \<Rightarrow> str \<Rightarrow> str \<Rightarrow> exc + stomp_config" where
  "parse_stomp_toml loads s node_id =
     bindE (loads s) (\<lambda>data.
     bindE (case map_of data (lit ''servers'') of Some (TList l) \<Rightarrow> Inr l | _ \<Rightarrow> Inl ValueError) (\<lambda>servers.
     bindE (parse_servers_list servers) (\<lambda>parsed_servers.
     bindE (toml_str (map_of data (lit ''host''))) (\<lambda>host.
     bindE (toml_str (map_of data (lit ''destination''))) (\<lambda>destination.
     bindE (toml_opt_str (map_of data (lit ''login''))) (\<lambda>login.
     bindE (toml_opt_str (map_of data (lit ''passcode''))) (\<lambda>passcode.
     bindE (toml_str_list (map_of data (lit ''accepted-content-types''))) (\<lambda>types.
       Inr \<lparr>sc_servers = parsed_servers, sc_host = py_replace NODE_ID_VAR node_id host,
            sc_destination = py_replace NODE_ID_VAR node_id destination,
            sc_login = map_option (py_replace NODE_ID_VAR node_id) login, sc_passcode = passcode,
            sc_accepted_content_types = types @ [lit ''application/json'']\<rparr>))))))))"

section \<open>Host names and servers\<close>

text \<open>What a label of a host name is: the pattern also lets a newline through at its end.\<close>

definition host_label :: "str \<Rightarrow> bool" where
  "host_label l \<longleftrightarrow> (\<exists>w. list_all dn_char w \<and> 1 \<le> length w \<and> length w \<le> 63 \<and> hd w \<noteq> 45 \<and> last w \<noteq> 45 \<and>
     l \<in> {w, w @ [10]})"

lemma dn_part_language: "re_match DN_PART_RE l \<noteq> None \<longleftrightarrow> host_label l"
proof -
  let ?stop = "[Run (Cat (NotBehind (\<lambda>x. x = 45)) (Dollar 10))]"
  let ?q = "\<lambda>n. 1 \<le> n \<and> n \<le> 63 \<and> n \<le> length l \<and> list_all dn_char (take n l) \<and> last (take n l) \<noteq> 45 \<and>
    (drop n l = [] \<or> drop n l = [10])"
  have fin: "rmatch ?stop (rev t @ []) u c \<noteq> None \<longleftrightarrow> last t \<noteq> 45 \<and> (u = [] \<or> u = [10])" if "t \<noteq> []" for t u c
    using that by (simp add: hd_rev)
  have "re_match DN_PART_RE l \<noteq> None \<longleftrightarrow>
      (l \<noteq> [] \<longrightarrow> hd l \<noteq> 45) \<and> rmatch (Run (Rep (Cls dn_char) 1 63) # ?stop) [] l (\<lambda>_. None) \<noteq> None"
    by (auto simp: re_match_def DN_PART_RE_def)
  also have "\<dots> \<longleftrightarrow> (l \<noteq> [] \<longrightarrow> hd l \<noteq> 45) \<and> (\<exists>n. ?q n)"
  proof -
    have "(1 \<le> n \<and> n \<le> 63 \<and> n \<le> length l \<and> list_all dn_char (take n l) \<and>
        rmatch ?stop (rev (take n l) @ []) (drop n l) (\<lambda>_. None) \<noteq> None) = ?q n" for n
    proof (cases "1 \<le> n \<and> n \<le> length l")
      case True
      then have "take n l \<noteq> []" by (cases l) auto
      from fin [OF this] show ?thesis by blast
    qed blast
    then show ?thesis unfolding rmatch_cls_rep_some by simp
  qed
  also have "\<dots> \<longleftrightarrow> host_label l"
  proof
    assume "(l \<noteq> [] \<longrightarrow> hd l \<noteq> 45) \<and> (\<exists>n. ?q n)"
    then obtain n where n: "?q n" and h: "l \<noteq> [] \<longrightarrow> hd l \<noteq> 45" by blast
    then have "l \<in> {take n l, take n l @ [10]}" by (metis append_Nil2 append_take_drop_id insertCI)
    moreover have "hd (take n l) \<noteq> 45" using n h by (cases l) auto
    ultimately show "host_label l"
      unfolding host_label_def using n by (intro exI [of _ "take n l"]) auto
  next
    assume "host_label l"
    then obtain w where w: "list_all dn_char w" "1 \<le> length w" "length w \<le> 63" "hd w \<noteq> 45" "last w \<noteq> 45"
      "l \<in> {w, w @ [10]}" by (auto simp: host_label_def)
    then have "w \<noteq> []" by auto
    with w have "?q (length w)" "hd l \<noteq> 45" by (auto simp: hd_append)
    then show "(l \<noteq> [] \<longrightarrow> hd l \<noteq> 45) \<and> (\<exists>n. ?q n)" by blast
  qed
  finally show ?thesis .
qed

text \<open>A host name: at most 253 characters in labels, after one dot at the end was removed.\<close>

definition host_name :: "str \<Rightarrow> bool" where
  "host_name h \<longleftrightarrow> h \<noteq> [] \<and>
     (let h' = (if last h = 46 then butlast h else h) in
      length h' \<le> 253 \<and> (\<forall>l\<in>set (py_split 46 (length h') h'). host_label l))"

lemma is_valid_hostname_iff: "is_valid_hostname h = Inr True \<longleftrightarrow> host_name h"
  by (simp only: is_valid_hostname_def host_name_def Let_def dn_part_language) (auto simp: list_all_iff)

lemma is_valid_hostname_Inr: "h \<noteq> [] \<Longrightarrow> is_valid_hostname h = Inr (host_name h)"
  by (simp only: is_valid_hostname_def host_name_def Let_def dn_part_language) (auto simp: list_all_iff)

lemma py_split_once: "py_split x 1 s = [a, b] \<longleftrightarrow> s = a @ [x] @ b \<and> x \<notin> set a"
proof
  assume "py_split x 1 s = [a, b]"
  then show "s = a @ [x] @ b \<and> x \<notin> set a"
  proof (cases "dropWhile (\<lambda>y. y \<noteq> x) s")
    case (Cons y t)
    then have "s = takeWhile (\<lambda>y. y \<noteq> x) s @ y # t" by (metis takeWhile_dropWhile_id)
    moreover have "y = x" using hd_dropWhile [of "\<lambda>y. y \<noteq> x" s] Cons by simp
    moreover have "x \<notin> set (takeWhile (\<lambda>y. y \<noteq> x) s)" by (auto dest: set_takeWhileD)
    ultimately show ?thesis using \<open>py_split x 1 s = [a, b]\<close> Cons by auto
  qed simp
next
  assume "s = a @ [x] @ b \<and> x \<notin> set a"
  then show "py_split x 1 s = [a, b]" using py_split_append [of x a 0 b] by simp
qed

lemma parse_server_iff:
  "parse_server (TStr s) = Inr (h, p) \<longleftrightarrow>
     (\<exists>port. s = h @ [58] @ port \<and> 58 \<notin> set h \<and> host_name h \<and> py_int 10 port = Some p \<and> 1 \<le> p \<and> p \<le> 65535)"
proof
  assume a: "parse_server (TStr s) = Inr (h, p)"
  then obtain host port where sp: "py_split 58 1 s = [host, port]"
    by (auto simp: parse_server_def split: list.splits)
  moreover have "is_valid_hostname host = Inr True" "py_int 10 port = Some p" "1 \<le> p" "p \<le> 65535" "host = h"
    using a sp by (auto simp: parse_server_def bindE_eq_Inr_conv split: if_splits option.splits)
  ultimately show "\<exists>port. s = h @ [58] @ port \<and> 58 \<notin> set h \<and> host_name h \<and> py_int 10 port = Some p \<and> 1 \<le> p \<and> p \<le> 65535"
    unfolding py_split_once is_valid_hostname_iff by blast
next
  assume "\<exists>port. s = h @ [58] @ port \<and> 58 \<notin> set h \<and> host_name h \<and> py_int 10 port = Some p \<and> 1 \<le> p \<and> p \<le> 65535"
  then obtain port where "py_split 58 1 s = [h, port]" "is_valid_hostname h = Inr True" "py_int 10 port = Some p" "1 \<le> p" "p \<le> 65535"
    unfolding py_split_once is_valid_hostname_iff by blast
  then show "parse_server (TStr s) = Inr (h, p)" by (simp add: parse_server_def)
qed

lemma map_sum_Inr_iff: "map_sum f g r = Inr y \<longleftrightarrow> (\<exists>x. r = Inr x \<and> y = g x)"
  by (cases r) auto

lemma parse_servers_length: "parse_servers ss = Inr ps \<Longrightarrow> length ps = length ss"
  by (induction ss arbitrary: ps) (auto simp: bindE_eq_Inr_conv map_sum_Inr_iff)

lemma parse_servers_nth:
  "parse_servers ss = Inr ps \<longleftrightarrow> length ps = length ss \<and> (\<forall>i<length ss. parse_server (ss ! i) = Inr (ps ! i))"
proof (induction ss arbitrary: ps)
  case (Cons s ss)
  show ?case
  proof (cases ps)
    case (Cons p ps')
    then show ?thesis
      using Cons.IH [of ps'] by (auto simp: bindE_eq_Inr_conv map_sum_Inr_iff All_less_Suc2 nth_Cons')
  qed (auto simp: bindE_eq_Inr_conv map_sum_Inr_iff)
qed auto

section \<open>Well-formed nodes and peers\<close>

lemma hex_value_zeros: "hex_value 0 (replicate n 48) = 0"
  by (induction n) (simp_all add: hex_value_def hex_val_def)

lemma zero_subnet: "subnet_parse (replicate 16 48) = Inr ZERO_SUBNET"
  using lower_hex_parse [of "replicate 16 48"] hex_value_zeros [of 16] replicate_eq_replicate [of 16 48 16 "102 :: nat"]
  by (simp add: lower_hex_def list_all_iff ZERO_SUBNET_def mask_eq_exp_minus_1)

lemma universal_subnet: "subnet_parse [] = Inr UNIVERSAL_SUBNET"
  by (simp add: lower_hex_parse hex_value_def UNIVERSAL_SUBNET_def)

lemma wf_constants: "wf_subnet_bits 64 ZERO_SUBNET" "wf_subnet_bits 0 UNIVERSAL_SUBNET"
  using subnet_parse_bits(1) [OF zero_subnet] subnet_parse_bits(1) [OF universal_subnet] by simp_all

lemma wf_parsed: "subnet_parse s = Inr sn \<Longrightarrow> wf_subnet sn"
  using subnet_parse_bits(1) wf_subnet_def by blast

lemma wf_subnet_constants [simp]: "wf_subnet ZERO_SUBNET" "wf_subnet UNIVERSAL_SUBNET"
  using wf_constants wf_subnet_def by blast+

text \<open>Two subnets with the same mask fix the same number of bits.\<close>

lemma same_mask:
  assumes "wf_subnet_bits k f" and "wf_subnet_bits k' t" and "sn_mask f = sn_mask t"
  shows "k = k'"
proof -
  have b: "(64 - k \<le> i \<and> i < 64) = (64 - k' \<le> i \<and> i < 64)" for i
    using bit_subnet_mask [OF assms(1), of i] bit_subnet_mask [OF assms(2), of i] assms(3) by simp
  have "k \<le> 64" "k' \<le> 64" using assms(1,2) by (simp_all add: wf_subnet_bits_def)
  with b [of "64 - k"] b [of "64 - k'"] show ?thesis by (cases "k = 0"; cases "k' = 0") auto
qed

definition node_ok :: "node_data \<Rightarrow> bool" where
  "node_ok nd \<longleftrightarrow> wf_subnet (nd_creditors_subnet nd) \<and> wf_subnet (nd_debtors_subnet nd) \<and>
     (case nd_node_type nd of
        AA \<Rightarrow> nd_creditors_subnet nd = UNIVERSAL_SUBNET \<and> subnet_parse (nd_node_id nd) = Inr (nd_debtors_subnet nd)
      | CA \<Rightarrow> nd_debtors_subnet nd = UNIVERSAL_SUBNET
      | DA \<Rightarrow> nd_creditors_subnet nd = ZERO_SUBNET)"

definition peer_ok :: "node_data \<Rightarrow> peer_data \<Rightarrow> bool" where
  "peer_ok nd p \<longleftrightarrow> wf_subnet (pd_creditors_subnet p) \<and> wf_subnet (pd_debtors_subnet p) \<and>
     (case nd_node_type nd of
        AA \<Rightarrow> pd_node_type p = CA \<and> pd_debtors_subnet p = nd_debtors_subnet nd \<or>
               pd_node_type p = DA \<and> pd_creditors_subnet p = ZERO_SUBNET
      | CA \<Rightarrow> pd_node_type p = AA \<and> subnet_parse (pd_node_id p) = Inr (pd_debtors_subnet p) \<and>
               (\<exists>k. wf_subnet_bits k (pd_creditors_subnet p) \<and> wf_subnet_bits k (nd_creditors_subnet nd))
      | DA \<Rightarrow> pd_node_type p = AA \<and> pd_creditors_subnet p = ZERO_SUBNET \<and>
               pd_debtors_subnet p = nd_debtors_subnet nd)"

section \<open>The property\<close>

text \<open>
  C40: A server of the configuration is accepted exactly if it is a host name, a colon and a port
  between 1 and 65535; the host name has at most 253 characters (a dot at the end not counted) in
  labels of 1 to 63 letters, digits and hyphens that neither start nor end with a hyphen, each of
  which may have a newline at its end. A server without a host name raises IndexError, not ValueError.\<close>

theorem server_address:
  "(parse_server (TStr s) = Inr (h, p) \<longleftrightarrow>
     (\<exists>port. s = h @ [58] @ port \<and> 58 \<notin> set h \<and> host_name h \<and> py_int 10 port = Some p \<and> 1 \<le> p \<and> p \<le> 65535)) \<and>
   parse_server (TStr (lit '':'' @ s)) = Inl IndexError"
proof
  show "parse_server (TStr s) = Inr (h, p) \<longleftrightarrow>
     (\<exists>port. s = h @ [58] @ port \<and> 58 \<notin> set h \<and> host_name h \<and> py_int 10 port = Some p \<and> 1 \<le> p \<and> p \<le> 65535)"
    by (rule parse_server_iff)
  have "py_split 58 1 (lit '':'' @ s) = [[], s]" by (subst py_split_once) (simp add: lit_simps)
  then show "parse_server (TStr (lit '':'' @ s)) = Inl IndexError"
    by (simp add: parse_server_def is_valid_hostname_def)
qed

end
