(* ===== verification/Peer_Data.thy ===== *)
theory Peer_Data
  imports Peer_Files
begin

text \<open>
  The database of peers, from \<^verbatim>\<open>swpt_stomp/peer_data.py\<close>: the state of \<^verbatim>\<open>NodePeersDatabase\<close> and the
  coroutines of \<^verbatim>\<open>_LocalDirectory\<close> that read its directory. A coroutine is a value that says what it waits for
  next and how it goes on: the files may change, and other coroutines may run, at each of its \<^verbatim>\<open>await\<close>s.
  The clock is an argument of the operations that read it. \<open>ensures\<close> is what a coroutine
  guarantees of its result whatever happens while it waits. How the calls of many clients interleave
  is in the theory \<open>Peers_Cache\<close>.
\<close>

declare lit_simps [simp del]
declare lit_eq_iff [simp] lit_Nil_iff [simp]

section \<open>Coroutines\<close>

text \<open>
  A coroutine of the database: it has returned; or it waits for a file or for the kind of a path, and
  goes on with what it gets; or it reads or assigns \<^verbatim>\<open>self.__node_data\<close> and goes on at once.
\<close>

datatype 'a co =
    Return 'a
  | Read_file str "exc + bytes \<Rightarrow> 'a co"
  | Is_dir str "bool \<Rightarrow> 'a co"
  | Get_node_data "node_data option \<Rightarrow> 'a co"
  | Set_node_data node_data "'a co"

text \<open>\<^verbatim>\<open>await\<close> of another coroutine, and the same where an exception ends both.\<close>

primrec co_bind :: "'a co \<Rightarrow> ('a \<Rightarrow> 'b co) \<Rightarrow> 'b co" where
  "co_bind (Return x) f = f x"
| "co_bind (Read_file path k) f = Read_file path (\<lambda>r. co_bind (k r) f)"
| "co_bind (Is_dir path k) f = Is_dir path (\<lambda>b. co_bind (k b) f)"
| "co_bind (Get_node_data k) f = Get_node_data (\<lambda>nd. co_bind (k nd) f)"
| "co_bind (Set_node_data nd c) f = Set_node_data nd (co_bind c f)"

definition co_try :: "('e + 'a) co \<Rightarrow> ('a \<Rightarrow> ('e + 'b) co) \<Rightarrow> ('e + 'b) co" where
  "co_try c f = co_bind c (\<lambda>r. case r of Inl e \<Rightarrow> Return (Inl e) | Inr x \<Rightarrow> f x)"

text \<open>\<^verbatim>\<open>_fetch_file\<close> and \<^verbatim>\<open>_get_peer_dir\<close> run in a thread of the executor, and the coroutine waits for it.\<close>

definition read_file :: "str \<Rightarrow> str \<Rightarrow> (exc + bytes) co" where
  "read_file root_dir filepath = Read_file (path_join root_dir filepath) Return"

definition get_peer_dir :: "str \<Rightarrow> str \<Rightarrow> str option co" where
  "get_peer_dir root_dir node_id =
     (let abspath = path_join root_dir (lit ''peers/'' @ node_id) in
      Is_dir abspath (\<lambda>isdir. Return (if isdir then Some abspath else None)))"

definition read_text_file :: "str \<Rightarrow> str \<Rightarrow> (exc + str) co" where
  "read_text_file root_dir filepath = co_try (read_file root_dir filepath) (\<lambda>octets. Return (utf8_decode_exc octets))"

definition read_cert_file :: "str \<Rightarrow> str \<Rightarrow> (exc + bytes) co" where
  "read_cert_file root_dir filepath =
     co_try (read_file root_dir filepath) (\<lambda>content. Return
       (case re_search PEM_CERTIFICATE_RE content of
          None \<Rightarrow> Inl RuntimeError
        | Some (_, m) \<Rightarrow> Inr m))"

definition oneline :: "str \<Rightarrow> str" where
  "oneline content =
     (if ends_with [13, 10] content then take (length content - 2) content
      else if ends_with [10] content then take (length content - 1) content
      else content)"

definition read_oneline :: "str \<Rightarrow> str \<Rightarrow> (exc + str) co" where
  "read_oneline root_dir filepath = co_try (read_text_file root_dir filepath) (\<lambda>content. Return (Inr (oneline content)))"

definition read_subnet_file :: "str \<Rightarrow> str \<Rightarrow> (exc + subnet) co" where
  "read_subnet_file root_dir filepath = co_try (read_oneline root_dir filepath) (\<lambda>s. Return (subnet_parse s))"

section \<open>The cache of peers\<close>

text \<open>
  A float of the settings. The clock gives finite times, and the difference of two of them is exact.
\<close>

datatype py_float = Finite rat | Infinity | MinusInfinity | NaN

record peer_cache_record =
  pc_peer_data :: peer_data
  pc_time :: rat

record peers_db =
  db_node_data :: "node_data option"
  db_peers :: "(str \<times> peer_cache_record) list"
  db_max_cached_peers :: int
  db_peers_cache_seconds :: py_float

datatype db_error = DatabaseError

text \<open>\<^verbatim>\<open>NodePeersDatabase.__init__\<close>; the last two arguments are the values of the environment variables.\<close>

definition peers_db_init :: "int option \<Rightarrow> py_float option \<Rightarrow> int \<Rightarrow> py_float \<Rightarrow> exc + peers_db" where
  "peers_db_init max_cached_peers peers_cache_seconds APP_MAX_CACHED_PEERS APP_PEERS_CACHE_SECONDS =
     (let max_cached = (case max_cached_peers of None \<Rightarrow> APP_MAX_CACHED_PEERS | Some n \<Rightarrow> n);
          seconds = (case peers_cache_seconds of None \<Rightarrow> APP_PEERS_CACHE_SECONDS | Some n \<Rightarrow> n)
      in if max_cached \<ge> 1 \<and> seconds \<noteq> NaN
         then Inr \<lparr>db_node_data = None, db_peers = [], db_max_cached_peers = max_cached,
                   db_peers_cache_seconds = seconds\<rparr>
         else Inl AssertionError)"

text \<open>\<^verbatim>\<open>peer_record.time >= time.time() - self.__peers_cache_seconds\<close>.\<close>

fun fresh :: "py_float \<Rightarrow> rat \<Rightarrow> rat \<Rightarrow> bool" where
  "fresh (Finite seconds) now t = (now - seconds \<le> t)"
| "fresh Infinity now t = True"
| "fresh _ now t = False"

definition get_stored_peer_data :: "rat \<Rightarrow> str \<Rightarrow> peers_db \<Rightarrow> peer_data option" where
  "get_stored_peer_data now node_id db =
     (case map_of (db_peers db) node_id of
        None \<Rightarrow> None
      | Some peer_record \<Rightarrow>
          if fresh (db_peers_cache_seconds db) now (pc_time peer_record) then Some (pc_peer_data peer_record) else None)"

text \<open>
  The loop of \<^verbatim>\<open>__store_peer_data\<close>: \<^verbatim>\<open>popitem()\<close> of an OrderedDict removes the item that was
  added last, and raises KeyError if there is none.
\<close>

function pop_items :: "int \<Rightarrow> ('k \<times> 'v) list \<Rightarrow> exc + ('k \<times> 'v) list" where
  "pop_items max_cached peers =
     (if int (length peers) \<ge> max_cached then
        (if peers = [] then Inl (KeyError (lit ''dictionary is empty'')) else pop_items max_cached (butlast peers))
      else Inr peers)"
  by pat_completeness auto
termination by (relation "measure (\<lambda>(n, peers). length peers)") auto

declare pop_items.simps [simp del]

definition store_peer_data :: "rat \<Rightarrow> peer_data \<Rightarrow> peers_db \<Rightarrow> exc + peers_db" where
  "store_peer_data now p db =
     bindE (pop_items (db_max_cached_peers db) (db_peers db)) (\<lambda>peers.
       Inr (db\<lparr>db_peers := dict_set (pd_node_id p) \<lparr>pc_peer_data = p, pc_time = now\<rparr> peers\<rparr>))"

section \<open>The directory\<close>

definition dir_get_node_data :: "str \<Rightarrow> (exc + node_data) co" where
  "dir_get_node_data root_dir =
     co_try (read_cert_file root_dir (lit ''root-ca.crt'')) (\<lambda>root_cert.
     co_try (read_oneline root_dir (lit ''db/nodeid'')) (\<lambda>node_id.
     co_try (read_oneline root_dir (lit ''db/nodetype'')) (\<lambda>node_type_str.
     co_try (Return (parse_node_type node_type_str)) (\<lambda>node_type.
     co_try (case node_type of
               AA \<Rightarrow> Return (bindE (subnet_parse node_id) (\<lambda>debtors. Inr (UNIVERSAL_SUBNET, debtors)))
             | CA \<Rightarrow> co_try (read_subnet_file root_dir (lit ''creditors-subnet.txt'')) (\<lambda>creditors.
                       Return (Inr (creditors, UNIVERSAL_SUBNET)))
             | DA \<Rightarrow> co_try (read_subnet_file root_dir (lit ''debtors-subnet.txt'')) (\<lambda>debtors.
                       Return (Inr (ZERO_SUBNET, debtors)))) (\<lambda>(creditors, debtors).
       Return (Inr \<lparr>nd_node_type = node_type, nd_node_id = node_id, nd_root_cert = root_cert,
            nd_creditors_subnet = creditors, nd_debtors_subnet = debtors\<rparr>))))))"

text \<open>
  \<^verbatim>\<open>get_node_data\<close> of the base class: the data is read if there is none yet, and assigned when it was
  read. Another call may do the same in the meantime.
\<close>

definition node_data_co :: "str \<Rightarrow> (db_error + node_data) co" where
  "node_data_co root_dir =
     Get_node_data (\<lambda>nd. case nd of
        Some nd \<Rightarrow> Return (Inr nd)
      | None \<Rightarrow>
          co_bind (dir_get_node_data root_dir) (\<lambda>r. case r of
             Inl e \<Rightarrow> Return (Inl DatabaseError)
           | Inr nd \<Rightarrow> Set_node_data nd (Return (Inr nd))))"

text \<open>The subnets that a peer of the given type has for the owner of the node.\<close>

definition peer_subnets :: "str \<Rightarrow> node_data \<Rightarrow> node_type \<Rightarrow> str \<Rightarrow> str \<Rightarrow> (exc + (subnet \<times> subnet)) co" where
  "peer_subnets root_dir owner node_type node_id dir =
     (case nd_node_type owner of
        AA \<Rightarrow>
          co_try (read_subnet_file root_dir (dir @ lit ''/subnet.txt'')) (\<lambda>subnet. Return
            (case node_type of
               CA \<Rightarrow> Inr (subnet, nd_debtors_subnet owner)
             | DA \<Rightarrow> Inr (ZERO_SUBNET, subnet)
             | AA \<Rightarrow> Inl ValueError))
      | CA \<Rightarrow>
          (case node_type of
             AA \<Rightarrow>
               co_try (read_subnet_file root_dir (dir @ lit ''/masq-subnet.txt'')) (\<lambda>creditors. Return
                 (if sn_mask creditors \<noteq> sn_mask (nd_creditors_subnet owner) then Inl ValueError
                  else bindE (subnet_parse node_id) (\<lambda>debtors. Inr (creditors, debtors))))
           | _ \<Rightarrow> Return (Inl ValueError))
      | DA \<Rightarrow>
          Return
            (case node_type of
               AA \<Rightarrow> Inr (ZERO_SUBNET, nd_debtors_subnet owner)
             | _ \<Rightarrow> Inl ValueError))"

text \<open>What the directory holds of a peer before the data of the owner is needed: \<^verbatim>\<open>None\<close> ends the search.\<close>

definition dir_peer_files ::
  "str \<Rightarrow> bool \<Rightarrow> str \<Rightarrow> (exc + (bytes \<times> bool \<times> bytes \<times> node_type) option) co" where
  "dir_peer_files root_dir active_peers_only dir =
     co_bind (read_cert_file root_dir (dir @ lit ''/sub-ca.crt'')) (\<lambda>r. case r of
        Inl FileNotFoundError \<Rightarrow> Return (Inr None)
      | Inl e \<Rightarrow> Return (Inl e)
      | Inr sub_cert \<Rightarrow>
          co_bind (read_file root_dir (dir @ lit ''/ACTIVE'')) (\<lambda>r.
            case (case r of
                    Inl FileNotFoundError \<Rightarrow> Inr (if active_peers_only then None else Some False)
                  | Inl e \<Rightarrow> Inl e
                  | Inr _ \<Rightarrow> Inr (Some True)) of
              Inl e \<Rightarrow> Return (Inl e)
            | Inr None \<Rightarrow> Return (Inr None)
            | Inr (Some is_active) \<Rightarrow>
                co_try (read_cert_file root_dir (dir @ lit ''/root-ca.crt'')) (\<lambda>root_cert.
                co_try (read_oneline root_dir (dir @ lit ''/nodetype.txt'')) (\<lambda>node_type_str.
                co_try (Return (parse_node_type node_type_str)) (\<lambda>node_type.
                  Return (Inr (Some (sub_cert, is_active, root_cert, node_type))))))))"

text \<open>\<^verbatim>\<open>_get_peer_data\<close>: an exception is the one of \<^verbatim>\<open>get_node_data\<close>, or one of its own.\<close>

definition own_error :: "(exc + 'a) co \<Rightarrow> ((db_error + exc) + 'a) co" where
  "own_error c = co_bind c (\<lambda>r. Return (map_sum Inr id r))"

definition dir_get_peer_data :: "tomli \<Rightarrow> str \<Rightarrow> str \<Rightarrow> bool \<Rightarrow> ((db_error + exc) + peer_data option) co" where
  "dir_get_peer_data loads root_dir node_id active_peers_only =
     co_bind (get_peer_dir root_dir node_id) (\<lambda>found. case found of
        None \<Rightarrow> Return (Inr None)
      | Some dir \<Rightarrow>
          co_try (own_error (dir_peer_files root_dir active_peers_only dir)) (\<lambda>files. case files of
             None \<Rightarrow> Return (Inr None)
           | Some (sub_cert, is_active, root_cert, node_type) \<Rightarrow>
               co_try (co_bind (node_data_co root_dir) (\<lambda>r. Return (map_sum Inl id r))) (\<lambda>owner.
               co_try (own_error (read_text_file root_dir (dir @ lit ''/nodeinfo/stomp.toml''))) (\<lambda>s.
               co_try (own_error (Return (parse_stomp_toml loads s (nd_node_id owner)))) (\<lambda>stomp_config.
               co_try (own_error (peer_subnets root_dir owner node_type node_id dir)) (\<lambda>(creditors, debtors).
                 Return (Inr (Some
                   \<lparr>pd_node_type = node_type, pd_node_id = node_id, pd_stomp_config = stomp_config,
                    pd_root_cert = root_cert, pd_sub_cert = sub_cert,
                    pd_creditors_subnet = creditors, pd_debtors_subnet = debtors,
                    pd_is_active = is_active\<rparr>))))))))"

text \<open>
  What \<^verbatim>\<open>get_peer_data\<close> does once the directory was read: every exception becomes \<^verbatim>\<open>DatabaseError\<close>, and only
  an active peer is stored. The exception that storing may raise is not caught.
\<close>

definition peer_data_read ::
  "rat \<Rightarrow> ((db_error + exc) + peer_data option) \<times> peers_db \<Rightarrow> ((db_error + exc) + peer_data option) \<times> peers_db" where
  "peer_data_read now r =
     (case r of
        (Inl e, db) \<Rightarrow> (Inl (Inl DatabaseError), db)
      | (Inr None, db) \<Rightarrow> (Inr None, db)
      | (Inr (Some p), db) \<Rightarrow>
          if pd_is_active p then
            (case store_peer_data now p db of
               Inl e \<Rightarrow> (Inl (Inr e), db)
             | Inr db \<Rightarrow> (Inr (Some p), db))
          else (Inr (Some p), db))"

section \<open>Running the coroutines\<close>

text \<open>
  A coroutine that waits gets what it waits for, from the files as they are then; and it runs until
  it waits again or returns. \<open>assigned\<close> lists what it assigns to \<^verbatim>\<open>self.__node_data\<close> on the way.
\<close>

fun reply :: "file_system \<Rightarrow> 'a co \<Rightarrow> 'a co option" where
  "reply fs (Read_file path k) = Some (k (fs_read fs path))"
| "reply fs (Is_dir path k) = Some (k (fs_isdir fs path))"
| "reply fs _ = None"

primrec resume :: "'a co \<Rightarrow> peers_db \<Rightarrow> 'a co \<times> peers_db" where
  "resume (Return x) db = (Return x, db)"
| "resume (Read_file path k) db = (Read_file path k, db)"
| "resume (Is_dir path k) db = (Is_dir path k, db)"
| "resume (Get_node_data k) db = resume (k (db_node_data db)) db"
| "resume (Set_node_data nd c) db = resume c (db\<lparr>db_node_data := Some nd\<rparr>)"

primrec assigned :: "'a co \<Rightarrow> peers_db \<Rightarrow> node_data list" where
  "assigned (Return x) db = []"
| "assigned (Read_file path k) db = []"
| "assigned (Is_dir path k) db = []"
| "assigned (Get_node_data k) db = assigned (k (db_node_data db)) db"
| "assigned (Set_node_data nd c) db = nd # assigned c (db\<lparr>db_node_data := Some nd\<rparr>)"

text \<open>
  The same without interruption: nothing else uses the database, and the files do not change. So it
  is when a process starts, which reads its own data and, in the client, the data of its peer.
\<close>

primrec run_co :: "file_system \<Rightarrow> 'a co \<Rightarrow> peers_db \<Rightarrow> 'a \<times> peers_db" where
  "run_co fs (Return x) db = (x, db)"
| "run_co fs (Read_file path k) db = run_co fs (k (fs_read fs path)) db"
| "run_co fs (Is_dir path k) db = run_co fs (k (fs_isdir fs path)) db"
| "run_co fs (Get_node_data k) db = run_co fs (k (db_node_data db)) db"
| "run_co fs (Set_node_data nd c) db = run_co fs c (db\<lparr>db_node_data := Some nd\<rparr>)"

definition get_node_data :: "file_system \<Rightarrow> str \<Rightarrow> peers_db \<Rightarrow> (db_error + node_data) \<times> peers_db" where
  "get_node_data fs root_dir db = run_co fs (node_data_co root_dir) db"

text \<open>\<open>now\<close> is the time of the look-up and \<open>later\<close> the time at which the data was read.\<close>

definition get_peer_data ::
  "file_system \<Rightarrow> tomli \<Rightarrow> str \<Rightarrow> rat \<Rightarrow> rat \<Rightarrow> str \<Rightarrow> bool \<Rightarrow> peers_db \<Rightarrow> ((db_error + exc) + peer_data option) \<times> peers_db" where
  "get_peer_data fs loads root_dir now later node_id active_peers_only db =
     (case get_stored_peer_data now node_id db of
        Some p \<Rightarrow> (Inr (Some p), db)
      | None \<Rightarrow> peer_data_read later (run_co fs (dir_get_peer_data loads root_dir node_id active_peers_only) db))"

text \<open>
  The constructor of \<^verbatim>\<open>_LocalDirectory\<close>: the root directory beside the state of the base class.
  \<open>file_read_threads\<close> and its default only size the pool of threads.
\<close>

definition local_directory_init ::
  "str \<Rightarrow> int option \<Rightarrow> py_float option \<Rightarrow> int option \<Rightarrow> int \<Rightarrow> py_float \<Rightarrow> int \<Rightarrow> exc + (str \<times> peers_db)" where
  "local_directory_init url max_cached_peers peers_cache_seconds file_read_threads
     APP_MAX_CACHED_PEERS APP_PEERS_CACHE_SECONDS APP_FILE_READ_THREADS =
     bindE (peers_db_init max_cached_peers peers_cache_seconds APP_MAX_CACHED_PEERS APP_PEERS_CACHE_SECONDS) (\<lambda>db.
     bindE (guardE (starts_with (lit ''file:///'') url) AssertionError) (\<lambda>_.
     bindE (guardE (1 \<le> (case file_read_threads of None \<Rightarrow> APP_FILE_READ_THREADS | Some n \<Rightarrow> n)) AssertionError) (\<lambda>_.
       Inr (normpath (drop 7 url), db))))"

definition get_database_instance ::
  "str option \<Rightarrow> int option \<Rightarrow> py_float option \<Rightarrow> int option \<Rightarrow> int \<Rightarrow> py_float \<Rightarrow> int \<Rightarrow> exc + (str \<times> peers_db)" where
  "get_database_instance url max_cached_peers peers_cache_seconds file_read_threads
     APP_MAX_CACHED_PEERS APP_PEERS_CACHE_SECONDS APP_FILE_READ_THREADS =
     (case url of
        None \<Rightarrow> Inl ValueError
      | Some url \<Rightarrow>
          if starts_with (lit ''file:///'') url
          then local_directory_init url max_cached_peers peers_cache_seconds file_read_threads
                 APP_MAX_CACHED_PEERS APP_PEERS_CACHE_SECONDS APP_FILE_READ_THREADS
          else Inl ValueError)"

section \<open>What coroutines ensure\<close>

text \<open>
  \<open>ensures c Q N\<close>: whatever the files hold and whatever other coroutines assign between, what \<open>c\<close>
  returns satisfies \<open>Q\<close>, and what it assigns is well-formed; \<open>N\<close> holds the data of the node that was
  assigned so far, and it only grows.
\<close>

primrec ensures :: "'a co \<Rightarrow> (node_data set \<Rightarrow> 'a \<Rightarrow> bool) \<Rightarrow> node_data set \<Rightarrow> bool" where
  "ensures (Return x) Q N = (\<forall>N'. N \<subseteq> N' \<longrightarrow> Q N' x)"
| "ensures (Read_file path k) Q N = (\<forall>N' r. N \<subseteq> N' \<longrightarrow> ensures (k r) Q N')"
| "ensures (Is_dir path k) Q N = (\<forall>N' b. N \<subseteq> N' \<longrightarrow> ensures (k b) Q N')"
| "ensures (Get_node_data k) Q N = (\<forall>N'. N \<subseteq> N' \<longrightarrow> ensures (k None) Q N' \<and> (\<forall>nd\<in>N'. node_ok nd \<longrightarrow> ensures (k (Some nd)) Q N'))"
| "ensures (Set_node_data nd c) Q N = (node_ok nd \<and> (\<forall>N'. N \<subseteq> N' \<longrightarrow> ensures c Q (insert nd N')))"

lemma ensures_mono: "ensures c Q N \<Longrightarrow> N \<subseteq> N' \<Longrightarrow> ensures c Q N'"
  by (cases c) (auto dest: subset_trans)

text \<open>The rules for a sequence: what the first part ensures is what the second may rely on.\<close>

lemma ensures_then:
  assumes "ensures c R N" and "\<And>N' x. N \<subseteq> N' \<Longrightarrow> (\<And>N''. N' \<subseteq> N'' \<Longrightarrow> R N'' x) \<Longrightarrow> ensures (f x) Q N'"
  shows "ensures (co_bind c f) Q N"
  using assms
proof (induction c arbitrary: N)
  case (Return x)
  then show ?case by simp
next
  case (Read_file path k)
  show ?case
    using Read_file.IH [OF rangeI, where N = "N' :: node_data set" for N'] Read_file.prems by simp
next
  case (Is_dir path k)
  show ?case
    using Is_dir.IH [OF rangeI, where N = "N' :: node_data set" for N'] Is_dir.prems by simp
next
  case (Get_node_data k)
  show ?case
    using Get_node_data.IH [OF rangeI, where N = "N' :: node_data set" for N'] Get_node_data.prems by simp
next
  case (Set_node_data nd c)
  have "ensures (co_bind c f) Q (insert nd N')" if "N \<subseteq> N'" for N'
  proof (rule Set_node_data.IH)
    show "ensures c R (insert nd N')" using Set_node_data.prems(1) that by simp
    show "ensures (f x) Q N''" if "insert nd N' \<subseteq> N''" "\<And>M. N'' \<subseteq> M \<Longrightarrow> R M x" for N'' x
      using Set_node_data.prems(2) [of N'' x] that \<open>N \<subseteq> N'\<close> by blast
  qed
  with Set_node_data.prems(1) show ?case by simp
qed

lemma ensures_bind:
  assumes "ensures c R N" and "\<And>N' x. N \<subseteq> N' \<Longrightarrow> R N' x \<Longrightarrow> ensures (f x) Q N'"
  shows "ensures (co_bind c f) Q N"
  by (rule ensures_then [OF assms(1)]) (use assms(2) in blast)

lemma ensures_try:
  assumes "ensures c R N" and "\<And>N' e. N \<subseteq> N' \<Longrightarrow> Q N' (Inl e)"
    and "\<And>N' x. N \<subseteq> N' \<Longrightarrow> R N' (Inr x) \<Longrightarrow> ensures (f x) Q N'"
  shows "ensures (co_try c f) Q N"
  unfolding co_try_def
  by (rule ensures_bind [OF assms(1)]) (auto split: sum.splits intro: assms(2,3) dest: subset_trans)

lemma co_bind_Return [simp]: "co_bind c Return = c"
  by (induction c) simp_all

lemma ensures_weaken:
  assumes "ensures c R N" and "\<And>N' x. N \<subseteq> N' \<Longrightarrow> R N' x \<Longrightarrow> Q N' x"
  shows "ensures c Q N"
proof -
  have "ensures (co_bind c Return) Q N"
    by (rule ensures_then [OF assms(1)]) (auto intro: assms(2) dest: subset_trans)
  then show ?thesis by simp
qed

lemma ensures_own_error: "ensures c (\<lambda>N r. Q N (map_sum Inr id r)) N \<Longrightarrow> ensures (own_error c) Q N"
  unfolding own_error_def by (erule ensures_then) simp

text \<open>The files: nothing is known of what they hold, but that a subnet was parsed.\<close>

lemma ensures_read_file: "ensures (read_file root_dir f) (\<lambda>_ _. True) N"
  by (simp add: read_file_def)

lemma ensures_read_text_file: "ensures (read_text_file root_dir f) (\<lambda>_ _. True) N"
  unfolding read_text_file_def by (rule ensures_try [OF ensures_read_file]) simp_all

lemma ensures_read_cert_file: "ensures (read_cert_file root_dir f) (\<lambda>_ _. True) N"
  unfolding read_cert_file_def by (rule ensures_try [OF ensures_read_file]) simp_all

lemma ensures_read_oneline: "ensures (read_oneline root_dir f) (\<lambda>_ _. True) N"
  unfolding read_oneline_def by (rule ensures_try [OF ensures_read_text_file]) simp_all

lemma ensures_read_subnet_file: "ensures (read_subnet_file root_dir f) (\<lambda>_ r. \<forall>sn. r = Inr sn \<longrightarrow> wf_subnet sn) N"
  unfolding read_subnet_file_def
  by (rule ensures_try [OF ensures_read_oneline]) (auto intro: wf_parsed)

lemma ensures_dir_get_node_data: "ensures (dir_get_node_data root_dir) (\<lambda>_ r. \<forall>nd. r = Inr nd \<longrightarrow> node_ok nd) N"
  unfolding dir_get_node_data_def
proof (intro ensures_try [OF ensures_read_cert_file] ensures_try [OF ensures_read_oneline], simp_all, goal_cases)
  case (1 N1 cert N2 node_id N3 ts)
  show ?case
  proof (rule ensures_try [where R = "\<lambda>_ _. True"], simp_all, goal_cases)
    case (1 N4 nt)
    show ?case
    proof (rule ensures_try [where R = "\<lambda>_ r. \<forall>c b. r = Inr (c, b) \<longrightarrow> wf_subnet c \<and> wf_subnet b \<and>
        (case nt of AA \<Rightarrow> c = UNIVERSAL_SUBNET \<and> subnet_parse node_id = Inr b | CA \<Rightarrow> b = UNIVERSAL_SUBNET | DA \<Rightarrow> c = ZERO_SUBNET)"], goal_cases)
      case 1
      show ?case
        by (cases nt) (auto simp: bindE_eq_Inr_conv intro!: ensures_try [OF ensures_read_subnet_file] wf_parsed)
    qed (auto simp: node_ok_def split: node_type.splits)
  qed
qed

lemma ensures_node_data_co: "ensures (node_data_co root_dir) (\<lambda>N r. \<forall>nd. r = Inr nd \<longrightarrow> nd \<in> N \<and> node_ok nd) N"
proof -
  have "ensures (co_bind (dir_get_node_data root_dir) (\<lambda>r. case r of Inl e \<Rightarrow> Return (Inl DatabaseError)
      | Inr nd \<Rightarrow> Set_node_data nd (Return (Inr nd)))) (\<lambda>N r. \<forall>nd. r = Inr nd \<longrightarrow> nd \<in> N \<and> node_ok nd) N'" for N'
    by (rule ensures_bind [OF ensures_dir_get_node_data]) (auto split: sum.splits)
  then show ?thesis by (auto simp: node_data_co_def)
qed

lemma ensures_peer_subnets:
  assumes "node_ok owner"
  shows "ensures (peer_subnets root_dir owner nt node_id dir)
    (\<lambda>_ r. \<forall>c b p. r = Inr (c, b) \<longrightarrow> pd_node_type p = nt \<longrightarrow> pd_node_id p = node_id \<longrightarrow>
       pd_creditors_subnet p = c \<longrightarrow> pd_debtors_subnet p = b \<longrightarrow> peer_ok owner p) N"
proof (cases "nd_node_type owner")
  case CA
  have "peer_ok owner p" if wf: "wf_subnet c" and fit: "sn_mask c = sn_mask (nd_creditors_subnet owner)" "subnet_parse node_id = Inr b"
      "pd_node_type p = AA" "pd_node_id p = node_id" "pd_creditors_subnet p = c" "pd_debtors_subnet p = b" for c b p
  proof -
    obtain k k' where "wf_subnet_bits k c" "wf_subnet_bits k' (nd_creditors_subnet owner)"
      using wf assms unfolding wf_subnet_def node_ok_def by blast
    with same_mask [OF this fit(1)] CA wf fit show ?thesis by (auto simp: peer_ok_def intro: wf_parsed)
  qed
  with CA show ?thesis
    by (cases nt) (auto simp: peer_subnets_def bindE_eq_Inr_conv intro!: ensures_try [OF ensures_read_subnet_file] split: if_splits)
next
  case AA
  with assms show ?thesis
    by (cases nt) (auto simp: peer_subnets_def peer_ok_def node_ok_def intro!: ensures_try [OF ensures_read_subnet_file])
next
  case DA
  with assms show ?thesis by (cases nt) (auto simp: peer_subnets_def peer_ok_def node_ok_def)
qed

definition active_found :: "bool \<Rightarrow> 'e + (bytes \<times> bool \<times> bytes \<times> node_type) option \<Rightarrow> bool" where
  "active_found act r \<longleftrightarrow> (\<forall>cert is_active cert' nt. r = Inr (Some (cert, is_active, cert', nt)) \<longrightarrow> act \<longrightarrow> is_active)"

lemma active_found_simps [simp]:
  "active_found act (Inl e)" "active_found act (Inr None)"
  "active_found act (Inr (Some (cert, is_active, cert', nt))) = (act \<longrightarrow> is_active)"
  "active_found act (map_sum f id r) = active_found act r"
  by (auto simp: active_found_def map_sum_Inr_iff)

lemma ensures_dir_peer_files: "ensures (dir_peer_files root_dir act dir) (\<lambda>_. active_found act) N"
proof -
  have tail: "ensures (co_try (read_cert_file root_dir f) (\<lambda>root_cert.
      co_try (read_oneline root_dir g) (\<lambda>node_type_str.
      co_try (Return (parse_node_type node_type_str)) (\<lambda>node_type.
        Return (Inr (Some (sub_cert, is_active, root_cert, node_type))))))) (\<lambda>_. active_found a) N'"
    if "a \<longrightarrow> is_active" for a f g sub_cert is_active N'
    using that
    by (intro ensures_try [OF ensures_read_cert_file] ensures_try [OF ensures_read_oneline] ensures_try [where R = "\<lambda>_ _. True"]) simp_all
  show ?thesis
    unfolding dir_peer_files_def
    by (rule ensures_bind [OF ensures_read_cert_file])
      (auto split: sum.splits exc.splits option.splits if_splits intro!: ensures_bind [OF ensures_read_file] tail)
qed

text \<open>
  What \<^verbatim>\<open>_get_peer_data\<close> returns: a peer with the identifier that was asked for, active if that was
  asked for, and well-formed for data of the node that was assigned at some time.
\<close>

definition peer_found :: "str \<Rightarrow> bool \<Rightarrow> node_data set \<Rightarrow> 'e + peer_data option \<Rightarrow> bool" where
  "peer_found node_id act N r \<longleftrightarrow>
     (\<forall>p. r = Inr (Some p) \<longrightarrow> pd_node_id p = node_id \<and> (act \<longrightarrow> pd_is_active p) \<and> (\<exists>owner\<in>N. node_ok owner \<and> peer_ok owner p))"

lemma ensures_dir_get_peer_data: "ensures (dir_get_peer_data loads root_dir node_id act) (peer_found node_id act) N"
proof -
  let ?Q = "peer_found node_id act :: node_data set \<Rightarrow> (db_error + exc) + peer_data option \<Rightarrow> bool"
  have no [simp]: "?Q N' (Inl e)" "?Q N' (Inr None)" for N' e by (simp_all add: peer_found_def)
  have subnets: "ensures (co_try (own_error (peer_subnets root_dir owner nt node_id dir)) (\<lambda>(creditors, debtors).
      Return (Inr (Some \<lparr>pd_node_type = nt, pd_node_id = node_id, pd_stomp_config = cfg, pd_root_cert = cert',
        pd_sub_cert = cert, pd_creditors_subnet = creditors, pd_debtors_subnet = debtors, pd_is_active = is_active\<rparr>)))) ?Q N'"
    if "owner \<in> N'" "node_ok owner" "act \<longrightarrow> is_active" for owner nt dir cfg cert' cert is_active N'
  proof (rule ensures_try [where R = "\<lambda>_ r. \<forall>c b p. r = Inr (c, b) \<longrightarrow> pd_node_type p = nt \<longrightarrow> pd_node_id p = node_id \<longrightarrow>
       pd_creditors_subnet p = c \<longrightarrow> pd_debtors_subnet p = b \<longrightarrow> peer_ok owner p"], goal_cases)
    case 1
    show ?case by (rule ensures_own_error, rule ensures_weaken [OF ensures_peer_subnets [OF that(2)]]) (auto simp: map_sum_Inr_iff)
  next
    case (3 N'' x)
    with that show ?case by (auto simp: peer_found_def split: prod.splits intro!: bexI [of _ owner])
  qed simp
  have owned: "ensures (co_try (co_bind (node_data_co root_dir) (\<lambda>r. Return (map_sum Inl id r))) (\<lambda>owner.
       co_try (own_error (read_text_file root_dir f)) (\<lambda>s.
       co_try (own_error (Return (parse_stomp_toml loads s (nd_node_id owner)))) (\<lambda>cfg.
       co_try (own_error (peer_subnets root_dir owner nt node_id dir)) (\<lambda>(creditors, debtors).
      Return (Inr (Some \<lparr>pd_node_type = nt, pd_node_id = node_id, pd_stomp_config = cfg, pd_root_cert = cert',
        pd_sub_cert = cert, pd_creditors_subnet = creditors, pd_debtors_subnet = debtors, pd_is_active = is_active\<rparr>))))))) ?Q N'"
    if act: "act \<longrightarrow> is_active" for f nt dir cert' cert is_active N'
  proof (rule ensures_try [where R = "\<lambda>N r. \<forall>nd. r = Inr nd \<longrightarrow> nd \<in> N \<and> node_ok nd"], goal_cases)
    case 1
    show ?case by (rule ensures_then [OF ensures_node_data_co]) (auto simp: map_sum_Inr_iff)
  next
    case (3 N1 owner)
    then have known: "owner \<in> N1" "node_ok owner" by simp_all
    show ?case
    proof (rule ensures_try [where R = "\<lambda>_ _. True"], goal_cases)
      case 1
      show ?case by (rule ensures_own_error [OF ensures_read_text_file])
    next
      case (3 N2 s)
      show ?case
      proof (rule ensures_try [where R = "\<lambda>_ _. True"], goal_cases)
        case (3 N3 cfg)
        with \<open>N1 \<subseteq> N2\<close> known act show ?case by (intro subnets) auto
      qed (simp_all add: own_error_def)
    qed simp
  qed simp
  show ?thesis
    unfolding dir_get_peer_data_def
  proof (rule ensures_bind [where R = "\<lambda>_ _. True"], goal_cases)
    case 1
    show ?case by (simp add: get_peer_dir_def Let_def)
  next
    case (2 N1 found)
    show ?case
    proof (cases found)
      case (Some dir)
      have "ensures (own_error (dir_peer_files root_dir act dir)) (\<lambda>_. active_found act) N1"
        by (rule ensures_own_error) (simp add: ensures_dir_peer_files)
      then have "ensures (co_try (own_error (dir_peer_files root_dir act dir)) (\<lambda>files. case files of
             None \<Rightarrow> Return (Inr None)
           | Some (sub_cert, is_active, root_cert, node_type) \<Rightarrow>
               co_try (co_bind (node_data_co root_dir) (\<lambda>r. Return (map_sum Inl id r))) (\<lambda>owner.
               co_try (own_error (read_text_file root_dir (dir @ lit ''/nodeinfo/stomp.toml''))) (\<lambda>s.
               co_try (own_error (Return (parse_stomp_toml loads s (nd_node_id owner)))) (\<lambda>stomp_config.
               co_try (own_error (peer_subnets root_dir owner node_type node_id dir)) (\<lambda>(creditors, debtors).
                 Return (Inr (Some
                   \<lparr>pd_node_type = node_type, pd_node_id = node_id, pd_stomp_config = stomp_config,
                    pd_root_cert = root_cert, pd_sub_cert = sub_cert,
                    pd_creditors_subnet = creditors, pd_debtors_subnet = debtors,
                    pd_is_active = is_active\<rparr>)))))))) ?Q N1"
        by (rule ensures_try) (auto split: option.splits intro!: owned)
      with Some show ?thesis by simp
    qed simp
  qed
qed

section \<open>Running what is ensured\<close>

definition node_known :: "peers_db \<Rightarrow> node_data set \<Rightarrow> bool" where
  "node_known db N \<longleftrightarrow> (\<forall>nd\<in>N. node_ok nd) \<and> (case db_node_data db of None \<Rightarrow> N = {} | Some nd \<Rightarrow> nd \<in> N)"

lemma reply_ensures: "ensures c Q N \<Longrightarrow> reply fs c = Some k \<Longrightarrow> ensures k Q N"
  by (cases "(fs, c)" rule: reply.cases) auto

lemma resume_ensures:
  assumes "ensures c Q N" and "node_known db N" and "resume c db = (c', db')"
  shows "ensures c' Q (N \<union> set (assigned c db)) \<and> node_known db' (N \<union> set (assigned c db)) \<and>
    db' = db\<lparr>db_node_data := db_node_data db'\<rparr>"
  using assms
proof (induction c arbitrary: db N)
  case (Get_node_data k)
  have "ensures (k (db_node_data db)) Q N"
    using Get_node_data.prems(1,2) by (auto simp: node_known_def split: option.splits)
  with Get_node_data.IH [OF rangeI this] Get_node_data.prems show ?case by simp
next
  case (Set_node_data nd c)
  have "ensures c Q (insert nd N)" "node_known (db\<lparr>db_node_data := Some nd\<rparr>) (insert nd N)"
    using Set_node_data.prems(1,2) by (auto simp: node_known_def)
  from Set_node_data.IH [OF this] Set_node_data.prems(3) show ?case by simp
qed auto

lemma run_ensures:
  assumes "ensures c Q N" and "node_known db N"
  shows "\<exists>N'. Q N' (fst (run_co fs c db))"
  using assms
proof (induction c arbitrary: db N)
  case (Get_node_data k)
  have "ensures (k (db_node_data db)) Q N"
    using Get_node_data.prems by (auto simp: node_known_def split: option.splits)
  with Get_node_data.IH [OF rangeI this] Get_node_data.prems show ?case by simp
next
  case (Set_node_data nd c)
  have "ensures c Q (insert nd N)" "node_known (db\<lparr>db_node_data := Some nd\<rparr>) (insert nd N)"
    using Set_node_data.prems by (auto simp: node_known_def)
  from Set_node_data.IH [OF this] show ?case by simp
next
  case (Read_file path k)
  from Read_file.IH [OF rangeI, of "fs_read fs path" N db] Read_file.prems show ?case by simp
next
  case (Is_dir path k)
  from Is_dir.IH [OF rangeI, of "fs_isdir fs path" N db] Is_dir.prems show ?case by simp
qed auto

lemma run_co_bind: "run_co fs (co_bind c f) db = (case run_co fs c db of (x, db') \<Rightarrow> run_co fs (f x) db')"
  by (induction c arbitrary: db) simp_all

lemma run_co_try:
  "run_co fs (co_try c f) db =
     (case run_co fs c db of (Inl e, db') \<Rightarrow> (Inl e, db') | (Inr x, db') \<Rightarrow> run_co fs (f x) db')"
  by (auto simp: co_try_def run_co_bind split: prod.splits sum.splits)

lemma run_own_error [simp]: "run_co fs (own_error c) db = map_prod (map_sum Inr id) id (run_co fs c db)"
  by (simp add: own_error_def run_co_bind split: prod.splits)

text \<open>Coroutines that only read files do not change the database.\<close>

primrec only_reads :: "'a co \<Rightarrow> bool" where
  "only_reads (Return x) = True"
| "only_reads (Read_file path k) = (\<forall>r. only_reads (k r))"
| "only_reads (Is_dir path k) = (\<forall>b. only_reads (k b))"
| "only_reads (Get_node_data k) = False"
| "only_reads (Set_node_data nd c) = False"

lemma only_reads_bind: "only_reads c \<Longrightarrow> (\<And>x. only_reads (f x)) \<Longrightarrow> only_reads (co_bind c f)"
  by (induction c) auto

lemma only_reads_try: "only_reads c \<Longrightarrow> (\<And>x. only_reads (f x)) \<Longrightarrow> only_reads (co_try c f)"
  unfolding co_try_def by (rule only_reads_bind) (auto split: sum.splits)

lemma only_reads_files [simp]:
  "only_reads (read_file root_dir f)" "only_reads (read_text_file root_dir f)" "only_reads (read_cert_file root_dir f)"
  "only_reads (read_oneline root_dir f)" "only_reads (read_subnet_file root_dir f)" "only_reads (get_peer_dir root_dir node_id)"
  by (simp_all add: read_file_def read_text_file_def read_cert_file_def read_oneline_def read_subnet_file_def
      get_peer_dir_def Let_def only_reads_try)

lemma only_reads_node [simp]: "only_reads (dir_get_node_data root_dir)"
  unfolding dir_get_node_data_def by (intro only_reads_try) (auto split: node_type.splits intro!: only_reads_try)

lemma only_reads_peer [simp]: "only_reads (dir_peer_files root_dir act dir)"
  unfolding dir_peer_files_def
  by (intro only_reads_bind) (auto split: sum.splits exc.splits option.splits intro!: only_reads_bind only_reads_try)

lemma run_only_reads: "only_reads c \<Longrightarrow> run_co fs c db = (r, db') \<Longrightarrow> db' = db"
  by (induction c) auto

text \<open>\<^verbatim>\<open>get_node_data\<close> and \<^verbatim>\<open>_get_peer_data\<close> without interruption.\<close>

definition db_ok :: "peers_db \<Rightarrow> bool" where
  "db_ok db \<longleftrightarrow> (\<forall>nd. db_node_data db = Some nd \<longrightarrow> node_ok nd)"

lemma db_ok_known: "db_ok db \<Longrightarrow> node_known db (set_option (db_node_data db))"
  by (auto simp: db_ok_def node_known_def split: option.splits)

lemma get_node_data_ok:
  assumes "get_node_data fs root_dir db = (r, db')" and "db_ok db"
  shows "db_ok db'" and "r = Inr nd \<Longrightarrow> db_node_data db' = Some nd \<and> node_ok nd"
    and "db_node_data db = Some nd \<Longrightarrow> db' = db" and "db_peers db' = db_peers db"
    and "db_max_cached_peers db' = db_max_cached_peers db" and "db_peers_cache_seconds db' = db_peers_cache_seconds db"
proof -
  have "db_ok db' \<and> (\<forall>nd. r = Inr nd \<longrightarrow> db_node_data db' = Some nd \<and> node_ok nd) \<and> (db_node_data db = Some nd \<longrightarrow> db' = db) \<and>
    db_peers db' = db_peers db \<and> db_max_cached_peers db' = db_max_cached_peers db \<and> db_peers_cache_seconds db' = db_peers_cache_seconds db"
  proof (cases "db_node_data db")
    case (Some nd')
    with assms show ?thesis by (auto simp: get_node_data_def node_data_co_def db_ok_def)
  next
    case None
    obtain x where x: "run_co fs (dir_get_node_data root_dir) db = (x, db)"
      using run_only_reads [OF only_reads_node] by (metis prod.collapse)
    have "node_ok nd" if "x = Inr nd" for nd
      using run_ensures [OF ensures_dir_get_node_data db_ok_known [OF assms(2)], of fs root_dir] x that by simp
    with assms None x show ?thesis
      by (auto simp: get_node_data_def node_data_co_def run_co_bind db_ok_def split: sum.splits)
  qed
  then show "db_ok db'" "r = Inr nd \<Longrightarrow> db_node_data db' = Some nd \<and> node_ok nd" "db_node_data db = Some nd \<Longrightarrow> db' = db"
    "db_peers db' = db_peers db" "db_max_cached_peers db' = db_max_cached_peers db"
    "db_peers_cache_seconds db' = db_peers_cache_seconds db" by blast+
qed

lemma run_peer_data_known:
  assumes "run_co fs (dir_get_peer_data loads root_dir node_id act) db = (Inr (Some p), db')"
    and owner: "db_node_data db = Some owner" "node_ok owner"
  shows "pd_node_id p = node_id \<and> (act \<longrightarrow> pd_is_active p) \<and> peer_ok owner p"
proof -
  have known: "node_known db {owner}" using owner by (simp add: node_known_def)
  obtain found where found: "run_co fs (get_peer_dir root_dir node_id) db = (found, db)"
    using run_only_reads [OF only_reads_files(6)] by (metis prod.collapse)
  with assms(1) obtain dir where dir: "found = Some dir" by (cases found) (auto simp: dir_get_peer_data_def run_co_bind)
  obtain files where files: "run_co fs (dir_peer_files root_dir act dir) db = (files, db)"
    using run_only_reads [OF only_reads_peer] by (metis prod.collapse)
  with assms(1) found dir obtain cert is_active cert' nt where f: "files = Inr (Some (cert, is_active, cert', nt))"
    by (cases files) (auto simp: dir_get_peer_data_def run_co_bind run_co_try split: option.splits)
  have node: "run_co fs (node_data_co root_dir) db = (Inr owner, db)" using owner by (simp add: node_data_co_def)
  obtain s where s: "run_co fs (read_text_file root_dir (dir @ lit ''/nodeinfo/stomp.toml'')) db = (s, db)"
    using run_only_reads [OF only_reads_files(2)] by (metis prod.collapse)
  obtain r db3 where r: "run_co fs (peer_subnets root_dir owner nt node_id dir) db = (r, db3)" by fastforce
  from assms(1) obtain c b cfg where sub: "r = Inr (c, b)"
    and p: "p = \<lparr>pd_node_type = nt, pd_node_id = node_id, pd_stomp_config = cfg, pd_root_cert = cert',
      pd_sub_cert = cert, pd_creditors_subnet = c, pd_debtors_subnet = b, pd_is_active = is_active\<rparr>"
    unfolding dir_get_peer_data_def
    by (auto simp: run_co_bind run_co_try found dir files f node s r map_sum_Inr_iff split: prod.splits sum.splits)
  have "peer_ok owner p"
    using run_ensures [OF ensures_peer_subnets [OF owner(2), of root_dir nt node_id dir] known, of fs] r sub p by simp
  moreover have "act \<longrightarrow> is_active" using run_ensures [OF ensures_dir_peer_files [of root_dir act dir] known, of fs] files f by auto
  ultimately show ?thesis by (simp add: p)
qed

section \<open>An example\<close>

definition example_pem :: bytes where
  "example_pem = ''# test'' @ [CHR 0x0A] @ ''-----BEGIN CERTIFICATE-----'' @ [CHR 0x0A] @ ''MII'' @ [CHR 0x0A] @
     ''-----END CERTIFICATE-----'' @ [CHR 0x0A]"

definition example_files :: "(str \<times> bytes) list" where
  "example_files = [
     (lit ''/d/root-ca.crt'', example_pem), (lit ''/d/db/nodeid'', ''1234abcd''),
     (lit ''/d/db/nodetype'', ''Creditors Agents'' @ [CHR 0x0A]), (lit ''/d/creditors-subnet.txt'', ''0a1b''),
     (lit ''/d/peers/5678/sub-ca.crt'', example_pem), (lit ''/d/peers/5678/ACTIVE'', []),
     (lit ''/d/peers/5678/root-ca.crt'', example_pem),
     (lit ''/d/peers/5678/nodetype.txt'', ''Accounting Authorities'' @ [CHR 0x0D, CHR 0x0A]),
     (lit ''/d/peers/5678/nodeinfo/stomp.toml'', []), (lit ''/d/peers/5678/masq-subnet.txt'', ''0c2d'')]"

definition example_fs :: file_system where
  "example_fs = \<lparr>fs_read = (\<lambda>path. case map_of example_files path of None \<Rightarrow> Inl FileNotFoundError | Some c \<Rightarrow> Inr c),
     fs_isdir = (\<lambda>path. path = lit ''/d/peers/5678'')\<rparr>"

definition example_tomli :: tomli where
  "example_tomli s = Inr [(lit ''servers'', TList [TStr (lit ''a-b.com:1234'')]), (lit ''host'', TStr (lit ''/'')),
     (lit ''destination'', TStr (lit (''/exchange/'' @ ''$'' @ ''{NODE_ID}'')))]"

definition example_db :: peers_db where
  "example_db = \<lparr>db_node_data = None, db_peers = [], db_max_cached_peers = 10, db_peers_cache_seconds = Finite 600\<rparr>"

definition example_cached :: "str \<Rightarrow> peer_data" where
  "example_cached node_id = \<lparr>pd_node_type = AA, pd_node_id = node_id,
     pd_stomp_config = \<lparr>sc_servers = [], sc_host = [], sc_destination = [], sc_login = None, sc_passcode = None,
       sc_accepted_content_types = []\<rparr>,
     pd_root_cert = [], pd_sub_cert = [], pd_creditors_subnet = ZERO_SUBNET, pd_debtors_subnet = ZERO_SUBNET,
     pd_is_active = True\<rparr>"

lemma example_peer_read:
  "case run_co example_fs (dir_get_peer_data example_tomli (lit ''/d'') (lit ''5678'') True) example_db of
     (Inr (Some p), db) \<Rightarrow> pd_is_active p \<and> pd_sub_cert p = drop 7 example_pem \<and> pd_node_type p = AA \<and> db_max_cached_peers db = 10
   | _ \<Rightarrow> False"
  by code_simp

end
