(* ===== verification/Server.thy ===== *)
theory Server
  imports Server_Connection Peer_Data
begin

text \<open>
  The STOMP server process of \<^verbatim>\<open>swpt_stomp/server.py\<close>: it makes a protocol with two queues for every
  connection, decides whether the peer may publish, counts the connections of each peer, and runs
  a publisher for each connection that it admits.

  The checks of \<^verbatim>\<open>publish\<close> wait for the database twice and for nothing after that: the last look at
  the counters and the entry of the context manager are one step. What the database answers is an
  argument of that step; that the task is cancelled while it waits has the same effect as a database
  that fails. How the port and the channel of the broker are opened is in \<^verbatim>\<open>Startup\<close>.
\<close>

declare lit_simps [simp del]

section \<open>The parts of a connection\<close>

fun EXCHANGE_NAMES :: "node_type \<Rightarrow> str" where
  "EXCHANGE_NAMES AA = lit ''accounts_in''"
| "EXCHANGE_NAMES CA = lit ''creditors_in''"
| "EXCHANGE_NAMES DA = lit ''debtors_in''"

definition create_protocol :: "node_type \<Rightarrow> int \<Rightarrow> exc + server" where
  "create_protocol owner_node_type server_queue_size =
     (let send_queue = aq_new server_queue_size in
      bindE (wq_new server_queue_size None) (\<lambda>recv_queue.
        server_init send_queue recv_queue DEFAULT_HB_SEND_MIN DEFAULT_HB_RECV_DESIRED DEFAULT_MAX_NETWORK_DELAY
          (lit ''/exchange/'' @ EXCHANGE_NAMES owner_node_type)))"

text \<open>
  The checks of \<^verbatim>\<open>publish\<close>: a \<^verbatim>\<open>ServerError\<close> is reported to the client, any other exception is
  reported as an internal error and raised again.
\<close>

datatype refusal = Refused server_error | Crashed

type_synonym counters = "str \<rightharpoonup> int"

definition publish_checks ::
  "db_error + node_data \<Rightarrow> peercert \<Rightarrow> (str \<Rightarrow> (db_error + exc) + peer_data option) \<Rightarrow> int \<Rightarrow> counters \<Rightarrow>
   refusal + (node_data \<times> peer_data)" where
  "publish_checks node_data_result cert peer_data_result max_connections_per_peer counters =
     (case node_data_result of
        Inl _ \<Rightarrow> Inl Crashed
      | Inr owner_node_data \<Rightarrow>
     (case get_peer_serial_number cert of
        None \<Rightarrow> Inl (Refused (ServerError (lit ''Invalid certificate subject.'')))
      | Some peer_serial_number \<Rightarrow>
     (case peer_data_result peer_serial_number of
        Inl _ \<Rightarrow> Inl Crashed
      | Inr None \<Rightarrow> Inl (Refused (ServerError (lit ''Unknown peer serial number.'')))
      | Inr (Some peer_data) \<Rightarrow>
          (let n = (case counters (pd_node_id peer_data) of None \<Rightarrow> 0 | Some n \<Rightarrow> n) in
           if n \<ge> max_connections_per_peer
           then Inl (Refused (ServerError (lit ''Too many connections from one peer.'')))
           else Inr (owner_node_data, peer_data)))))"

definition refusal_item :: "refusal \<Rightarrow> server_error" where
  "refusal_item r = (case r of Refused e \<Rightarrow> e | Crashed \<Rightarrow> ServerError (lit ''Internal server error.''))"

text \<open>The context manager \<^verbatim>\<open>_allowed_peer_connection\<close>: before and after the body.\<close>

definition allowed_enter :: "str \<Rightarrow> counters \<Rightarrow> counters" where
  "allowed_enter node_id counters =
     counters(node_id \<mapsto> (case counters node_id of None \<Rightarrow> 0 | Some n \<Rightarrow> n) + 1)"

definition allowed_exit :: "str \<Rightarrow> counters \<Rightarrow> counters" where
  "allowed_exit node_id counters =
     (let n = (case counters node_id of None \<Rightarrow> 0 | Some n \<Rightarrow> n) - 1 in
      if n \<le> 0 then counters(node_id := None) else counters(node_id \<mapsto> n))"

section \<open>The process\<close>

text \<open>
  The task \<^verbatim>\<open>publish\<close> of a connection: its checks are under way; or the publisher runs for a peer; or
  it has left the context manager (a delivery that it did not wait for, and the task that puts the
  last item into the send queue, may still run); or the peer was turned away.
\<close>

datatype publish_task =
    Checking
  | Publishing_for node_data peer_data pub_sys
  | Gone node_data peer_data pub_sys
  | Turned_away

record connection =
  cn_server :: server_sys
  cn_task :: publish_task

record service =
  sv_counters :: counters
  sv_connections :: "connection list"

definition publish ::
  "db_error + node_data \<Rightarrow> peercert \<Rightarrow> (str \<Rightarrow> (db_error + exc) + peer_data option) \<Rightarrow> int \<Rightarrow>
   server_sys \<Rightarrow> counters \<Rightarrow> connection \<times> counters" where
  "publish node_data_result cert peer_data_result max_connections_per_peer y counters =
     (let send_queue = pr_send_queue (y_server y); recv_queue = pr_recv_queue (y_server y) in
      case publish_checks node_data_result cert peer_data_result max_connections_per_peer counters of
        Inl r \<Rightarrow>
          (\<lparr>cn_server = y\<lparr>y_server := processor_done
               ((y_server y)\<lparr>pr_send_queue := terminate_queue send_queue (Stop (Some (refusal_item r)))\<rparr>)\<rparr>,
            cn_task = Turned_away\<rparr>, counters)
      | Inr (owner_node_data, peer_data) \<Rightarrow>
          (\<lparr>cn_server = y, cn_task = Publishing_for owner_node_data peer_data (pub_sys_new send_queue recv_queue)\<rparr>,
           allowed_enter (pd_node_id peer_data) counters))"

text \<open>
  \<open>accept\<close>: \<^verbatim>\<open>create_protocol\<close> for a new connection; \<open>talk\<close>: a step of the protocol while there is no
  publisher; \<open>check\<close>: \<^verbatim>\<open>publish\<close> up to the publisher, once \<^verbatim>\<open>connection_made\<close> has started its task;
  \<open>work\<close>: a step of the protocol or of the publisher; \<open>leave\<close>: \<^verbatim>\<open>publish\<close> ends; \<open>linger\<close>: what still runs
  then; \<open>put_last\<close>: the task that puts the reason into the send queue of a peer that was turned away.
\<close>

inductive service_step ::
  "(rat \<Rightarrow> str) \<Rightarrow> (node_data \<Rightarrow> peer_data \<Rightarrow> message \<Rightarrow> pre_error + rmq_message) \<Rightarrow> node_type \<Rightarrow> int \<Rightarrow> int \<Rightarrow>
   service \<Rightarrow> service \<Rightarrow> bool"
  for fmt preprocess node_type queue_size max_connections where
  accept: "create_protocol node_type queue_size = Inr p \<Longrightarrow>
    service_step fmt preprocess node_type queue_size max_connections v
      (v\<lparr>sv_connections := sv_connections v @
           [\<lparr>cn_server = \<lparr>y_server = p, y_taken = [], y_confirmed = [], y_received = [], y_broken = False\<rparr>, cn_task = Checking\<rparr>]\<rparr>)"
| talk: "i < length (sv_connections v) \<Longrightarrow> sv_connections v ! i = c \<Longrightarrow> cn_task c \<in> {Checking, Turned_away} \<Longrightarrow>
    server_own fmt (cn_server c) y' \<Longrightarrow>
    service_step fmt preprocess node_type queue_size max_connections v
      (v\<lparr>sv_connections := (sv_connections v)[i := c\<lparr>cn_server := y'\<rparr>]\<rparr>)"
| check: "i < length (sv_connections v) \<Longrightarrow> sv_connections v ! i = c \<Longrightarrow> cn_task c = Checking \<Longrightarrow>
    MessageProcessor \<in> pr_tasks (y_server (cn_server c)) \<Longrightarrow>
    publish nd cert get max_connections (cn_server c) (sv_counters v) = (c', counters) \<Longrightarrow>
    service_step fmt preprocess node_type queue_size max_connections v
      (v\<lparr>sv_counters := counters, sv_connections := (sv_connections v)[i := c']\<rparr>)"
| work: "i < length (sv_connections v) \<Longrightarrow> sv_connections v ! i = c \<Longrightarrow> cn_task c = Publishing_for owner peer z \<Longrightarrow>
    conn_step fmt (preprocess owner peer) (cn_server c, z) (y', z') \<Longrightarrow>
    service_step fmt preprocess node_type queue_size max_connections v
      (v\<lparr>sv_connections := (sv_connections v)[i := \<lparr>cn_server = y', cn_task = Publishing_for owner peer z'\<rparr>]\<rparr>)"
| leave: "i < length (sv_connections v) \<Longrightarrow> sv_connections v ! i = c \<Longrightarrow> cn_task c = Publishing_for owner peer z \<Longrightarrow>
    pb_terminated (pl_pub z) \<Longrightarrow>
    service_step fmt preprocess node_type queue_size max_connections v
      (v\<lparr>sv_counters := allowed_exit (pd_node_id peer) (sv_counters v),
         sv_connections := (sv_connections v)[i :=
           \<lparr>cn_server = (cn_server c)\<lparr>y_server := processor_done (y_server (cn_server c))\<rparr>, cn_task = Gone owner peer z\<rparr>]\<rparr>)"
| linger: "i < length (sv_connections v) \<Longrightarrow> sv_connections v ! i = c \<Longrightarrow> cn_task c = Gone owner peer z \<Longrightarrow>
    conn_step fmt (preprocess owner peer) (cn_server c, z) (y', z') \<Longrightarrow>
    service_step fmt preprocess node_type queue_size max_connections v
      (v\<lparr>sv_connections := (sv_connections v)[i := \<lparr>cn_server = y', cn_task = Gone owner peer z'\<rparr>]\<rparr>)"
| put_last: "i < length (sv_connections v) \<Longrightarrow> sv_connections v ! i = c \<Longrightarrow> cn_task c = Turned_away \<Longrightarrow>
    y_server (cn_server c) = s \<Longrightarrow>
    service_step fmt preprocess node_type queue_size max_connections v
      (v\<lparr>sv_connections := (sv_connections v)[i :=
           c\<lparr>cn_server := (cn_server c)\<lparr>y_server := s\<lparr>pr_send_queue := run_put_task (pr_send_queue s)\<rparr>\<rparr>\<rparr>]\<rparr>)"

definition service_start :: "service \<Rightarrow> bool" where
  "service_start v \<longleftrightarrow> sv_counters v = Map.empty \<and> sv_connections v = []"

section \<open>The invariant\<close>

definition publishes_for :: "str \<Rightarrow> connection \<Rightarrow> bool" where
  "publishes_for node_id c \<longleftrightarrow>
     (case cn_task c of Publishing_for owner peer z \<Rightarrow> pd_node_id peer = node_id | _ \<Rightarrow> False)"

definition open_connections :: "str \<Rightarrow> connection list \<Rightarrow> nat" where
  "open_connections node_id cs = length (filter (publishes_for node_id) cs)"

definition connection_ok :: "(node_data \<Rightarrow> peer_data \<Rightarrow> message \<Rightarrow> pre_error + rmq_message) \<Rightarrow> connection \<Rightarrow> bool" where
  "connection_ok preprocess c \<longleftrightarrow> server_ok (cn_server c) \<and>
     (case cn_task c of
        Checking \<Rightarrow>
          aq_items (pr_send_queue (y_server (cn_server c))) = [] \<and>
          aq_put_task (pr_send_queue (y_server (cn_server c))) = NoPutTask \<and>
          aq_unfinished (pr_recv_queue (y_server (cn_server c))) = length (aq_items (pr_recv_queue (y_server (cn_server c)))) \<and>
          y_taken (cn_server c) = [] \<and> y_confirmed (cn_server c) = []
      | Publishing_for owner peer z \<Rightarrow> pub_inv (preprocess owner peer) z \<and> server_link (cn_server c) z
      | Gone owner peer z \<Rightarrow> pub_inv (preprocess owner peer) z \<and> server_link (cn_server c) z
      | Turned_away \<Rightarrow>
          payloads (aq_future (pr_send_queue (y_server (cn_server c)))) = [] \<and>
          y_taken (cn_server c) = [] \<and> y_confirmed (cn_server c) = [])"

definition service_inv :: "(node_data \<Rightarrow> peer_data \<Rightarrow> message \<Rightarrow> pre_error + rmq_message) \<Rightarrow> int \<Rightarrow> service \<Rightarrow> bool" where
  "service_inv preprocess max_connections v \<longleftrightarrow>
     (\<forall>k. sv_counters v k = (if open_connections k (sv_connections v) = 0 then None
                             else Some (int (open_connections k (sv_connections v))))) \<and>
     (\<forall>k. int (open_connections k (sv_connections v)) \<le> max max_connections 0) \<and>
     (\<forall>c\<in>set (sv_connections v). connection_ok preprocess c)"

lemma open_connections_update:
  assumes "i < length cs"
  shows "int (open_connections k (cs[i := c])) =
    int (open_connections k cs) - of_bool (publishes_for k (cs ! i)) + of_bool (publishes_for k c)"
proof -
  have "cs = take i cs @ cs ! i # drop (Suc i) cs" using assms by (rule id_take_nth_drop)
  then have "open_connections k cs = open_connections k (take i cs @ cs ! i # drop (Suc i) cs)" by simp
  moreover have "cs[i := c] = take i cs @ c # drop (Suc i) cs" using assms by (rule upd_conv_take_nth_drop)
  ultimately show ?thesis by (simp add: open_connections_def)
qed

lemma service_inv_start: "service_start v \<Longrightarrow> service_inv preprocess max_connections v"
  by (simp add: service_start_def service_inv_def open_connections_def)

lemma service_inv_nth: "service_inv preprocess max_connections v \<Longrightarrow> i < length (sv_connections v) \<Longrightarrow>
  connection_ok preprocess (sv_connections v ! i)"
  by (simp add: service_inv_def)

text \<open>A step that replaces one connection and does not count it differently.\<close>

lemma service_inv_update:
  assumes inv: "service_inv preprocess max_connections v" and i: "i < length (sv_connections v)"
    and ok: "connection_ok preprocess c"
    and cnt: "\<And>k. publishes_for k c = publishes_for k (sv_connections v ! i)" and "counters = sv_counters v"
  shows "service_inv preprocess max_connections (v\<lparr>sv_counters := counters, sv_connections := (sv_connections v)[i := c]\<rparr>)"
proof -
  have "open_connections k ((sv_connections v)[i := c]) = open_connections k (sv_connections v)" for k
    using open_connections_update [OF i, of k c] by (simp add: cnt)
  with inv ok assms(5) show ?thesis by (auto simp: service_inv_def dest!: subsetD [OF set_update_subset_insert])
qed

section \<open>The connections\<close>

lemma connection_ok_new:
  assumes "create_protocol node_type queue_size = Inr p"
  shows "connection_ok preprocess
    \<lparr>cn_server = \<lparr>y_server = p, y_taken = [], y_confirmed = [], y_received = [], y_broken = False\<rparr>, cn_task = Checking\<rparr>"
proof -
  obtain rq where rq: "wq_new queue_size None = Inr rq"
    and p: "server_init (aq_new queue_size) rq DEFAULT_HB_SEND_MIN DEFAULT_HB_RECV_DESIRED DEFAULT_MAX_NETWORK_DELAY
      (lit ''/exchange/'' @ EXCHANGE_NAMES node_type) = Inr p"
    using assms by (auto simp: create_protocol_def bindE_eq_Inr_conv)
  then have "server_start \<lparr>y_server = p, y_taken = [], y_confirmed = [], y_received = [], y_broken = False\<rparr>"
    unfolding server_start_def by blast
  from server_ok_start [OF this] show ?thesis using rq p
    by (auto simp: connection_ok_def server_init_def proto_init_def wq_new_def aq_new_def proto.defs server.defs Let_def
        split: if_splits)
qed

lemma connection_ok_talk:
  assumes "connection_ok preprocess c" and "cn_task c \<in> {Checking, Turned_away}" and "server_own fmt (cn_server c) y'"
  shows "connection_ok preprocess (c\<lparr>cn_server := y'\<rparr>)"
proof -
  have "server_ok y'" using assms server_ok_step [OF _ step_own] by (auto simp: connection_ok_def)
  moreover obtain xs ys where mv: "moves xs ys (y_server (cn_server c)) (y_server y')" "y_taken y' = y_taken (cn_server c)"
    "y_confirmed y' = y_confirmed (cn_server c) @ payloads ys"
    using server_own_moves [OF assms(3)] by blast
  then have "payloads ys @ payloads (aq_future (pr_send_queue (y_server y'))) =
      payloads (aq_future (pr_send_queue (y_server (cn_server c))))"
    by (simp add: moves_def aq_future_def)
  ultimately show ?thesis using assms(1,2) mv by (auto simp: connection_ok_def moves_def)
qed

lemma connection_ok_conn:
  assumes "server_ok (cn_server c)" and "pub_inv preprocess z" and "server_link (cn_server c) z"
    and "conn_step fmt preprocess (cn_server c, z) (y', z')"
  shows "server_ok y' \<and> pub_inv preprocess z' \<and> server_link y' z'"
proof -
  have "server_conn.joint preprocess (y', z')"
    using server_conn.par_step_parts [of fmt preprocess "(cn_server c, z)" "(y', z')"] assms
    by (simp add: conn_step_def server_conn.joint_def)
  then show ?thesis by (simp add: server_conn.joint_def)
qed

lemma server_ok_send_queue:
  assumes "server_ok y" and "aq_items q = aq_items (pr_send_queue (y_server y)) @ xs"
  shows "server_ok (y\<lparr>y_server := (y_server y)\<lparr>pr_send_queue := q\<rparr>\<rparr>)"
  by (rule server_ok_step [OF assms(1) step_enqueue]) (rule assms(2))

lemma server_ok_done: "server_ok y \<Longrightarrow> server_ok (y\<lparr>y_server := processor_done (y_server y)\<rparr>)"
  using server_ok_step [OF _ step_processed] .

lemma connection_ok_put_last:
  assumes "connection_ok preprocess c" and "cn_task c = Turned_away" and "y_server (cn_server c) = s"
  shows "connection_ok preprocess (c\<lparr>cn_server := (cn_server c)\<lparr>y_server := s\<lparr>pr_send_queue := run_put_task (pr_send_queue s)\<rparr>\<rparr>\<rparr>)"
proof -
  obtain xs where "aq_items (run_put_task (pr_send_queue s)) = aq_items (pr_send_queue s) @ xs"
    by (rule exE [OF run_put_task_items])
  with assms server_ok_send_queue [of "cn_server c" "run_put_task (pr_send_queue s)" xs]
  show ?thesis by (simp add: connection_ok_def run_put_task_future)
qed

lemma publish_cases:
  obtains (refused) r where
    "publish nd cert get max_connections y counters =
      (\<lparr>cn_server = y\<lparr>y_server := processor_done ((y_server y)\<lparr>pr_send_queue :=
           terminate_queue (pr_send_queue (y_server y)) (Stop (Some (refusal_item r)))\<rparr>)\<rparr>, cn_task = Turned_away\<rparr>, counters)"
    "publish_checks nd cert get max_connections counters = Inl r"
  | (admitted) owner peer sn where
    "nd = Inr owner" "get_peer_serial_number cert = Some sn" "get sn = Inr (Some peer)"
    "(case counters (pd_node_id peer) of None \<Rightarrow> 0 | Some n \<Rightarrow> n) < max_connections"
    "publish nd cert get max_connections y counters =
      (\<lparr>cn_server = y,
        cn_task = Publishing_for owner peer (pub_sys_new (pr_send_queue (y_server y)) (pr_recv_queue (y_server y)))\<rparr>,
       allowed_enter (pd_node_id peer) counters)"
proof (cases "publish_checks nd cert get max_connections counters")
  case (Inl r)
  then show ?thesis using refused by (simp add: publish_def)
next
  case (Inr op)
  obtain owner peer where op: "op = (owner, peer)" by (cases op)
  with Inr show ?thesis using admitted
    by (auto simp: publish_def publish_checks_def Let_def not_le split: sum.splits option.splits if_splits)
qed

lemma connection_ok_refused:
  assumes "connection_ok preprocess c" and "cn_task c = Checking"
  shows "connection_ok preprocess \<lparr>cn_server = (cn_server c)\<lparr>y_server := processor_done ((y_server (cn_server c))\<lparr>pr_send_queue :=
    terminate_queue (pr_send_queue (y_server (cn_server c))) (Stop e)\<rparr>)\<rparr>, cn_task = Turned_away\<rparr>"
proof -
  let ?q = "pr_send_queue (y_server (cn_server c))"
  have ok: "server_ok (cn_server c)" "aq_items ?q = []" "aq_put_task ?q = NoPutTask"
    using assms by (simp_all add: connection_ok_def)
  obtain xs where xs: "aq_items (terminate_queue ?q (Stop e)) = aq_items ?q @ xs"
    by (rule exE [OF terminate_queue_items])
  have fut: "aq_future (terminate_queue ?q (Stop e)) = [Stop e]"
    using ok terminate_queue_future [of ?q "Stop e"] by (simp add: aq_future_def)
  from server_ok_done [OF server_ok_send_queue [OF ok(1) xs]] assms fut show ?thesis
    by (simp add: connection_ok_def) (simp add: processor_done_def)
qed

lemma connection_ok_admitted:
  assumes "connection_ok preprocess c" and "cn_task c = Checking"
  shows "connection_ok preprocess \<lparr>cn_server = cn_server c, cn_task = Publishing_for owner peer
    (pub_sys_new (pr_send_queue (y_server (cn_server c))) (pr_recv_queue (y_server (cn_server c))))\<rparr>"
  using assms
  by (auto simp: connection_ok_def server_link_def intro!: pub_inv_start pub_sys_new_start)
    (simp_all add: pub_sys_new_def publisher_new_def)

lemma service_inv_check:
  assumes inv: "service_inv preprocess max_connections v"
    and i: "i < length (sv_connections v)" "sv_connections v ! i = c" "cn_task c = Checking"
    and c: "publish nd cert get max_connections (cn_server c) (sv_counters v) = (c', counters)"
  shows "service_inv preprocess max_connections (v\<lparr>sv_counters := counters, sv_connections := (sv_connections v)[i := c']\<rparr>)"
proof (cases rule: publish_cases [of nd cert get max_connections "cn_server c" "sv_counters v"])
  case (refused r)
  with c connection_ok_refused [OF service_inv_nth [OF inv i(1), unfolded i(2)] i(3)] show ?thesis
    by (intro service_inv_update [OF inv i(1)]) (auto simp: i publishes_for_def)
next
  case (admitted owner peer sn)
  with c have c': "c' = \<lparr>cn_server = cn_server c, cn_task = Publishing_for owner peer
      (pub_sys_new (pr_send_queue (y_server (cn_server c))) (pr_recv_queue (y_server (cn_server c))))\<rparr>"
    "counters = allowed_enter (pd_node_id peer) (sv_counters v)" by simp_all
  have "connection_ok preprocess c'"
    using connection_ok_admitted [OF service_inv_nth [OF inv i(1), unfolded i(2)] i(3)] by (simp add: c')
  moreover have new: "open_connections k ((sv_connections v)[i := c']) =
      open_connections k (sv_connections v) + of_bool (pd_node_id peer = k)" for k
    using open_connections_update [OF i(1), of k c'] i(2,3) unfolding c'(1)
    by (cases "pd_node_id peer = k") (auto simp: publishes_for_def)
  ultimately show ?thesis using inv admitted(4) unfolding c'(2)
    by (auto simp: service_inv_def allowed_enter_def dest!: subsetD [OF set_update_subset_insert] split: if_splits)
qed

lemma service_inv_leave:
  assumes inv: "service_inv preprocess max_connections v"
    and i: "i < length (sv_connections v)" "sv_connections v ! i = c" "cn_task c = Publishing_for owner peer z"
    and c': "connection_ok preprocess c'" "cn_task c' = Gone owner peer z"
  shows "service_inv preprocess max_connections (v\<lparr>sv_counters := allowed_exit (pd_node_id peer) (sv_counters v),
    sv_connections := (sv_connections v)[i := c']\<rparr>)"
proof -
  have new: "int (open_connections k ((sv_connections v)[i := c'])) =
      int (open_connections k (sv_connections v)) - of_bool (pd_node_id peer = k)" for k
    using open_connections_update [OF i(1), of k c'] i(2,3) c'(2) by (simp add: publishes_for_def)
  have one: "open_connections k ((sv_connections v)[i := c']) =
      (if k = pd_node_id peer then open_connections k (sv_connections v) - 1 else open_connections k (sv_connections v))"
    "open_connections (pd_node_id peer) (sv_connections v) > 0" for k
    using new [of k] new [of "pd_node_id peer"] by auto
  have "sv_counters v (pd_node_id peer) = Some (int (open_connections (pd_node_id peer) (sv_connections v)))"
    using inv one(2) by (simp add: service_inv_def)
  moreover have "int (open_connections (pd_node_id peer) (sv_connections v)) \<le> max max_connections 0"
    using inv by (simp add: service_inv_def)
  ultimately show ?thesis using inv one c'(1)
    by (auto simp: service_inv_def allowed_exit_def Let_def dest!: subsetD [OF set_update_subset_insert])
qed

lemma service_inv_step:
  assumes "service_inv preprocess max_connections v"
    and "service_step fmt preprocess node_type queue_size max_connections v v'"
  shows "service_inv preprocess max_connections v'"
  using assms(2)
proof cases
  case (accept p)
  with assms(1) connection_ok_new [OF accept(2), of preprocess] show ?thesis
    by (auto simp: service_inv_def open_connections_def publishes_for_def)
next
  case (talk i c y')
  with service_inv_update [OF assms(1) talk(2) connection_ok_talk, of c fmt y'] service_inv_nth [OF assms(1) talk(2)]
  show ?thesis by (auto simp: publishes_for_def)
next
  case (check i c nd cert get c' counters)
  then show ?thesis using service_inv_check [OF assms(1)] by simp
next
  case (work i c owner peer z y' z')
  have "server_ok y' \<and> pub_inv (preprocess owner peer) z' \<and> server_link y' z'"
    using service_inv_nth [OF assms(1) work(2)] work(3-5) by (intro connection_ok_conn) (auto simp: connection_ok_def)
  with service_inv_update [OF assms(1) work(2), of "\<lparr>cn_server = y', cn_task = Publishing_for owner peer z'\<rparr>"] work
  show ?thesis by (simp add: connection_ok_def publishes_for_def)
next
  case (leave i c owner peer z)
  have "connection_ok preprocess \<lparr>cn_server = (cn_server c)\<lparr>y_server := processor_done (y_server (cn_server c))\<rparr>,
      cn_task = Gone owner peer z\<rparr>"
    using service_inv_nth [OF assms(1) leave(2)] leave(3,4) server_ok_done
    by (auto simp: connection_ok_def server_link_def processor_done_def)
  from service_inv_leave [OF assms(1) leave(2-4) this] leave(1) show ?thesis by simp
next
  case (linger i c owner peer z y' z')
  have "server_ok y' \<and> pub_inv (preprocess owner peer) z' \<and> server_link y' z'"
    using service_inv_nth [OF assms(1) linger(2)] linger(3-5) by (intro connection_ok_conn) (auto simp: connection_ok_def)
  with service_inv_update [OF assms(1) linger(2), of "\<lparr>cn_server = y', cn_task = Gone owner peer z'\<rparr>"] linger
  show ?thesis by (simp add: connection_ok_def publishes_for_def)
next
  case (put_last i c s)
  with service_inv_update [OF assms(1) put_last(2) connection_ok_put_last, of c s] service_inv_nth [OF assms(1) put_last(2)]
  show ?thesis by (auto simp: publishes_for_def)
qed

interpretation service_run: inductive_invariant service_start
  "service_step fmt preprocess node_type queue_size max_connections" "service_inv preprocess max_connections"
  for fmt preprocess node_type queue_size max_connections
  by unfold_locales (rule service_inv_start, assumption, rule service_inv_step)

section \<open>An example\<close>

text \<open>
  A connection to an accounts authority: the client connects and sends one message, then the peer
  is admitted.
\<close>

definition example_subject :: peercert where
  "example_subject = Some (Some [[(ORGANIZATION_NAME, NODES_REGISTRY)], [(SERIAL_NUMBER, lit ''5678'')]])"

definition example_hello :: stomp_frame where
  "example_hello = \<lparr>f_command = lit ''STOMP'', f_headers = [(lit ''accept-version'', lit ''1.2''), (lit ''host'', []),
     (lit ''heart-beat'', heartbeat_header DEFAULT_HB_SEND_MIN DEFAULT_HB_RECV_DESIRED)], f_body = []\<rparr>"

definition example_sent :: stomp_frame where
  "example_sent = \<lparr>f_command = lit ''SEND'', f_headers = [(lit ''destination'', lit ''/exchange/accounts_in''),
     (lit ''type'', lit ''PrepareTransfer''), (lit ''content-type'', lit ''application/json''), (lit ''persistent'', lit ''true''),
     (lit ''receipt'', lit ''1'')], f_body = ''{}''\<rparr>"

definition example_welcome :: stomp_frame where
  "example_welcome = connected_frame DEFAULT_HB_SEND_MIN DEFAULT_HB_RECV_DESIRED"

lemma served_frames_wf: "wf_frame example_hello" "wf_frame example_sent" "wf_frame example_welcome"
  by (simp_all add: example_hello_def example_sent_def example_welcome_def connected_frame_def heartbeat_header_def
      dec_of_int_def DEFAULT_HB_SEND_MIN_def DEFAULT_HB_RECV_DESIRED_def Aio_Server.example_wf)

definition example_input :: bytes where
  "example_input = wire example_hello @ wire example_sent"

lemma example_create:
  "\<exists>p. create_protocol AA 4 = Inr p \<and> pr_transport p = None \<and> pr_send_queue p = aq_new 4 \<and> pr_parser p = reset \<and>
     aq_items (pr_recv_queue p) = [] \<and> aq_maxsize (pr_recv_queue p) = 0 \<and> aq_unfinished (pr_recv_queue p) = 0 \<and>
     \<not> pr_done p \<and> \<not> pr_connected p \<and> \<not> pr_connection_lost p \<and> pr_start_sending p \<and>
     s_disconnect_receipt_id p = None \<and> s_recv_destination p = lit ''/exchange/accounts_in'' \<and>
     pr_hb_send_min p = DEFAULT_HB_SEND_MIN \<and> pr_hb_recv_desired p = DEFAULT_HB_RECV_DESIRED"
proof -
  have "lit ''/exchange/'' @ lit ''accounts_in'' = lit ''/exchange/accounts_in''" by (simp add: lit_simps)
  then show ?thesis
    by (simp add: create_protocol_def wq_new_def server_init_def proto_init_def proto.defs server.defs Let_def
        DEFAULT_HB_SEND_MIN_def DEFAULT_HB_RECV_DESIRED_def aq_new_def)
qed

text \<open>The frames of the example, one by one.\<close>

lemma example_hello_step:
  assumes "\<not> pr_connected s" "\<not> pr_done s" "pr_transport s \<noteq> None" "s_disconnect_receipt_id s = None" "pr_start_sending s"
    "pr_hb_send_min s = DEFAULT_HB_SEND_MIN" "pr_hb_recv_desired s = DEFAULT_HB_RECV_DESIRED"
  shows "\<exists>s'. server_frame now (parsed example_hello) s = (None, s') \<and> writer_ready WaitStart s' \<and> pr_connected s' \<and>
    pr_recv_queue s' = pr_recv_queue s \<and> pr_send_queue s' = pr_send_queue s \<and> pr_tasks s \<subseteq> pr_tasks s' \<and>
    s_recv_destination s' = s_recv_destination s \<and> out_of s' = out_of s @ [wire example_welcome]"
proof -
  have hb: "parse_heartbeat_header (heartbeat_header DEFAULT_HB_SEND_MIN DEFAULT_HB_RECV_DESIRED) =
      Some (DEFAULT_HB_SEND_MIN, DEFAULT_HB_RECV_DESIRED)"
    by (rule parse_heartbeat_header_inverse) (simp_all add: DEFAULT_HB_SEND_MIN_def DEFAULT_HB_RECV_DESIRED_def)
  have "py_split 44 10 (lit ''1.2'') = [lit ''1.2'']" by (rule py_split_no_sep) (simp add: lit_simps)
  moreover have "frame_bytes (connected_frame DEFAULT_HB_SEND_MIN DEFAULT_HB_RECV_DESIRED) = Inr (wire example_welcome)"
    using frame_bytes_wire [OF served_frames_wf(3)] by (simp add: example_welcome_def)
  moreover obtain t where "pr_transport s = Some t" using assms(3) by auto
  ultimately show ?thesis using assms hb
    by (auto simp: server_frame_def example_hello_def parsed_def wire_headers_def received_connect_command_def dict_get_def
        proto_connect_def Let_def write_frame_def transport_write_def writer_ready_def out_of_def)
qed

lemma example_sent_step:
  assumes "writer_ready WaitStart s" "pr_connected s" "aq_items (pr_recv_queue s) = []" "aq_unfinished (pr_recv_queue s) = 0"
    "aq_maxsize (pr_recv_queue s) \<le> 0" "s_recv_destination s = lit ''/exchange/accounts_in''"
  shows "\<exists>s'. server_frame now (parsed example_sent) s = (None, s') \<and> writer_ready WaitStart s' \<and>
    pr_send_queue s' = pr_send_queue s \<and> aq_items (pr_recv_queue s') = [Some example_message] \<and>
    aq_unfinished (pr_recv_queue s') = 1 \<and> pr_tasks s' = pr_tasks s \<and> out_of s' = out_of s"
proof -
  have frame: "server_frame now (parsed example_sent) s =
      thenE (recv_put (Some example_message) s) (\<lambda>s. (None, s\<lparr>s_last_message_id := Some (lit ''1'')\<rparr>))"
    using assms(1,2,6)
    by (simp add: server_frame_def example_sent_def parsed_def wire_headers_def received_send_command_def send_headers_def
        dict_get_def example_message_def writer_ready_def)
  obtain cbs q where "put_nowait (Some example_message) (pr_recv_queue s) = Inr (cbs, q)"
    using put_nowait_unbounded [OF assms(5), of "Some example_message"] by auto
  with put_nowait_unfinished [OF this] assms(1,3,4) show ?thesis unfolding frame
    by (auto simp: recv_put_def run_callbacks_def writer_ready_def out_of_def)
qed

text \<open>What the server has read and written.\<close>

definition example_served :: "server_sys \<Rightarrow> bool" where
  "example_served y \<longleftrightarrow> writer_ready WaitStart (y_server y) \<and> pr_send_queue (y_server y) = aq_new 4 \<and>
     aq_items (pr_recv_queue (y_server y)) = [Some example_message] \<and> aq_unfinished (pr_recv_queue (y_server y)) = 1 \<and>
     out_of (y_server y) = [wire example_welcome] \<and> y_received y = example_input"

lemma example_talk:
  "\<exists>p y. create_protocol AA 4 = Inr p \<and>
     (server_own fmt)\<^sup>*\<^sup>* \<lparr>y_server = p, y_taken = [], y_confirmed = [], y_received = [], y_broken = False\<rparr> y \<and>
     example_served y \<and> MessageProcessor \<in> pr_tasks (y_server y)"
proof -
  obtain p where p: "create_protocol AA 4 = Inr p" "pr_transport p = None" "pr_send_queue p = aq_new 4" "pr_parser p = reset"
    "aq_items (pr_recv_queue p) = []" "aq_maxsize (pr_recv_queue p) = 0" "aq_unfinished (pr_recv_queue p) = 0" "\<not> pr_done p"
    "\<not> pr_connected p" "\<not> pr_connection_lost p" "pr_start_sending p"
    "s_disconnect_receipt_id p = None" "s_recv_destination p = lit ''/exchange/accounts_in''"
    "pr_hb_send_min p = DEFAULT_HB_SEND_MIN" "pr_hb_recv_desired p = DEFAULT_HB_RECV_DESIRED"
    using example_create by blast
  let ?y0 = "\<lparr>y_server = p, y_taken = [], y_confirmed = [], y_received = [], y_broken = False\<rparr>"
  define s where "s = base_connection_made 0 True example_transport p"
  let ?y1 = "?y0\<lparr>y_server := s\<rparr>"
  have own1: "server_own fmt ?y0 ?y1"
    using step_made [of ?y0 example_transport fmt 0 True] p(2) by (simp add: s_def example_transport_def)
  have s: "pr_transport s \<noteq> None" "pr_send_queue s = aq_new 4" "pr_parser s = reset" "aq_items (pr_recv_queue s) = []"
    "aq_maxsize (pr_recv_queue s) = 0" "aq_unfinished (pr_recv_queue s) = 0" "\<not> pr_done s" "\<not> pr_connected s"
    "\<not> pr_connection_lost s" "pr_start_sending s" "s_disconnect_receipt_id s = None"
    "s_recv_destination s = lit ''/exchange/accounts_in''" "MessageProcessor \<in> pr_tasks s" "out_of s = []"
    "pr_hb_send_min s = DEFAULT_HB_SEND_MIN" "pr_hb_recv_desired s = DEFAULT_HB_RECV_DESIRED"
    using p by (simp_all add: s_def base_connection_made_def Let_def run_callbacks_def add_high_watermark_callback_def
        add_low_watermark_callback_def out_of_def example_transport_def)
  obtain q where q: "add_bytes example_input reset = Some (Inr (), q)" "p_frames q = [parsed example_hello, parsed example_sent]"
    using idle_reads [OF idle_reset, of "[example_hello, example_sent]"] served_frames_wf by (auto simp: example_input_def)
  let ?s = "(base_data_received 1 s)\<lparr>pr_parser := q\<rparr>"
  let ?s' = "?s\<lparr>pr_parser := (pr_parser ?s)\<lparr>p_frames := [parsed example_sent]\<rparr>\<rparr>"
  have out: "out_of ?s' = []" using s(14) by (simp add: out_of_def base_data_received_def)
  obtain s1 where s1: "server_frame 1 (parsed example_hello) ?s' = (None, s1)"
    "writer_ready WaitStart s1" "pr_connected s1" "pr_recv_queue s1 = pr_recv_queue s" "pr_send_queue s1 = aq_new 4"
    "pr_tasks s \<subseteq> pr_tasks s1" "s_recv_destination s1 = lit ''/exchange/accounts_in''" "out_of s1 = [wire example_welcome]"
    using example_hello_step [of ?s' 1] s out by (auto simp: base_data_received_def)
  have out1: "out_of (s1\<lparr>pr_parser := (pr_parser s1)\<lparr>p_frames := []\<rparr>\<rparr>) = [wire example_welcome]"
    using s1(8) by (simp add: out_of_def)
  obtain s2 where s2: "server_frame 1 (parsed example_sent) (s1\<lparr>pr_parser := (pr_parser s1)\<lparr>p_frames := []\<rparr>\<rparr>) = (None, s2)"
    "writer_ready WaitStart s2" "pr_send_queue s2 = aq_new 4" "aq_items (pr_recv_queue s2) = [Some example_message]"
    "aq_unfinished (pr_recv_queue s2) = 1" "pr_tasks s2 = pr_tasks s1" "out_of s2 = [wire example_welcome]"
    using example_sent_step [of "s1\<lparr>pr_parser := (pr_parser s1)\<lparr>p_frames := []\<rparr>\<rparr>" 1] s s1 out1 by (auto simp: writer_ready_def)
  have "server_data_received 1 example_input s = Some (None, s2)"
    using s q s1(1,2) s2(1,2) by (simp add: server_data_received_def base_data_received_def writer_ready_def)
  then have own2: "server_own fmt ?y1 (?y1\<lparr>y_server := s2, y_received := example_input\<rparr>)"
    using step_data [of ?y1 1 example_input None s2 fmt] s(1,9) by simp
  from own1 own2 have "(server_own fmt)\<^sup>*\<^sup>* ?y0 (?y1\<lparr>y_server := s2, y_received := example_input\<rparr>)"
    by (meson converse_rtranclp_into_rtranclp rtranclp.rtrancl_refl)
  moreover have "MessageProcessor \<in> pr_tasks s2" using s(13) s1(6) s2(6) by blast
  ultimately show ?thesis using p(1) s2 by (intro exI [of _ p]) (fastforce simp: example_served_def)
qed

text \<open>The steps of a process with one connection.\<close>

lemma service_talks:
  assumes "(server_own fmt)\<^sup>*\<^sup>* y y'" and "t \<in> {Checking, Turned_away}"
    and "reaches service_start (service_step fmt preprocess node_type queue_size max_connections)
      \<lparr>sv_counters = counters, sv_connections = [\<lparr>cn_server = y, cn_task = t\<rparr>]\<rparr>"
  shows "reaches service_start (service_step fmt preprocess node_type queue_size max_connections)
    \<lparr>sv_counters = counters, sv_connections = [\<lparr>cn_server = y', cn_task = t\<rparr>]\<rparr>"
  using assms
proof (induction rule: rtranclp_induct)
  case (step y' y'')
  with service_step.talk [of 0 "\<lparr>sv_counters = counters, sv_connections = [\<lparr>cn_server = y', cn_task = t\<rparr>]\<rparr>" _ fmt y'']
  show ?case by (fastforce intro: reaches_step)
qed

lemma service_works:
  assumes "(conn_step fmt (preprocess owner peer))\<^sup>*\<^sup>* p p'"
    and "reaches service_start (service_step fmt preprocess node_type queue_size max_connections)
      \<lparr>sv_counters = counters, sv_connections = [\<lparr>cn_server = fst p, cn_task = Publishing_for owner peer (snd p)\<rparr>]\<rparr>"
  shows "reaches service_start (service_step fmt preprocess node_type queue_size max_connections)
    \<lparr>sv_counters = counters, sv_connections = [\<lparr>cn_server = fst p', cn_task = Publishing_for owner peer (snd p')\<rparr>]\<rparr>"
  using assms
proof (induction rule: rtranclp_induct)
  case (step p' p'')
  with service_step.work [of 0 "\<lparr>sv_counters = counters,
      sv_connections = [\<lparr>cn_server = fst p', cn_task = Publishing_for owner peer (snd p')\<rparr>]\<rparr>" _ owner peer "snd p'" fmt
      preprocess "fst p''" "snd p''"]
  show ?case by (fastforce intro: reaches_step)
qed

text \<open>A peer is admitted with a message in the receive queue.\<close>

definition admitted_service :: "node_data \<Rightarrow> peer_data \<Rightarrow> server_sys \<Rightarrow> service" where
  "admitted_service owner peer y = \<lparr>sv_counters = [pd_node_id peer \<mapsto> 1],
     sv_connections = [\<lparr>cn_server = y, cn_task = Publishing_for owner peer
       (pub_sys_new (pr_send_queue (y_server y)) (pr_recv_queue (y_server y)))\<rparr>]\<rparr>"

lemma example_serial: "get_peer_serial_number example_subject = Some (lit ''5678'')"
  by (simp add: get_peer_serial_number_def example_subject_def ORGANIZATION_NAME_def SERIAL_NUMBER_def lit_simps)

lemma admitted_reached:
  "\<exists>y. reaches service_start (service_step fmt preprocess AA 4 1) (admitted_service owner peer y) \<and> example_served y"
proof -
  obtain p y where p: "create_protocol AA 4 = Inr p"
    "(server_own fmt)\<^sup>*\<^sup>* \<lparr>y_server = p, y_taken = [], y_confirmed = [], y_received = [], y_broken = False\<rparr> y"
    and y: "example_served y"
    "MessageProcessor \<in> pr_tasks (y_server y)"
    using example_talk by blast
  let ?v = "\<lparr>sv_counters = Map.empty, sv_connections = []\<rparr>"
  let ?w = "\<lparr>sv_counters = Map.empty, sv_connections = [\<lparr>cn_server = y, cn_task = Checking\<rparr>]\<rparr>"
  note sn = example_serial
  have "reaches service_start (service_step fmt preprocess AA 4 1) ?v" by (rule reaches_init) (simp add: service_start_def)
  from reaches_step [OF this service_step.accept [OF p(1)]]
  have "reaches service_start (service_step fmt preprocess AA 4 1) \<lparr>sv_counters = Map.empty, sv_connections =
      [\<lparr>cn_server = \<lparr>y_server = p, y_taken = [], y_confirmed = [], y_received = [], y_broken = False\<rparr>, cn_task = Checking\<rparr>]\<rparr>" by simp
  from service_talks [OF p(2) _ this] have "reaches service_start (service_step fmt preprocess AA 4 1) ?w" by simp
  moreover have "service_step fmt preprocess AA 4 1 ?w (admitted_service owner peer y)"
    using service_step.check [of 0 ?w _ "Inr owner" example_subject "\<lambda>_. Inr (Some peer)" 1 _ _ fmt preprocess AA 4] y(2)
    by (simp add: publish_def publish_checks_def sn allowed_enter_def admitted_service_def)
  ultimately show ?thesis using y by (blast intro: reaches_step)
qed

section \<open>The promises of the server\<close>

text \<open>
  C13: In every run of the server process the counter of a peer is exactly the number of connections
  on which a publisher runs for that peer (there is no counter when there is none), so no counter is
  lost when a connection ends, and no peer has more such connections than
  \<^verbatim>\<open>max_connections_per_peer\<close>.
\<close>

theorem server_connections_bounded:
  assumes "reaches service_start (service_step fmt preprocess node_type queue_size max_connections) v"
  shows "int (open_connections k (sv_connections v)) \<le> max max_connections 0 \<and>
    sv_counters v k = (if open_connections k (sv_connections v) = 0 then None
                       else Some (int (open_connections k (sv_connections v))))"
  using service_run.reaches_inv [OF assms] by (simp add: service_inv_def)

theorem server_connections_bounded_witness:
  "\<exists>y. reaches service_start (service_step (\<lambda>_. []) (\<lambda>_ _. example_pre) AA 4 1)
     (admitted_service (example_node AA) (example_cached (lit ''5678'')) y) \<and>
   open_connections (lit ''5678'') (sv_connections (admitted_service (example_node AA) (example_cached (lit ''5678'')) y)) = 1 \<and>
   sv_counters (admitted_service (example_node AA) (example_cached (lit ''5678'')) y) (lit ''5678'') = Some 1"
proof -
  obtain y where y: "reaches service_start (service_step (\<lambda>_. []) (\<lambda>_ _. example_pre) AA 4 1)
      (admitted_service (example_node AA) (example_cached (lit ''5678'')) y)"
    using admitted_reached by blast
  have "open_connections (lit ''5678'') (sv_connections (admitted_service (example_node AA) (example_cached (lit ''5678'')) y)) = 1"
    by (simp add: open_connections_def publishes_for_def admitted_service_def example_cached_def)
  with server_connections_bounded [OF y, where ?k = "lit ''5678''"] y show ?thesis by (intro exI [of _ y]) simp
qed

text \<open>
  Why a connection is turned away: the message of the error, for what the checks have found.
\<close>

lemma publish_checks_reason:
  assumes "publish_checks nd cert get max_connections counters = Inl r"
  shows "e_receipt_id (refusal_item r) = None \<and> e_context (refusal_item r) = None \<and>
    (case nd of
       Inl _ \<Rightarrow> e_message (refusal_item r) = lit ''Internal server error.''
     | Inr owner \<Rightarrow>
    (case get_peer_serial_number cert of
       None \<Rightarrow> e_message (refusal_item r) = lit ''Invalid certificate subject.''
     | Some sn \<Rightarrow>
    (case get sn of
       Inl _ \<Rightarrow> e_message (refusal_item r) = lit ''Internal server error.''
     | Inr None \<Rightarrow> e_message (refusal_item r) = lit ''Unknown peer serial number.''
     | Inr (Some peer) \<Rightarrow> e_message (refusal_item r) = lit ''Too many connections from one peer.'' \<and>
         max_connections \<le> (case counters (pd_node_id peer) of None \<Rightarrow> 0 | Some n \<Rightarrow> n))))"
  using assms unfolding publish_checks_def
  by (auto simp: refusal_item_def ServerError_def Let_def split: sum.splits option.splits if_splits)

text \<open>
  C26: The checks of \<^verbatim>\<open>publish\<close> admit a connection exactly if the node's own data could be read, the
  certificate of the client has a serial number from the nodes registry, the database knows the
  peer with this serial number, and the peer has fewer connections than allowed; then the publisher
  works on the queues of the protocol, and the peer's counter is one more. Otherwise nothing is
  counted, no publisher is started, and the last item of the send queue is an error whose message
  names the check that failed: the subject of the certificate, an unknown peer, or too many
  connections; or an internal error if the database could not be read.
\<close>

theorem publish_admits:
  assumes "aq_items (pr_send_queue (y_server y)) = []" and "aq_put_task (pr_send_queue (y_server y)) = NoPutTask"
  shows "(\<exists>owner peer sn z. nd = Inr owner \<and> get_peer_serial_number cert = Some sn \<and> get sn = Inr (Some peer) \<and>
      (case counters (pd_node_id peer) of None \<Rightarrow> 0 | Some n \<Rightarrow> n) < max_connections \<and>
      publish nd cert get max_connections y counters =
        (\<lparr>cn_server = y, cn_task = Publishing_for owner peer z\<rparr>,
         counters(pd_node_id peer \<mapsto> (case counters (pd_node_id peer) of None \<Rightarrow> 0 | Some n \<Rightarrow> n) + 1)) \<and>
      pl_pub z = publisher_new (pr_send_queue (y_server y)) (pr_recv_queue (y_server y))) \<or>
    (\<exists>c e. publish nd cert get max_connections y counters = (c, counters) \<and> cn_task c = Turned_away \<and>
      aq_future (pr_send_queue (y_server (cn_server c))) = [Stop (Some e)] \<and> e_receipt_id e = None \<and> e_context e = None \<and>
      (case nd of
         Inl _ \<Rightarrow> e_message e = lit ''Internal server error.''
       | Inr owner \<Rightarrow>
      (case get_peer_serial_number cert of
         None \<Rightarrow> e_message e = lit ''Invalid certificate subject.''
       | Some sn \<Rightarrow>
      (case get sn of
         Inl _ \<Rightarrow> e_message e = lit ''Internal server error.''
       | Inr None \<Rightarrow> e_message e = lit ''Unknown peer serial number.''
       | Inr (Some peer) \<Rightarrow> e_message e = lit ''Too many connections from one peer.'' \<and>
           max_connections \<le> (case counters (pd_node_id peer) of None \<Rightarrow> 0 | Some n \<Rightarrow> n)))))"
proof (cases rule: publish_cases [of nd cert get max_connections y counters])
  case (refused r)
  have "aq_future (terminate_queue (pr_send_queue (y_server y)) (Stop (Some (refusal_item r)))) = [Stop (Some (refusal_item r))]"
    unfolding terminate_queue_future [OF assms(2)] using assms by (simp add: aq_future_def)
  with refused(1) publish_checks_reason [OF refused(2)] show ?thesis
    by (intro disjI2 exI [of _ "refusal_item r"] exI) (auto simp: processor_done_def)
qed (auto simp: allowed_enter_def pub_sys_new_def)

theorem publish_admits_witness:
  "\<exists>c e. publish (Inr (example_node AA)) example_subject (\<lambda>_. Inr (Some (example_cached (lit ''5678'')))) 1 example_sys
      [lit ''5678'' \<mapsto> 1] = (c, [lit ''5678'' \<mapsto> 1]) \<and> aq_future (pr_send_queue (y_server (cn_server c))) = [Stop (Some e)] \<and>
    e_message e = lit ''Too many connections from one peer.''"
proof -
  have "pr_send_queue (y_server example_sys) = aq_new 1" by (simp add: example_defs)
  then show ?thesis
    using publish_admits [of example_sys "Inr (example_node AA)" example_subject "\<lambda>_. Inr (Some (example_cached (lit ''5678'')))"
        "[lit ''5678'' \<mapsto> 1]" 1] example_serial
    by (auto simp: aq_new_def example_cached_def)
qed

end
