(* ===== verification/Rmq_Consumer.thy ===== *)
theory Rmq_Consumer
  imports Process_Messages Rmq_Channel
begin

text \<open>
  The consumer of \<^verbatim>\<open>swpt_stomp/rmq.py\<close>, \<^verbatim>\<open>consume_from_queue\<close>: it takes messages from a RabbitMQ
  queue, puts them into a send queue, and acknowledges them to the broker when receipts for them
  arrive on a receive queue.

  The two tasks of \<^verbatim>\<open>_consume_from_queue\<close> are cut where they wait, as in the model of the publisher.
  What the broker (the package \<^verbatim>\<open>aio_pika\<close>) delivers, and when it fails, is not determined;
  \<^verbatim>\<open>transform_message\<close> is an argument. Opening the channel is one step before the runs: it gives a
  consumer whose tasks are started, or one that has failed before they were.
\<close>

section \<open>The state\<close>

text \<open>What the consumer reads of a delivered message.\<close>

record incoming =
  im_type :: "str option"
  im_content_type :: "str option"
  im_delivery_tag :: "int option"
  im_body :: bytes
  im_headers :: "(str \<times> header_value) list"

datatype con_exc = ConRuntimeError str | ConProcError proc_error | ConConnectionError | ConException

datatype con_pc = ConNext | ConPut message | ConDone
datatype ack_pc = AckGet | AckSent | AckDone
datatype con_result = ConEnded | ConFailed con_exc

record consumer =
  cs_send :: "message send_item aqueue"
  cs_recv :: "(str option, flow_cb) wqueue"
  cs_callbacks :: "flow_cb list"
  cs_cp :: con_pc
  cs_ap :: ack_pc
  cs_result :: "con_result option"
  cs_terminated :: bool
  cs_raised :: bool

definition consumer_new :: "message send_item aqueue \<Rightarrow> (str option, flow_cb) wqueue \<Rightarrow> consumer" where
  "consumer_new send recv = \<lparr>cs_send = send, cs_recv = recv, cs_callbacks = [], cs_cp = ConNext, cs_ap = AckGet,
     cs_result = None, cs_terminated = False, cs_raised = False\<rparr>"

text \<open>
  \<^verbatim>\<open>consume_from_queue\<close> up to the tasks: the size of the send queue is the prefetch count. When the
  channel cannot be opened no task is started.
\<close>

definition consumer_failed :: "con_exc \<Rightarrow> message send_item aqueue \<Rightarrow> (str option, flow_cb) wqueue \<Rightarrow> consumer" where
  "consumer_failed e send recv =
     (consumer_new send recv)\<lparr>cs_cp := ConDone, cs_ap := AckDone, cs_result := Some (ConFailed e)\<rparr>"

definition consume_from_queue ::
  "con_exc rmq_answers \<Rightarrow> str \<Rightarrow> rat \<Rightarrow> int \<Rightarrow> message send_item aqueue \<Rightarrow> (str option, flow_cb) wqueue \<Rightarrow>
   rmq_call list \<times> consumer" where
  "consume_from_queue answers url connection_timeout prefetch_size send_queue recv_queue =
     (let (calls, failed) =
        open_channel answers url connection_timeout (max (aq_maxsize send_queue) 1) prefetch_size in
      (calls, case failed of None \<Rightarrow> consumer_new send_queue recv_queue
                           | Some e \<Rightarrow> consumer_failed e send_queue recv_queue))"

lemma consume_from_queue_opened:
  "(\<And>c. answers c = None) \<Longrightarrow> snd (consume_from_queue answers url timeout n send recv) = consumer_new send recv"
  by (metis (no_types, lifting) consume_from_queue_def open_channel_answered option.simps(4) case_prod_beta snd_conv)

text \<open>\<^verbatim>\<open>_NO_TM\<close>: the transformation that is the default.\<close>

definition no_tm :: "rmq_message \<Rightarrow> proc_error + message" where
  "no_tm m = Inr \<lparr>m_id = rm_id m, m_type = rm_type m, m_body = rm_body m, m_content_type = rm_content_type m\<rparr>"

section \<open>The tasks\<close>

text \<open>The first exception of a task, or its cancellation, decides how \<^verbatim>\<open>asyncio.gather\<close> ends.\<close>

definition con_ends :: "con_result \<Rightarrow> consumer \<Rightarrow> consumer" where
  "con_ends r s = (case cs_result s of None \<Rightarrow> s\<lparr>cs_result := Some r\<rparr> | Some _ \<Rightarrow> s)"

definition received_message :: "(rmq_message \<Rightarrow> proc_error + message) \<Rightarrow> incoming \<Rightarrow> con_exc + message" where
  "received_message transform d =
     (case im_type d of
        None \<Rightarrow> Inl (ConRuntimeError (lit ''Message without a type.''))
      | Some message_type \<Rightarrow>
     (case im_content_type d of
        None \<Rightarrow> Inl (ConRuntimeError (lit ''Message without a content-type.''))
      | Some message_content_type \<Rightarrow>
     (case im_delivery_tag d of
        None \<Rightarrow> Inl (ConRuntimeError (lit ''Message without a delivery tag.''))
      | Some delivery_tag \<Rightarrow>
     (case transform \<lparr>rm_id = dec_of_int delivery_tag, rm_body = im_body d, rm_headers = im_headers d,
                      rm_type = message_type, rm_content_type = message_content_type, rm_routing_key = None\<rparr> of
        Inl e \<Rightarrow> Inl (ConProcError e)
      | Inr m \<Rightarrow> Inr m))))"

text \<open>\<^verbatim>\<open>consume_queue\<close>: from the next message of the iterator to \<^verbatim>\<open>send_queue.put\<close>, and from there back.\<close>

definition consume_next :: "(rmq_message \<Rightarrow> proc_error + message) \<Rightarrow> incoming \<Rightarrow> consumer \<Rightarrow> consumer" where
  "consume_next transform d s =
     (case received_message transform d of
        Inl e \<Rightarrow> con_ends (ConFailed e) (s\<lparr>cs_cp := ConDone\<rparr>)
      | Inr m \<Rightarrow> s\<lparr>cs_cp := ConPut m\<rparr>)"

definition consume_put :: "message \<Rightarrow> consumer \<Rightarrow> consumer option" where
  "consume_put m s =
     (case aq_put_nowait (Payload m) (cs_send s) of
        Inl _ \<Rightarrow> None
      | Inr q \<Rightarrow> Some (s\<lparr>cs_send := q, cs_cp := ConNext\<rparr>))"

text \<open>
  \<^verbatim>\<open>send_acks\<close>: from \<^verbatim>\<open>recv_queue.get()\<close> to \<^verbatim>\<open>basic_ack\<close>, which is called with the delivery tag, and
  from there back. A receipt that is \<^verbatim>\<open>None\<close> or empty ends the loop.
\<close>

definition ack_task_done :: "consumer \<Rightarrow> consumer" where
  "ack_task_done s =
     (case task_done (cs_recv s) of
        Inl e \<Rightarrow> con_ends (ConFailed ConException) (s\<lparr>cs_ap := AckDone\<rparr>)
      | Inr (cbs, q) \<Rightarrow> s\<lparr>cs_recv := q, cs_callbacks := cs_callbacks s @ cbs, cs_ap := AckGet\<rparr>)"

definition ack_get :: "consumer \<Rightarrow> (int list \<times> consumer) option" where
  "ack_get s =
     (case aq_get (cs_recv s) of
        None \<Rightarrow> None
      | Some (receipt_id, q) \<Rightarrow>
          (let s = s\<lparr>cs_recv := q\<rparr> in
           if receipt_id = None \<or> receipt_id = Some []
           then Some ([], con_ends ConEnded (s\<lparr>cs_cp := ConDone, cs_ap := AckDone\<rparr>))
           else case py_int 10 (the receipt_id) of
                  None \<Rightarrow> Some ([], ack_task_done s)
                | Some delivery_tag \<Rightarrow> Some ([delivery_tag], s\<lparr>cs_ap := AckSent\<rparr>)))"

text \<open>The end of \<^verbatim>\<open>consume_from_queue\<close>.\<close>

definition con_last_item :: "con_result \<Rightarrow> server_error option" where
  "con_last_item r =
     (case r of ConEnded \<Rightarrow> None | ConFailed _ \<Rightarrow> Some (ServerError (lit ''Abruptly closed connection.'')))"

definition consume_finish :: "con_result \<Rightarrow> consumer \<Rightarrow> consumer" where
  "consume_finish r s =
     s\<lparr>cs_cp := ConDone, cs_ap := AckDone, cs_terminated := True,
       cs_send := terminate_queue (cs_send s) (Stop (con_last_item r)),
       cs_raised := (case r of ConFailed e \<Rightarrow> e \<noteq> ConConnectionError | ConEnded \<Rightarrow> False)\<rparr>"

section \<open>The runs of a consumer\<close>

text \<open>
  The logs: what the broker delivered; the messages that were put into the send queue; the receipts
  that were taken from the receive queue; the tags that were acknowledged; and what was taken from
  the send queue.
\<close>

record con_sys =
  kl_con :: consumer
  kl_delivered :: "incoming list"
  kl_put :: "message list"
  kl_receipts :: "str option list"
  kl_acks :: "int list"
  kl_read :: "message send_item list"

definition con_starts :: "message send_item aqueue \<Rightarrow> (str option, flow_cb) wqueue \<Rightarrow> consumer set" where
  "con_starts send recv = insert (consumer_new send recv) (range (\<lambda>e. consumer_failed e send recv))"

lemma consume_from_queue_starts: "snd (consume_from_queue answers url timeout n send recv) \<in> con_starts send recv"
  by (simp add: consume_from_queue_def con_starts_def split: prod.split option.split)

definition con_start :: "con_sys \<Rightarrow> bool" where
  "con_start y \<longleftrightarrow> (\<exists>send recv. kl_con y \<in> con_starts send recv \<and>
     aq_items send = [] \<and>
     aq_put_task send = NoPutTask \<and> aq_unfinished recv = length (aq_items recv)) \<and>
     kl_delivered y = [] \<and> kl_put y = [] \<and> kl_receipts y = [] \<and> kl_acks y = [] \<and> kl_read y = []"

lemma con_start_intro: "kl_con y \<in> con_starts send recv \<Longrightarrow> aq_items send = [] \<Longrightarrow> aq_put_task send = NoPutTask \<Longrightarrow>
    aq_unfinished recv = length (aq_items recv) \<Longrightarrow> kl_delivered y = [] \<Longrightarrow> kl_put y = [] \<Longrightarrow> kl_receipts y = [] \<Longrightarrow>
    kl_acks y = [] \<Longrightarrow> kl_read y = [] \<Longrightarrow> con_start y"
  unfolding con_start_def by blast

text \<open>
  \<open>closed\<close> and \<open>broken\<close>: the iterator of the queue ends, or it fails; \<open>acked\<close> and \<open>unacked\<close>: \<^verbatim>\<open>basic_ack\<close>
  returns, or it fails; \<open>unclosed\<close>: closing the connection at the end fails, and the exception takes
  the place of what went before. \<^verbatim>\<open>basic_ack\<close> is called with \<^verbatim>\<open>multiple=True\<close>, so the broker takes a tag
  to cover the earlier deliveries as well; \<open>kl_acks\<close> keeps the tags that the consumer names.
\<close>

inductive con_own :: "(rmq_message \<Rightarrow> proc_error + message) \<Rightarrow> con_sys \<Rightarrow> con_sys \<Rightarrow> bool" for transform where
  deliver: "cs_cp (kl_con y) = ConNext \<Longrightarrow>
    con_own transform y (y\<lparr>kl_con := consume_next transform d (kl_con y), kl_delivered := kl_delivered y @ [d]\<rparr>)"
| put: "cs_cp (kl_con y) = ConPut m \<Longrightarrow> consume_put m (kl_con y) = Some s \<Longrightarrow>
    con_own transform y (y\<lparr>kl_con := s, kl_put := kl_put y @ [m]\<rparr>)"
| closed: "cs_cp (kl_con y) = ConNext \<Longrightarrow> con_own transform y (y\<lparr>kl_con := (kl_con y)\<lparr>cs_cp := ConDone\<rparr>\<rparr>)"
| broken: "cs_cp (kl_con y) = ConNext \<Longrightarrow> e \<in> {ConConnectionError, ConException} \<Longrightarrow>
    con_own transform y (y\<lparr>kl_con := con_ends (ConFailed e) ((kl_con y)\<lparr>cs_cp := ConDone\<rparr>)\<rparr>)"
| get: "cs_ap (kl_con y) = AckGet \<Longrightarrow> ack_get (kl_con y) = Some (acks, s) \<Longrightarrow>
    con_own transform y (y\<lparr>kl_con := s, kl_receipts := kl_receipts y @ [hd (aq_items (cs_recv (kl_con y)))],
      kl_acks := kl_acks y @ acks\<rparr>)"
| acked: "cs_ap (kl_con y) = AckSent \<Longrightarrow> con_own transform y (y\<lparr>kl_con := ack_task_done (kl_con y)\<rparr>)"
| unacked: "cs_ap (kl_con y) = AckSent \<Longrightarrow> e \<in> {ConConnectionError, ConException} \<Longrightarrow>
    con_own transform y (y\<lparr>kl_con := con_ends (ConFailed e) ((kl_con y)\<lparr>cs_ap := AckDone\<rparr>)\<rparr>)"
| cancelled: "cs_result (kl_con y) = None \<Longrightarrow>
    con_own transform y (y\<lparr>kl_con := con_ends ConEnded ((kl_con y)\<lparr>cs_cp := ConDone, cs_ap := AckDone\<rparr>)\<rparr>)"
| unclosed: "cs_result (kl_con y) = Some r \<Longrightarrow> \<not> cs_terminated (kl_con y) \<Longrightarrow> e \<in> {ConConnectionError, ConException} \<Longrightarrow>
    con_own transform y (y\<lparr>kl_con := (kl_con y)\<lparr>cs_result := Some (ConFailed e)\<rparr>\<rparr>)"
| finish: "cs_result (kl_con y) = Some r \<Longrightarrow> \<not> cs_terminated (kl_con y) \<Longrightarrow>
    con_own transform y (y\<lparr>kl_con := consume_finish r (kl_con y)\<rparr>)"
| put_last: "con_own transform y (y\<lparr>kl_con := (kl_con y)\<lparr>cs_send := run_put_task (cs_send (kl_con y))\<rparr>\<rparr>)"

text \<open>With what the protocol on the other side of the queues may do.\<close>

inductive con_step :: "(rmq_message \<Rightarrow> proc_error + message) \<Rightarrow> con_sys \<Rightarrow> con_sys \<Rightarrow> bool" for transform where
  own: "con_own transform y y' \<Longrightarrow> con_step transform y y'"
| receive: "aq_items q = aq_items (cs_recv (kl_con y)) @ xs \<Longrightarrow>
    aq_unfinished q = aq_unfinished (cs_recv (kl_con y)) + length xs \<Longrightarrow>
    con_step transform y (y\<lparr>kl_con := (kl_con y)\<lparr>cs_recv := q\<rparr>\<rparr>)"
| read: "aq_items (cs_send (kl_con y)) = xs @ aq_items q \<Longrightarrow> aq_maxsize q = aq_maxsize (cs_send (kl_con y)) \<Longrightarrow>
    aq_put_task q = aq_put_task (cs_send (kl_con y)) \<Longrightarrow>
    con_step transform y (y\<lparr>kl_con := (kl_con y)\<lparr>cs_send := q\<rparr>, kl_read := kl_read y @ xs\<rparr>)"

inductive_cases con_ownE: "con_own transform y y'"

section \<open>The invariant\<close>

text \<open>
  \<open>con_msgs\<close>: the messages put are those delivered, in order; one more may be on its way, or lost with
  its task. \<open>con_acks\<close>: what was acknowledged.
\<close>

definition con_msgs :: "(rmq_message \<Rightarrow> proc_error + message) \<Rightarrow> con_sys \<Rightarrow> bool" where
  "con_msgs transform y \<longleftrightarrow>
     length (kl_put y) \<le> length (kl_delivered y) \<and>
     map (received_message transform) (take (length (kl_put y)) (kl_delivered y)) = map Inr (kl_put y) \<and>
     (case cs_cp (kl_con y) of
        ConNext \<Rightarrow> length (kl_delivered y) = length (kl_put y)
      | ConPut m \<Rightarrow> length (kl_delivered y) = Suc (length (kl_put y)) \<and>
                    received_message transform (last (kl_delivered y)) = Inr m
      | ConDone \<Rightarrow> length (kl_delivered y) \<le> Suc (length (kl_put y)))"

fun receipt_tags :: "str option list \<Rightarrow> int list" where
  "receipt_tags [] = []"
| "receipt_tags (r # rs) =
     (case r of
        None \<Rightarrow> []
      | Some s \<Rightarrow> if s = [] then [] else (case py_int 10 s of None \<Rightarrow> [] | Some t \<Rightarrow> [t]) @ receipt_tags rs)"

definition con_acks :: "con_sys \<Rightarrow> bool" where
  "con_acks y \<longleftrightarrow> kl_acks y = receipt_tags (kl_receipts y) \<and>
     (cs_ap (kl_con y) \<noteq> AckDone \<longrightarrow> None \<notin> set (kl_receipts y) \<and> Some [] \<notin> set (kl_receipts y))"

definition con_queue :: "con_sys \<Rightarrow> bool" where
  "con_queue y \<longleftrightarrow>
     length (aq_items (cs_recv (kl_con y))) + (if cs_ap (kl_con y) = AckSent then 1 else 0) \<le> aq_unfinished (cs_recv (kl_con y))"

definition con_sent :: "con_sys \<Rightarrow> bool" where
  "con_sent y \<longleftrightarrow>
     (\<not> cs_terminated (kl_con y) \<longrightarrow> aq_put_task (cs_send (kl_con y)) = NoPutTask) \<and>
     (cs_terminated (kl_con y) \<longrightarrow> cs_cp (kl_con y) = ConDone \<and> cs_ap (kl_con y) = AckDone \<and> cs_result (kl_con y) \<noteq> None) \<and>
     kl_read y @ aq_future (cs_send (kl_con y)) = map Payload (kl_put y) @
       (if cs_terminated (kl_con y) then [Stop (con_last_item (the (cs_result (kl_con y))))] else [])"

definition con_inv :: "(rmq_message \<Rightarrow> proc_error + message) \<Rightarrow> con_sys \<Rightarrow> bool" where
  "con_inv transform y \<longleftrightarrow> con_msgs transform y \<and> con_acks y \<and> con_queue y \<and> con_sent y"

lemmas con_inv_defs = con_inv_def con_msgs_def con_acks_def con_queue_def con_sent_def

lemma con_inv_start: "con_start y \<Longrightarrow> con_inv transform y"
  by (auto simp: con_start_def con_starts_def con_inv_defs consumer_new_def consumer_failed_def aq_future_def)

lemma receipt_tags_snoc:
  "None \<notin> set rs \<Longrightarrow> Some [] \<notin> set rs \<Longrightarrow> receipt_tags (rs @ [r]) = receipt_tags rs @ receipt_tags [r]"
proof (induction rs)
  case (Cons a rs)
  then obtain s where "a = Some s" "s \<noteq> []" by (cases a) auto
  with Cons show ?case by simp
qed simp

section \<open>The steps keep the invariant\<close>

lemma con_ends_simps [simp]:
  "cs_send (con_ends r s) = cs_send s" "cs_recv (con_ends r s) = cs_recv s" "cs_cp (con_ends r s) = cs_cp s"
  "cs_ap (con_ends r s) = cs_ap s" "cs_terminated (con_ends r s) = cs_terminated s" "cs_result (con_ends r s) \<noteq> None"
  "cs_result s = Some r' \<Longrightarrow> cs_result (con_ends r s) = Some r'"
  by (simp_all add: con_ends_def split: option.split)

text \<open>A step that only ends tasks.\<close>

lemma con_inv_ends:
  assumes "con_inv transform y"
    and "kl_delivered y' = kl_delivered y" and "kl_put y' = kl_put y" and "kl_receipts y' = kl_receipts y"
    and "kl_acks y' = kl_acks y" and "kl_read y' = kl_read y"
    and "cs_send (kl_con y') = cs_send (kl_con y)" and "cs_recv (kl_con y') = cs_recv (kl_con y)"
    and "cs_terminated (kl_con y') = cs_terminated (kl_con y)"
    and "cs_cp (kl_con y') \<in> {cs_cp (kl_con y), ConDone}" and "cs_ap (kl_con y') \<in> {cs_ap (kl_con y), AckDone}"
    and "cs_result (kl_con y) \<noteq> None \<longrightarrow> cs_result (kl_con y') = cs_result (kl_con y)"
  shows "con_inv transform y'"
  unfolding con_inv_def
proof (intro conjI)
  have i: "con_msgs transform y" "con_acks y" "con_queue y" "con_sent y" using assms(1) by (simp_all add: con_inv_def)
  show "con_msgs transform y'" using i(1) assms(2,3,10) by (auto simp: con_msgs_def split: con_pc.splits)
  show "con_acks y'" using i(2) assms(4,5,11) by (auto simp: con_acks_def)
  show "con_queue y'" using i(3) assms(8,11) by (auto simp: con_queue_def split: if_splits)
  show "con_sent y'" using i(4) assms by (auto simp: con_sent_def)
qed

lemma con_inv_deliver:
  assumes "con_inv transform y" and cp: "cs_cp (kl_con y) = ConNext"
  shows "con_inv transform (y\<lparr>kl_con := consume_next transform d (kl_con y), kl_delivered := kl_delivered y @ [d]\<rparr>)"
    (is "con_inv transform ?y")
  unfolding con_inv_def
proof (intro conjI)
  have i: "con_msgs transform y" "con_acks y" "con_queue y" "con_sent y" using assms(1) by (simp_all add: con_inv_def)
  show "con_msgs transform ?y" using i(1) cp
    by (cases "received_message transform d") (auto simp: con_msgs_def consume_next_def)
  show "con_acks ?y" using i(2) by (auto simp: con_acks_def consume_next_def split: sum.splits)
  show "con_queue ?y" using i(3) by (auto simp: con_queue_def consume_next_def split: sum.splits if_splits)
  show "con_sent ?y" using i(4) cp by (auto simp: con_sent_def consume_next_def split: sum.splits)
qed

lemma con_inv_put:
  assumes "con_inv transform y" and cp: "cs_cp (kl_con y) = ConPut m" and "consume_put m (kl_con y) = Some s"
  shows "con_inv transform (y\<lparr>kl_con := s, kl_put := kl_put y @ [m]\<rparr>)"
    (is "con_inv transform ?y")
  unfolding con_inv_def
proof (intro conjI)
  have i: "con_msgs transform y" "con_acks y" "con_queue y" "con_sent y" using assms(1) by (simp_all add: con_inv_def)
  obtain q where q: "s = (kl_con y)\<lparr>cs_send := q, cs_cp := ConNext\<rparr>" "aq_items q = aq_items (cs_send (kl_con y)) @ [Payload m]"
    "aq_put_task q = aq_put_task (cs_send (kl_con y))"
    using assms(3) by (auto simp: consume_put_def aq_put_nowait_def split: if_splits)
  show "con_msgs transform ?y"
  proof -
    have "kl_delivered y \<noteq> []" using i(1) cp by (auto simp: con_msgs_def)
    then obtain ds d where "kl_delivered y = ds @ [d]" by (cases "kl_delivered y" rule: rev_cases) auto
    with i(1) cp q(1) show ?thesis by (auto simp: con_msgs_def)
  qed
  show "con_acks ?y" using i(2) q by (auto simp: con_acks_def)
  show "con_queue ?y" using i(3) q by (auto simp: con_queue_def)
  show "con_sent ?y" using i(4) cp q by (auto simp: con_sent_def aq_future_def)
qed

lemma con_inv_task_done:
  assumes "con_inv transform (y\<lparr>kl_con := s\<lparr>cs_ap := AckGet\<rparr>\<rparr>)"
    and "length (aq_items (cs_recv s)) < aq_unfinished (cs_recv s)"
  shows "con_inv transform (y\<lparr>kl_con := ack_task_done s\<rparr>)"
    (is "con_inv transform ?y")
  unfolding con_inv_def
proof (intro conjI)
  let ?z = "y\<lparr>kl_con := s\<lparr>cs_ap := AckGet\<rparr>\<rparr>"
  have i: "con_msgs transform ?z" "con_acks ?z" "con_sent ?z" using assms(1) by (simp_all add: con_inv_def)
  obtain cbs q where q: "task_done (cs_recv s) = Inr (cbs, q)" "aq_items q = aq_items (cs_recv s)"
    "aq_unfinished q = aq_unfinished (cs_recv s) - 1"
    using task_done_unfinished [of "cs_recv s"] assms(2) by auto
  show "con_msgs transform ?y" using i(1) q(1) by (auto simp: con_msgs_def ack_task_done_def split: con_pc.splits)
  show "con_acks ?y" using i(2) q(1) by (auto simp: con_acks_def ack_task_done_def)
  show "con_queue ?y" using assms(2) q by (auto simp: con_queue_def ack_task_done_def)
  show "con_sent ?y" using i(3) q(1) by (auto simp: con_sent_def ack_task_done_def)
qed

lemma con_inv_acked:
  assumes "con_inv transform y" and "cs_ap (kl_con y) = AckSent"
  shows "con_inv transform (y\<lparr>kl_con := ack_task_done (kl_con y)\<rparr>)"
proof (rule con_inv_task_done)
  show "con_inv transform (y\<lparr>kl_con := (kl_con y)\<lparr>cs_ap := AckGet\<rparr>\<rparr>)"
    using assms by (auto simp: con_inv_defs split: con_pc.splits)
  show "length (aq_items (cs_recv (kl_con y))) < aq_unfinished (cs_recv (kl_con y))"
    using assms by (simp add: con_inv_defs)
qed

lemma con_inv_get:
  assumes "con_inv transform y" and ap: "cs_ap (kl_con y) = AckGet" and get: "ack_get (kl_con y) = Some (acks, s)"
  shows "con_inv transform (y\<lparr>kl_con := s, kl_receipts := kl_receipts y @ [hd (aq_items (cs_recv (kl_con y)))],
      kl_acks := kl_acks y @ acks\<rparr>)"
proof -
  obtain r q where rq: "aq_get (cs_recv (kl_con y)) = Some (r, q)"
    using get by (auto simp: ack_get_def split: option.splits)
  then have q: "aq_items (cs_recv (kl_con y)) = r # aq_items q" "aq_unfinished q = aq_unfinished (cs_recv (kl_con y))"
    by (auto simp: aq_get_def split: list.splits)
  define z where "z = y\<lparr>kl_receipts := kl_receipts y @ [r], kl_acks := kl_acks y @ acks\<rparr>"
  have z: "y\<lparr>kl_con := s, kl_receipts := kl_receipts y @ [hd (aq_items (cs_recv (kl_con y)))], kl_acks := kl_acks y @ acks\<rparr> =
    z\<lparr>kl_con := s\<rparr>" by (simp add: z_def q)
  have i: "con_msgs transform y" "con_acks y" "con_queue y" "con_sent y" using assms(1) by (simp_all add: con_inv_def)
  have rs: "None \<notin> set (kl_receipts y)" "Some [] \<notin> set (kl_receipts y)" "\<not> cs_terminated (kl_con y)"
    using i(2,4) ap by (auto simp: con_acks_def con_sent_def)
  consider (stop) "r = None \<or> r = Some []" "acks = []" "s = con_ends ConEnded ((kl_con y)\<lparr>cs_recv := q, cs_cp := ConDone, cs_ap := AckDone\<rparr>)"
    | (bad) t where "r = Some t" "t \<noteq> []" "py_int 10 t = None" "acks = []" "s = ack_task_done ((kl_con y)\<lparr>cs_recv := q\<rparr>)"
    | (tag) t n where "r = Some t" "t \<noteq> []" "py_int 10 t = Some n" "acks = [n]" "s = (kl_con y)\<lparr>cs_recv := q, cs_ap := AckSent\<rparr>"
    using get by (auto simp: ack_get_def rq Let_def split: if_splits option.splits)
  then have "con_inv transform (z\<lparr>kl_con := s\<rparr>)"
  proof cases
    case stop
    with i rs q ap show ?thesis
      by (auto simp: con_inv_defs z_def receipt_tags_snoc split: con_pc.splits)
  next
    case bad
    have "con_inv transform (z\<lparr>kl_con := (kl_con y)\<lparr>cs_recv := q, cs_ap := AckGet\<rparr>\<rparr>)"
      using i rs q ap bad by (auto simp: con_inv_defs z_def receipt_tags_snoc split: con_pc.splits)
    with i(3) q show ?thesis unfolding bad(5)
      by (intro con_inv_task_done) (simp_all add: con_queue_def split: if_splits)
  next
    case tag
    with i rs q ap show ?thesis
      by (auto simp: con_inv_defs z_def receipt_tags_snoc split: con_pc.splits)
  qed
  then show ?thesis by (simp only: z)
qed

lemma con_inv_finish:
  assumes "con_inv transform y" and "cs_result (kl_con y) = Some r" and "\<not> cs_terminated (kl_con y)"
  shows "con_inv transform (y\<lparr>kl_con := consume_finish r (kl_con y)\<rparr>)"
  using assms by (auto simp: con_inv_defs consume_finish_def terminate_queue_future simp flip: append_assoc
      split: con_pc.splits if_splits)

lemma con_inv_unclosed:
  assumes "con_inv transform y" and "\<not> cs_terminated (kl_con y)"
  shows "con_inv transform (y\<lparr>kl_con := (kl_con y)\<lparr>cs_result := Some r\<rparr>\<rparr>)"
  using assms by (auto simp: con_inv_defs split: con_pc.splits)

lemma con_inv_receive:
  assumes "con_inv transform y" and "aq_items q = aq_items (cs_recv (kl_con y)) @ xs"
    and "aq_unfinished q = aq_unfinished (cs_recv (kl_con y)) + length xs"
  shows "con_inv transform (y\<lparr>kl_con := (kl_con y)\<lparr>cs_recv := q\<rparr>\<rparr>)"
  using assms by (auto simp: con_inv_defs split: con_pc.splits if_splits)

lemma con_inv_send:
  assumes "con_inv transform y" and "aq_put_task (cs_send (kl_con y)) = NoPutTask \<longrightarrow> aq_put_task q = NoPutTask"
    and "xs @ aq_future q = kl_read y @ aq_future (cs_send (kl_con y))"
  shows "con_inv transform (y\<lparr>kl_con := (kl_con y)\<lparr>cs_send := q\<rparr>, kl_read := xs\<rparr>)"
  using assms by (auto simp: con_inv_defs split: con_pc.splits if_splits)

lemma con_inv_read:
  assumes "con_inv transform y" and "aq_items (cs_send (kl_con y)) = xs @ aq_items q"
    and "aq_put_task q = aq_put_task (cs_send (kl_con y))"
  shows "con_inv transform (y\<lparr>kl_con := (kl_con y)\<lparr>cs_send := q\<rparr>, kl_read := kl_read y @ xs\<rparr>)"
  by (rule con_inv_send [OF assms(1)]) (use assms(2,3) in \<open>simp_all add: aq_future_def\<close>)

lemma con_inv_put_last:
  assumes "con_inv transform y"
  shows "con_inv transform (y\<lparr>kl_con := (kl_con y)\<lparr>cs_send := run_put_task (cs_send (kl_con y))\<rparr>\<rparr>)"
  using con_inv_send [OF assms, of "run_put_task (cs_send (kl_con y))" "kl_read y"]
  by (simp add: run_put_task_future run_put_task_none)

lemma con_inv_own:
  assumes "con_inv transform y" and "con_own transform y y'"
  shows "con_inv transform y'"
  using assms(2)
proof cases
  case closed
  show ?thesis unfolding closed(1) by (rule con_inv_ends [OF assms(1)]) simp_all
next
  case (broken e)
  show ?thesis unfolding broken(1) by (rule con_inv_ends [OF assms(1)]) auto
next
  case (unacked e)
  show ?thesis unfolding unacked(1) by (rule con_inv_ends [OF assms(1)]) auto
next
  case cancelled
  show ?thesis unfolding cancelled(1) by (rule con_inv_ends [OF assms(1)]) (use cancelled(2) in auto)
qed (use assms(1) in \<open>auto intro: con_inv_deliver con_inv_put con_inv_get con_inv_acked con_inv_finish con_inv_unclosed
      con_inv_put_last simp only:\<close>)

lemma con_inv_step:
  assumes "con_inv transform y" and "con_step transform y y'"
  shows "con_inv transform y'"
  using assms(2) by (cases rule: con_step.cases)
    (auto intro: con_inv_own [OF assms(1)] con_inv_receive [OF assms(1)] con_inv_read [OF assms(1)] simp only:)

interpretation consumer_run: inductive_invariant con_start "con_step transform" "con_inv transform" for transform
  by unfold_locales (rule con_inv_start, assumption, rule con_inv_step)

text \<open>A new consumer, and one message on its way through it: from the broker to the send queue.\<close>

definition con_sys_new :: "consumer \<Rightarrow> con_sys" where
  "con_sys_new s = \<lparr>kl_con = s, kl_delivered = [], kl_put = [], kl_receipts = [], kl_acks = [], kl_read = []\<rparr>"

lemma one_delivery_own:
  assumes "received_message transform d = Inr m"
  shows "\<exists>k. (con_own transform)\<^sup>*\<^sup>* (con_sys_new (consumer_new (aq_new 4) rq)) k \<and> kl_put k = [m] \<and> kl_delivered k = [d] \<and>
    cs_send (kl_con k) = (aq_new 4)\<lparr>aq_items := [Payload m], aq_unfinished := 1\<rparr> \<and> cs_ap (kl_con k) = AckGet \<and> kl_acks k = [] \<and>
    cs_recv (kl_con k) = rq"
proof -
  let ?y0 = "con_sys_new (consumer_new (aq_new 4) rq)"
  let ?y1 = "?y0\<lparr>kl_con := consume_next transform d (kl_con ?y0), kl_delivered := [d]\<rparr>"
  let ?y2 = "?y1\<lparr>kl_con := the (consume_put m (kl_con ?y1)), kl_put := [m]\<rparr>"
  note defs = con_sys_new_def consumer_new_def consume_next_def assms consume_put_def aq_put_nowait_def aq_full_def aq_new_def
  have "con_own transform ?y0 ?y1" using con_own.deliver [of ?y0 transform d] by (simp add: defs)
  moreover have "con_own transform ?y1 ?y2" using con_own.put [of ?y1 m _ transform] by (simp add: defs)
  ultimately have "(con_own transform)\<^sup>*\<^sup>* ?y0 ?y2" by (meson converse_rtranclp_into_rtranclp rtranclp.rtrancl_refl)
  moreover have "kl_put ?y2 = [m]" "kl_delivered ?y2 = [d]"
    "cs_send (kl_con ?y2) = (aq_new 4)\<lparr>aq_items := [Payload m], aq_unfinished := 1\<rparr>" "cs_ap (kl_con ?y2) = AckGet" "kl_acks ?y2 = []"
    "cs_recv (kl_con ?y2) = rq" by (simp_all add: defs)
  ultimately show ?thesis by blast
qed

section \<open>Tags and receipts\<close>

lemma con_msgs_nth:
  assumes "con_msgs transform y" and "i < length (kl_put y)"
  shows "received_message transform (kl_delivered y ! i) = Inr (kl_put y ! i)"
proof -
  have "map (received_message transform) (take (length (kl_put y)) (kl_delivered y)) ! i = map Inr (kl_put y) ! i"
    and "length (kl_put y) \<le> length (kl_delivered y)" using assms(1) by (simp_all add: con_msgs_def)
  with assms(2) show ?thesis by simp
qed

lemma dec_of_int_not_Nil [simp]: "dec_of_int t \<noteq> []"
  using py_int_dec_of_int [of t] by (auto simp: py_int_def)

lemma receipt_tags_ids:
  "\<forall>r\<in>set rs. r = None \<or> (\<exists>t. r = Some (dec_of_int t)) \<Longrightarrow>
   map (\<lambda>t. Some (dec_of_int t)) (receipt_tags rs) = takeWhile (\<lambda>r. r \<noteq> None) rs"
  by (induction rs) (auto simp: py_int_dec_of_int)

text \<open>Both transformations keep the identifier of a message, which is its delivery tag.\<close>

lemma no_tm_id: "no_tm r = Inr m \<Longrightarrow> m_id m = rm_id r"
  by (auto simp: no_tm_def)

lemma transform_message_id: "transform_message loads dumps owner peer r = Inr m \<Longrightarrow> m_id m = rm_id r"
  by (auto simp: transform_message_def bindE_eq_Inr_conv simp del: lit_Nil_iff split: prod.splits)

lemma received_message_id:
  assumes "\<And>r m. transform r = Inr m \<Longrightarrow> m_id m = rm_id r" and "received_message transform d = Inr m"
  shows "\<exists>t. im_delivery_tag d = Some t \<and> m_id m = dec_of_int t"
  using assms(2) by (auto simp: received_message_def dest: assms(1) split: option.splits sum.splits)

section \<open>An example\<close>

text \<open>A message with the delivery tag 7 is delivered, put into the send queue and acknowledged.\<close>

definition example_incoming :: incoming where
  "example_incoming = \<lparr>im_type = Some (lit ''T''), im_content_type = Some (lit ''text/plain''), im_delivery_tag = Some 7,
     im_body = ''body'', im_headers = []\<rparr>"

definition example_con_message :: message where
  "example_con_message = \<lparr>m_id = lit ''7'', m_type = lit ''T'', m_body = ''body'', m_content_type = lit ''text/plain''\<rparr>"

definition example_con_start :: con_sys where
  "example_con_start = \<lparr>kl_con = consumer_new (aq_new 1)
      \<lparr>aq_items = [Some (lit ''7'')], aq_maxsize = 0, aq_unfinished = 1, aq_put_task = NoPutTask, wq_paused = False,
       wq_lw_callbacks = [], wq_hw_callbacks = [], wq_low_watermark = 1, wq_high_watermark = 4\<rparr>,
     kl_delivered = [], kl_put = [], kl_receipts = [], kl_acks = [], kl_read = []\<rparr>"

definition example_con_sys :: con_sys where
  "example_con_sys = \<lparr>kl_con = \<lparr>cs_send = \<lparr>aq_items = [Payload example_con_message], aq_maxsize = 1, aq_unfinished = 1, aq_put_task = NoPutTask\<rparr>,
      cs_recv = \<lparr>aq_items = [], aq_maxsize = 0, aq_unfinished = 1, aq_put_task = NoPutTask, wq_paused = False,
        wq_lw_callbacks = [], wq_hw_callbacks = [], wq_low_watermark = 1, wq_high_watermark = 4\<rparr>,
      cs_callbacks = [], cs_cp = ConNext, cs_ap = AckSent, cs_result = None, cs_terminated = False, cs_raised = False\<rparr>,
     kl_delivered = [example_incoming], kl_put = [example_con_message], kl_receipts = [Some (lit ''7'')], kl_acks = [7], kl_read = []\<rparr>"

lemma example_received: "received_message no_tm example_incoming = Inr example_con_message"
  by code_simp

lemma example_receipt: "py_int 10 (lit ''7'') = Some 7" "lit ''7'' \<noteq> []"
  by code_simp+

lemma example_con_reached: "reaches con_start (con_step no_tm) example_con_sys"
proof -
  let ?y = "example_con_start\<lparr>kl_con := consume_next no_tm example_incoming (kl_con example_con_start),
    kl_delivered := [example_incoming]\<rparr>"
  let ?s = "the (consume_put example_con_message (kl_con ?y))"
  note defs = example_con_start_def consumer_new_def aq_new_def consume_next_def example_received
    consume_put_def aq_put_nowait_def aq_full_def
  have "reaches con_start (con_step no_tm) example_con_start"
    unfolding example_con_start_def by (intro reaches_init con_start_intro) (simp add: con_starts_def, rule disjI1, rule refl, simp_all add: aq_new_def)
  moreover have "con_step no_tm example_con_start ?y"
    using con_step.own [OF con_own.deliver [of example_con_start no_tm example_incoming]] by (simp add: example_con_start_def consumer_new_def)
  ultimately have "reaches con_start (con_step no_tm) ?y" by (rule reaches_step)
  moreover have "con_step no_tm ?y (?y\<lparr>kl_con := ?s, kl_put := kl_put ?y @ [example_con_message]\<rparr>)"
    by (rule con_step.own [OF con_own.put]) (simp_all add: defs)
  ultimately have "reaches con_start (con_step no_tm) (?y\<lparr>kl_con := ?s, kl_put := kl_put ?y @ [example_con_message]\<rparr>)"
    (is "reaches _ _ ?z") by (rule reaches_step)
  moreover have "con_step no_tm ?z example_con_sys"
    using con_step.own [OF con_own.get [of ?z "[7]" "kl_con example_con_sys" no_tm]]
    by (simp add: defs example_con_sys_def ack_get_def aq_get_def Let_def example_receipt)
  ultimately show ?thesis by (rule reaches_step)
qed

section \<open>The promises of the consumer\<close>

text \<open>
  C20: In every run of \<^verbatim>\<open>consume_from_queue\<close>, the messages put into the send queue are the transformed
  messages that the broker delivered, in the same order, each of them once and none skipped; at most
  one delivered message (the last) is not there yet. The other side gets exactly these messages and,
  once the consumer has ended, one last item with its result.
\<close>

theorem consumer_order:
  assumes "reaches con_start (con_step transform) y"
  shows "length (kl_put y) \<le> length (kl_delivered y) \<and> length (kl_delivered y) \<le> Suc (length (kl_put y)) \<and>
    map (received_message transform) (take (length (kl_put y)) (kl_delivered y)) = map Inr (kl_put y) \<and>
    kl_read y @ aq_future (cs_send (kl_con y)) = map Payload (kl_put y) @
      (if cs_terminated (kl_con y) then [Stop (con_last_item (the (cs_result (kl_con y))))] else [])"
  using consumer_run.reaches_inv [OF assms] by (auto simp: con_inv_defs split: con_pc.splits)

theorem consumer_order_witness:
  "kl_delivered example_con_sys = [example_incoming] \<and> received_message no_tm example_incoming = Inr example_con_message \<and>
   kl_put example_con_sys = [example_con_message] \<and> aq_future (cs_send (kl_con example_con_sys)) = [Payload example_con_message]"
  using consumer_order [OF example_con_reached] by (simp add: example_con_sys_def)

text \<open>
  C9: As long as every receipt is the identifier of a message that was put into the send queue, or
  \<^verbatim>\<open>None\<close>, and the transformation keeps identifiers, the consumer acknowledges to the broker, in the
  order of the receipts, one delivery tag for every receipt before the first \<^verbatim>\<open>None\<close>: the tag of the
  message that the receipt is for, and so only tags of messages that were delivered and passed on.
\<close>

theorem consumer_acks:
  assumes "reaches con_start (con_step transform) y"
    and "\<And>r m. transform r = Inr m \<Longrightarrow> m_id m = rm_id r"
    and "\<forall>r\<in>set (kl_receipts y). r = None \<or> (\<exists>m\<in>set (kl_put y). r = Some (m_id m))"
  shows "map (\<lambda>t. Some (dec_of_int t)) (kl_acks y) = takeWhile (\<lambda>r. r \<noteq> None) (kl_receipts y) \<and>
    (\<forall>t\<in>set (kl_acks y). \<exists>i<length (kl_put y). im_delivery_tag (kl_delivered y ! i) = Some t \<and>
       received_message transform (kl_delivered y ! i) = Inr (kl_put y ! i) \<and> m_id (kl_put y ! i) = dec_of_int t)"
proof -
  have inv: "con_msgs transform y" "con_acks y" using consumer_run.reaches_inv [OF assms(1)] by (simp_all add: con_inv_def)
  note nth = con_msgs_nth [OF inv(1)]
  have put: "\<exists>t. im_delivery_tag (kl_delivered y ! i) = Some t \<and> m_id (kl_put y ! i) = dec_of_int t" if "i < length (kl_put y)" for i
    using received_message_id [OF assms(2) nth [OF that]] .
  have "\<forall>r\<in>set (kl_receipts y). r = None \<or> (\<exists>t. r = Some (dec_of_int t))"
    using assms(3) put by (metis in_set_conv_nth)
  then have acks: "map (\<lambda>t. Some (dec_of_int t)) (kl_acks y) = takeWhile (\<lambda>r. r \<noteq> None) (kl_receipts y)"
    using inv(2) receipt_tags_ids by (simp add: con_acks_def)
  have "\<exists>i<length (kl_put y). im_delivery_tag (kl_delivered y ! i) = Some t \<and>
       received_message transform (kl_delivered y ! i) = Inr (kl_put y ! i) \<and> m_id (kl_put y ! i) = dec_of_int t"
    if "t \<in> set (kl_acks y)" for t
  proof -
    have "Some (dec_of_int t) \<in> set (takeWhile (\<lambda>r. r \<noteq> None) (kl_receipts y))"
      unfolding acks [symmetric] using that by simp
    then have "Some (dec_of_int t) \<in> set (kl_receipts y)" by (rule set_takeWhileD [THEN conjunct1])
    with assms(3) obtain m where "m \<in> set (kl_put y)" "m_id m = dec_of_int t" by fastforce
    then obtain i where i: "i < length (kl_put y)" "m_id (kl_put y ! i) = dec_of_int t"
      by (auto simp: in_set_conv_nth)
    with put [OF i(1)] nth [OF i(1)] show ?thesis by (metis option.inject py_int_dec_of_int)
  qed
  with acks show ?thesis by blast
qed

theorem consumer_acks_witness:
  "kl_acks example_con_sys = [7] \<and> map (\<lambda>t. Some (dec_of_int t)) (kl_acks example_con_sys) = [Some (lit ''7'')]"
proof -
  have "\<forall>r\<in>set (kl_receipts example_con_sys). r = None \<or> (\<exists>m\<in>set (kl_put example_con_sys). r = Some (m_id m))"
    by (simp add: example_con_sys_def example_con_message_def)
  from consumer_acks [OF example_con_reached no_tm_id this] show ?thesis by (simp add: example_con_sys_def)
qed

end
