(* ===== verification/Client_Connection.thy ===== *)
theory Client_Connection
  imports Server_Connection Rmq_Consumer
begin

text \<open>
  A connection of the client process: the protocol (\<^verbatim>\<open>StompClient\<close>) and the consumer
  (\<^verbatim>\<open>consume_from_queue\<close>) that run concurrently on the same two queues, as the picture at the top of
  \<^verbatim>\<open>swpt_stomp/client.py\<close> shows them.
\<close>

declare lit_simps [simp del]

section \<open>The connection\<close>

definition client_seen :: "client_sys \<Rightarrow> client_sys \<Rightarrow> con_sys \<Rightarrow> con_sys" where
  "client_seen z z' k =
     k\<lparr>kl_con := (kl_con k)\<lparr>cs_send := pr_send_queue (z_client z'), cs_recv := pr_recv_queue (z_client z')\<rparr>,
       kl_read := kl_read k @ removed (aq_items (pr_send_queue (z_client z))) (aq_items (pr_send_queue (z_client z')))\<rparr>"

definition con_seen :: "con_sys \<Rightarrow> con_sys \<Rightarrow> client_sys \<Rightarrow> client_sys" where
  "con_seen k k' z =
     z\<lparr>z_client := run_callbacks (drop (length (cs_callbacks (kl_con k))) (cs_callbacks (kl_con k')))
         ((z_client z)\<lparr>pr_send_queue := cs_send (kl_con k'), pr_recv_queue := cs_recv (kl_con k')\<rparr>),
       z_taken := z_taken z @ removed (aq_items (cs_recv (kl_con k))) (aq_items (cs_recv (kl_con k')))\<rparr>"

definition client_conn_step ::
  "(rat \<Rightarrow> str) \<Rightarrow> (rmq_message \<Rightarrow> proc_error + message) \<Rightarrow> client_sys \<times> con_sys \<Rightarrow> client_sys \<times> con_sys \<Rightarrow> bool" where
  "client_conn_step fmt transform = par_step (client_own fmt) client_seen (con_own transform) con_seen"

text \<open>The consumer has taken from the receive queue what the protocol's log says, and the writer got what was read.\<close>

definition client_link :: "client_sys \<Rightarrow> con_sys \<Rightarrow> bool" where
  "client_link z k \<longleftrightarrow>
     cs_send (kl_con k) = pr_send_queue (z_client z) \<and> cs_recv (kl_con k) = pr_recv_queue (z_client z) \<and>
     z_sent z = payloads (kl_read k) \<and> z_taken z = kl_receipts k"

section \<open>Each part is the environment of the other one\<close>

lemma client_own_seen:
  assumes "client_link z k" and "client_own fmt z z'"
  shows "(con_step transform)\<^sup>*\<^sup>* k (client_seen z z' k) \<and> client_link z' (client_seen z z' k)"
proof -
  obtain xs ys where mv: "moves xs ys (z_client z) (z_client z')" "z_taken z' = z_taken z" "z_sent z' = z_sent z @ payloads ys"
    using client_own_moves [OF assms(2)] by blast
  let ?sq = "pr_send_queue (z_client z')" and ?rq = "pr_recv_queue (z_client z')"
  let ?k = "k\<lparr>kl_con := (kl_con k)\<lparr>cs_recv := ?rq\<rparr>\<rparr>"
  have link: "cs_send (kl_con k) = pr_send_queue (z_client z)" "cs_recv (kl_con k) = pr_recv_queue (z_client z)"
    using assms(1) by (simp_all add: client_link_def)
  have "con_step transform k ?k"
    using mv(1) link by (intro con_step.receive [of _ _ xs]) (simp_all add: moves_def)
  moreover have "con_step transform ?k (?k\<lparr>kl_con := (kl_con ?k)\<lparr>cs_send := ?sq\<rparr>, kl_read := kl_read ?k @ ys\<rparr>)"
    using mv(1) link by (intro con_step.read) (simp_all add: moves_def)
  moreover have seen: "client_seen z z' k = ?k\<lparr>kl_con := (kl_con ?k)\<lparr>cs_send := ?sq\<rparr>, kl_read := kl_read ?k @ ys\<rparr>"
    using mv(1) by (simp add: client_seen_def moves_def)
  ultimately have "(con_step transform)\<^sup>*\<^sup>* k (client_seen z z' k)"
    by (metis converse_rtranclp_into_rtranclp r_into_rtranclp)
  moreover have "client_link z' (client_seen z z' k)"
    using assms(1) mv(2,3) unfolding seen by (simp add: client_link_def)
  ultimately show ?thesis by blast
qed

lemma consumer_fields [simp]:
  "cs_callbacks (con_ends r s) = cs_callbacks s"
  "cs_send (consume_next transform d s) = cs_send s" "cs_recv (consume_next transform d s) = cs_recv s"
  "cs_callbacks (consume_next transform d s) = cs_callbacks s"
  "cs_send (ack_task_done s) = cs_send s"
  by (simp_all add: con_ends_def consume_next_def ack_task_done_def split: option.splits sum.splits prod.splits)

lemma ack_task_done_cases:
  obtains (raised) "cs_recv (ack_task_done s) = cs_recv s" "cs_callbacks (ack_task_done s) = cs_callbacks s"
  | (marked) cbs q where "task_done (cs_recv s) = Inr (cbs, q)" "cs_recv (ack_task_done s) = q"
      "cs_callbacks (ack_task_done s) = cs_callbacks s @ cbs"
  by (cases "task_done (cs_recv s)") (auto simp: ack_task_done_def)

text \<open>A step of the consumer: it takes an item from the receive queue, and it calls \<^verbatim>\<open>task_done\<close>, or not.\<close>

lemma con_own_queues:
  assumes "con_own transform k k'"
  obtains xs ys cbs q where "aq_items (cs_send (kl_con k')) = aq_items (cs_send (kl_con k)) @ ys"
    "kl_receipts k' = kl_receipts k @ xs" "kl_read k' = kl_read k"
    "xs = [] \<and> q = cs_recv (kl_con k) \<or> (\<exists>x. xs = [x] \<and> aq_get (cs_recv (kl_con k)) = Some (x, q))"
    "cs_callbacks (kl_con k') = cs_callbacks (kl_con k) @ cbs"
    "cs_recv (kl_con k') = q \<and> cbs = [] \<or> task_done q = Inr (cbs, cs_recv (kl_con k'))"
  using assms
proof cases
  case (put m s)
  then obtain q where "s = (kl_con k)\<lparr>cs_send := q, cs_cp := ConNext\<rparr>"
    "aq_items q = aq_items (cs_send (kl_con k)) @ [Payload m]"
    by (auto simp: consume_put_def aq_put_nowait_def split: if_splits)
  with put(1) show thesis by (intro that [of "[Payload m]" "[]" "cs_recv (kl_con k)" "[]"]) simp_all
next
  case (get acks s)
  obtain x q where xq: "aq_get (cs_recv (kl_con k)) = Some (x, q)"
    using get(3) by (auto simp: ack_get_def split: option.splits)
  then have hd: "hd (aq_items (cs_recv (kl_con k))) = x" by (auto simp: aq_get_def split: list.splits)
  let ?s = "(kl_con k)\<lparr>cs_recv := q\<rparr>"
  consider "s = ack_task_done ?s" | "cs_recv s = q" "cs_callbacks s = cs_callbacks (kl_con k)" "cs_send s = cs_send (kl_con k)"
    using get(3) by (auto simp: ack_get_def xq Let_def split: if_splits option.splits)
  then show thesis
  proof cases
    case 1
    show thesis
    proof (cases rule: ack_task_done_cases [of ?s])
      case raised
      with get(1) hd xq 1 show thesis by (intro that [of "[]" "[x]" q "[]"]) simp_all
    next
      case (marked cbs q')
      with get(1) hd xq 1 show thesis by (intro that [of "[]" "[x]" q cbs]) simp_all
    qed
  next
    case 2
    with get(1) hd xq show thesis by (intro that [of "[]" "[x]" q "[]"]) simp_all
  qed
next
  case acked
  show thesis
  proof (cases rule: ack_task_done_cases [of "kl_con k"])
    case raised
    with acked(1) show thesis by (intro that [of "[]" "[]" "cs_recv (kl_con k)" "[]"]) simp_all
  next
    case (marked cbs q')
    with acked(1) show thesis by (intro that [of "[]" "[]" "cs_recv (kl_con k)" cbs]) simp_all
  qed
next
  case (finish r)
  obtain ys where "aq_items (terminate_queue (cs_send (kl_con k)) (Stop (con_last_item r))) = aq_items (cs_send (kl_con k)) @ ys"
    by (rule exE [OF terminate_queue_items])
  with finish show thesis by (intro that [of ys "[]" "cs_recv (kl_con k)" "[]"]) (simp_all add: consume_finish_def)
next
  case put_last
  obtain ys where "aq_items (run_put_task (cs_send (kl_con k))) = aq_items (cs_send (kl_con k)) @ ys"
    by (rule exE [OF run_put_task_items])
  with put_last show thesis by (intro that [of ys "[]" "cs_recv (kl_con k)" "[]"]) simp_all
qed (rule that [of "[]" "[]" "cs_recv (kl_con k)" "[]"]; simp)+

lemma con_own_seen:
  assumes "client_link z k" and "con_own transform k k'"
  shows "(client_step fmt)\<^sup>*\<^sup>* z (con_seen k k' z) \<and> client_link (con_seen k k' z) k'"
proof -
  obtain xs ys cbs q where e: "aq_items (cs_send (kl_con k')) = aq_items (cs_send (kl_con k)) @ ys"
    "kl_receipts k' = kl_receipts k @ xs" "kl_read k' = kl_read k"
    "xs = [] \<and> q = cs_recv (kl_con k) \<or> (\<exists>x. xs = [x] \<and> aq_get (cs_recv (kl_con k)) = Some (x, q))"
    "cs_callbacks (kl_con k') = cs_callbacks (kl_con k) @ cbs"
    "cs_recv (kl_con k') = q \<and> cbs = [] \<or> task_done q = Inr (cbs, cs_recv (kl_con k'))"
    by (rule con_own_queues [OF assms(2)])
  have link: "cs_send (kl_con k) = pr_send_queue (z_client z)" "cs_recv (kl_con k) = pr_recv_queue (z_client z)"
    using assms(1) by (simp_all add: client_link_def)
  let ?z1 = "z\<lparr>z_client := (z_client z)\<lparr>pr_send_queue := cs_send (kl_con k')\<rparr>\<rparr>"
  let ?z2 = "?z1\<lparr>z_client := (z_client ?z1)\<lparr>pr_recv_queue := q\<rparr>, z_taken := z_taken ?z1 @ xs\<rparr>"
  let ?z3 = "?z2\<lparr>z_client := run_callbacks cbs ((z_client ?z2)\<lparr>pr_recv_queue := cs_recv (kl_con k')\<rparr>)\<rparr>"
  have q: "aq_items (cs_recv (kl_con k)) = xs @ aq_items q" "aq_items (cs_recv (kl_con k')) = aq_items q"
    using e(4,6) wq_get_fields [of "cs_recv (kl_con k)" _ q] task_done_fields [of q cbs "cs_recv (kl_con k')"] by auto
  have s1: "client_step fmt z ?z1" using e(1) link by (intro cstep_enqueue [of _ _ ys]) simp
  have s2: "(client_step fmt)\<^sup>*\<^sup>* ?z1 ?z2"
  proof (cases "xs = []")
    case True
    with e(4) link have "?z2 = ?z1" by auto
    then show ?thesis by (simp only: rtranclp.rtrancl_refl)
  next
    case False
    with e(4) obtain x where x: "xs = [x]" "aq_get (cs_recv (kl_con k)) = Some (x, q)" by auto
    with link have "client_step fmt ?z1 ?z2" using cstep_consume [of ?z1 x q fmt] by simp
    then show ?thesis by (rule r_into_rtranclp)
  qed
  have s3: "(client_step fmt)\<^sup>*\<^sup>* ?z2 ?z3"
  proof (cases "cs_recv (kl_con k') = q \<and> cbs = []")
    case True
    then have "?z3 = ?z2" by simp
    then show ?thesis by (simp only: rtranclp.rtrancl_refl)
  next
    case False
    with e(6) have "client_step fmt ?z2 ?z3" using cstep_consumed [of ?z2 cbs "cs_recv (kl_con k')" fmt] by auto
    then show ?thesis by (rule r_into_rtranclp)
  qed
  have seen: "con_seen k k' z = ?z3" using e(5) q by (simp add: con_seen_def)
  have "(client_step fmt)\<^sup>*\<^sup>* z (con_seen k k' z)"
    unfolding seen by (rule converse_rtranclp_into_rtranclp [OF s1 rtranclp_trans [OF s2 s3]])
  moreover have "client_link (con_seen k k' z) k'"
    using assms(1) e(2,3) unfolding seen by (simp add: client_link_def)
  ultimately show ?thesis by blast
qed

interpretation client_conn: composition client_start "client_step fmt" "\<lambda>z. client_inv (z_taken z) (z_sent z) (z_client z)"
  con_start "con_step transform" "con_inv transform" "client_own fmt" client_seen "con_own transform" con_seen client_link
  for fmt transform
  by unfold_locales (auto intro: cstep_own con_step.own dest: client_own_seen con_own_seen)

section \<open>A run of a connection\<close>

text \<open>The broker delivers a message, it is written in a SEND frame, and the receipt for it is acknowledged.\<close>

definition client_ready :: "writer \<Rightarrow> stomp_frame \<Rightarrow> bytes list \<Rightarrow> bytes \<Rightarrow> client_sys \<Rightarrow> bool" where
  "client_ready w greet out received z \<longleftrightarrow>
     pr_writer (z_client z) = w \<and> pr_start_sending (z_client z) \<and> \<not> pr_done (z_client z) \<and> pr_transport (z_client z) \<noteq> None \<and>
     pr_connected (z_client z) \<and> \<not> pr_connection_lost (z_client z) \<and> \<not> c_sent_disconnect (z_client z) \<and>
     idle (pr_parser (z_client z)) \<and> connect_frame (z_client z) = greet \<and>
     out_of (z_client z) = out \<and> z_received z = received \<and> \<not> z_broken z"

definition same_queues :: "client_sys \<Rightarrow> con_sys \<Rightarrow> bool" where
  "same_queues z k \<longleftrightarrow> cs_send (kl_con k) = pr_send_queue (z_client z) \<and> cs_recv (kl_con k) = pr_recv_queue (z_client z)"

lemma con_own_conn:
  assumes "(con_own transform)\<^sup>*\<^sup>* k k'" and "client_ready w greet out received z" and "same_queues z k"
  shows "\<exists>z'. (client_conn_step fmt transform)\<^sup>*\<^sup>* (z, k) (z', k') \<and> client_ready w greet out received z' \<and>
    same_queues z' k' \<and> c_send_destination (z_client z') = c_send_destination (z_client z) \<and> z_sent z' = z_sent z"
  using assms
proof (induction rule: rtranclp_induct)
  case (step k' k'')
  then obtain z' where z': "(client_conn_step fmt transform)\<^sup>*\<^sup>* (z, k) (z', k')" "client_ready w greet out received z'"
    "c_send_destination (z_client z') = c_send_destination (z_client z)" "z_sent z' = z_sent z" by blast
  have "client_conn_step fmt transform (z', k') (con_seen k' k'' z', k'')"
    unfolding client_conn_step_def by (rule par_second) (rule step(2))
  moreover have "client_ready w greet out received (con_seen k' k'' z')" "same_queues (con_seen k' k'' z') k''"
    "c_send_destination (z_client (con_seen k' k'' z')) = c_send_destination (z_client z)" "z_sent (con_seen k' k'' z') = z_sent z"
    using z'(2-4) by (auto simp: client_ready_def same_queues_def con_seen_def run_callbacks_def connect_frame_def out_of_def)
  ultimately show ?case using z'(1) by (metis rtranclp.rtrancl_into_rtrancl)
qed auto

lemma writer_writes_send:
  assumes "client_ready WaitStart greet out received z"
    and "pr_send_queue (z_client z) = (aq_new 4)\<lparr>aq_items := [Payload m], aq_unfinished := 1\<rparr>"
    and "frame_bytes (send_frame_of (c_send_destination (z_client z)) m) = Inr b"
  shows "\<exists>z'. (client_own fmt)\<^sup>*\<^sup>* z z' \<and> client_ready WaitStart greet (out @ [b]) received z' \<and> z_sent z' = z_sent z @ [m] \<and>
    pr_recv_queue (z_client z') = pr_recv_queue (z_client z) \<and> c_send_destination (z_client z') = c_send_destination (z_client z)"
proof -
  let ?z1 = "z\<lparr>z_client := snd (client_writer (z_client z)), z_sent := z_sent z @ next_message (z_client z)\<rparr>"
  let ?z2 = "?z1\<lparr>z_client := snd (client_writer (z_client ?z1)), z_sent := z_sent ?z1 @ next_message (z_client ?z1)\<rparr>"
  have "client_own fmt z ?z1" "client_own fmt ?z1 ?z2" by (rule cstep_writer)+
  then have "(client_own fmt)\<^sup>*\<^sup>* z ?z2" by (meson converse_rtranclp_into_rtranclp rtranclp.rtrancl_refl)
  moreover have "client_ready WaitStart greet (out @ [b]) received ?z2" "z_sent ?z2 = z_sent z @ [m]"
    "pr_recv_queue (z_client ?z2) = pr_recv_queue (z_client z)" "c_send_destination (z_client ?z2) = c_send_destination (z_client z)"
    using assms by (auto simp: client_ready_def client_writer_def process_send_queue_def aq_get_def aq_new_def client_send_frame_def
        write_frame_def transport_write_def send_task_done_def aq_task_done_def out_of_def next_message_def connect_frame_def)
  ultimately show ?thesis by blast
qed

lemma reads_receipt:
  assumes "client_ready w greet out received z" and "wf_frame (receipt_frame r)"
    and "aq_items (pr_recv_queue (z_client z)) = []" "aq_maxsize (pr_recv_queue (z_client z)) \<le> 0"
  shows "\<exists>z'. client_own fmt z z' \<and> client_ready w greet out (received @ wire (receipt_frame r)) z' \<and> z_sent z' = z_sent z \<and>
    aq_items (pr_recv_queue (z_client z')) = [Some r] \<and> c_send_destination (z_client z') = c_send_destination (z_client z)"
proof -
  let ?c = "z_client z" and ?b = "wire (receipt_frame r)"
  have c: "idle (pr_parser ?c)" "pr_connected ?c" "\<not> pr_done ?c" "\<not> c_sent_disconnect ?c" using assms(1) by (simp_all add: client_ready_def)
  obtain p where p: "add_bytes ?b (pr_parser ?c) = Some (Inr (), p)" "p_frames p = [parsed (receipt_frame r)]" "idle (p\<lparr>p_frames := []\<rparr>)"
    using idle_reads [OF c(1), of "[receipt_frame r]"] assms(2) by auto
  let ?c1 = "(base_data_received 2 ?c)\<lparr>pr_parser := p\<lparr>p_frames := []\<rparr>\<rparr>"
  obtain cbs q where put: "recv_put (Some r) ?c1 = (None, run_callbacks cbs (?c1\<lparr>pr_recv_queue := q\<rparr>))" "aq_items q = [Some r]"
    using recv_put_unbounded [of ?c1 "Some r"] assms(3,4) by (auto simp: base_data_received_def)
  let ?c2 = "(run_callbacks cbs (?c1\<lparr>pr_recv_queue := q\<rparr>))\<lparr>c_last_receipt_id := Some r\<rparr>"
  have "client_frame (parsed (receipt_frame r)) ?c1 = (None, ?c2)"
    using c put(1)
    by (simp add: client_frame_def parsed_def receipt_frame_def wire_headers_def received_receipt_command_def lit_simps)
      (simp add: run_callbacks_def base_data_received_def)
  then have "client_data_received 2 ?b ?c = Some (None, ?c2)"
    using c p by (simp add: client_data_received_def Let_def) (simp add: base_data_received_def run_callbacks_def)
  then have "client_own fmt z (z\<lparr>z_client := ?c2, z_received := received @ ?b, z_broken := False\<rparr>)"
    using cstep_data [of z 2 ?b None ?c2 fmt] assms(1) by (simp add: client_ready_def)
  moreover have "client_ready w greet out (received @ ?b) (z\<lparr>z_client := ?c2, z_received := received @ ?b, z_broken := False\<rparr>)"
    using assms(1) p(3) by (auto simp: client_ready_def run_callbacks_def base_data_received_def connect_frame_def out_of_def)
  ultimately show ?thesis using put(2)
    by (intro exI [of _ "z\<lparr>z_client := ?c2, z_received := received @ ?b, z_broken := False\<rparr>"])
      (simp add: run_callbacks_def base_data_received_def)
qed

lemma client_own_conn:
  assumes "(client_own fmt)\<^sup>*\<^sup>* z z'" and "same_queues z k"
  shows "\<exists>k'. (client_conn_step fmt transform)\<^sup>*\<^sup>* (z, k) (z', k') \<and> same_queues z' k' \<and> kl_delivered k' = kl_delivered k \<and>
    kl_acks k' = kl_acks k \<and> cs_ap (kl_con k') = cs_ap (kl_con k)"
  using assms
proof (induction rule: rtranclp_induct)
  case (step z' z'')
  then obtain k' where k': "(client_conn_step fmt transform)\<^sup>*\<^sup>* (z, k) (z', k')" "kl_delivered k' = kl_delivered k"
    "kl_acks k' = kl_acks k" "cs_ap (kl_con k') = cs_ap (kl_con k)" by blast
  have "client_conn_step fmt transform (z', k') (z'', client_seen z' z'' k')"
    unfolding client_conn_step_def by (rule par_first) (rule step(2))
  with k' show ?case
    by (intro exI [of _ "client_seen z' z'' k'"])
      (auto simp: client_seen_def same_queues_def intro: rtranclp.rtrancl_into_rtrancl)
qed blast

lemma acknowledges:
  assumes "cs_ap (kl_con k) = AckGet" and "aq_items (cs_recv (kl_con k)) = [Some r]" and "py_int 10 r = Some t"
  shows "\<exists>k'. con_own transform k k' \<and> kl_acks k' = kl_acks k @ [t] \<and> kl_delivered k' = kl_delivered k"
proof -
  have "r \<noteq> []" using assms(3) by (auto simp: py_int_def)
  then have "\<exists>s. ack_get (kl_con k) = Some ([t], s)" using assms(2,3) by (simp add: ack_get_def aq_get_def)
  then obtain s where "ack_get (kl_con k) = Some ([t], s)" by blast
  from con_own.get [OF assms(1) this, of transform] show ?thesis by fastforce
qed

end
