(* ===== verification/Client.thy ===== *)
theory Client
  imports Client_Connection Peer_Data
begin

text \<open>
  The STOMP client process of \<^verbatim>\<open>swpt_stomp/client.py\<close> once its connection is open: it makes the
  protocol with its two queues, and, once the server has shown its certificate, opens a channel of
  the broker and runs a consumer for the connection. How the connection is opened is in \<^verbatim>\<open>Startup\<close>.
\<close>

declare lit_simps [simp del]

section \<open>The connection\<close>

definition create_client_protocol :: "peer_data \<Rightarrow> int \<Rightarrow> exc + client" where
  "create_client_protocol peer_data client_queue_size =
     (let send_queue = aq_new client_queue_size in
      bindE (wq_new client_queue_size None) (\<lambda>recv_queue.
        let c = pd_stomp_config peer_data in
        client_init send_queue recv_queue DEFAULT_HB_SEND_MIN DEFAULT_HB_RECV_DESIRED DEFAULT_MAX_NETWORK_DELAY
          (sc_host c) (sc_login c) (sc_passcode c) (sc_destination c)))"

text \<open>
  The task \<^verbatim>\<open>consume\<close> of the connection: it has not looked at the certificate of the server; or the
  consumer runs; or the server was refused. It looks at the certificate without waiting: a server
  with the certificate of another node is refused, and the send queue ends with the reason;
  otherwise a channel of the broker is opened, and a consumer runs on the queues of the protocol. The
  step is taken when the channel is open, or could not be opened.
\<close>

datatype consume_task = Greeting | Consuming con_sys | Server_refused

record client_connection =
  cc_client :: client_sys
  cc_task :: consume_task

definition consume ::
  "peer_data \<Rightarrow> peercert \<Rightarrow> con_exc rmq_answers \<Rightarrow> str \<Rightarrow> rat \<Rightarrow> client_sys \<Rightarrow> client_connection" where
  "consume peer_data cert answers protocol_broker_url timeout z =
     (let send_queue = pr_send_queue (z_client z); recv_queue = pr_recv_queue (z_client z) in
      if get_peer_serial_number cert \<noteq> Some (pd_node_id peer_data)
      then \<lparr>cc_client = z\<lparr>z_client := processor_done ((z_client z)\<lparr>pr_send_queue :=
              terminate_queue send_queue (Stop (Some (ServerError (lit ''Invalid certificate subject.''))))\<rparr>)\<rparr>,
            cc_task = Server_refused\<rparr>
      else \<lparr>cc_client = z, cc_task = Consuming (con_sys_new
              (snd (consume_from_queue answers protocol_broker_url timeout 0 send_queue recv_queue)))\<rparr>)"

text \<open>
  The process after \<^verbatim>\<open>connect\<close> has made the protocol. \<open>talk\<close>: a step of the protocol while no consumer
  runs; \<open>check\<close>: \<^verbatim>\<open>consume\<close> starts; \<open>work\<close>: a step of the protocol or of the consumer; \<open>ended\<close>: the task
  ends; \<open>put_last\<close>: the task that puts the reason for a refusal into the send queue.
\<close>

inductive connection_step ::
  "(rat \<Rightarrow> str) \<Rightarrow> (rmq_message \<Rightarrow> proc_error + message) \<Rightarrow> peer_data \<Rightarrow> peercert \<Rightarrow>
   client_connection \<Rightarrow> client_connection \<Rightarrow> bool" for fmt transform peer cert where
  talk: "cc_task c \<in> {Greeting, Server_refused} \<Longrightarrow> client_own fmt (cc_client c) z' \<Longrightarrow>
    connection_step fmt transform peer cert c (c\<lparr>cc_client := z'\<rparr>)"
| check: "cc_task c = Greeting \<Longrightarrow> MessageProcessor \<in> pr_tasks (z_client (cc_client c)) \<Longrightarrow>
    connection_step fmt transform peer cert c (consume peer cert answers url timeout (cc_client c))"
| work: "cc_task c = Consuming k \<Longrightarrow> client_conn_step fmt transform (cc_client c, k) (z', k') \<Longrightarrow>
    connection_step fmt transform peer cert c \<lparr>cc_client = z', cc_task = Consuming k'\<rparr>"
| ended: "cc_task c = Consuming k \<Longrightarrow> cs_terminated (kl_con k) \<Longrightarrow>
    connection_step fmt transform peer cert c
      (c\<lparr>cc_client := (cc_client c)\<lparr>z_client := processor_done (z_client (cc_client c))\<rparr>\<rparr>)"
| put_last: "cc_task c = Server_refused \<Longrightarrow> z_client (cc_client c) = s \<Longrightarrow>
    connection_step fmt transform peer cert c
      (c\<lparr>cc_client := (cc_client c)\<lparr>z_client := s\<lparr>pr_send_queue := run_put_task (pr_send_queue s)\<rparr>\<rparr>\<rparr>)"

definition connection_start :: "peer_data \<Rightarrow> int \<Rightarrow> client_connection \<Rightarrow> bool" where
  "connection_start peer client_queue_size c \<longleftrightarrow>
     (\<exists>p. create_client_protocol peer client_queue_size = Inr p \<and>
        c = \<lparr>cc_client = \<lparr>z_client = p, z_taken = [], z_sent = [], z_received = [], z_broken = False\<rparr>, cc_task = Greeting\<rparr>)"

section \<open>The invariant\<close>

definition client_ok :: "client_sys \<Rightarrow> bool" where
  "client_ok z \<longleftrightarrow> client_inv (z_taken z) (z_sent z) (z_client z)"

definition client_connection_ok ::
  "(rmq_message \<Rightarrow> proc_error + message) \<Rightarrow> peer_data \<Rightarrow> peercert \<Rightarrow> client_connection \<Rightarrow> bool" where
  "client_connection_ok transform peer cert c \<longleftrightarrow> client_ok (cc_client c) \<and>
     (case cc_task c of
        Greeting \<Rightarrow>
          aq_items (pr_send_queue (z_client (cc_client c))) = [] \<and>
          aq_put_task (pr_send_queue (z_client (cc_client c))) = NoPutTask \<and>
          aq_unfinished (pr_recv_queue (z_client (cc_client c))) = length (aq_items (pr_recv_queue (z_client (cc_client c)))) \<and>
          z_taken (cc_client c) = [] \<and> z_sent (cc_client c) = []
      | Consuming k \<Rightarrow>
          con_inv transform k \<and> client_link (cc_client c) k \<and> get_peer_serial_number cert = Some (pd_node_id peer)
      | Server_refused \<Rightarrow>
          payloads (aq_future (pr_send_queue (z_client (cc_client c)))) = [] \<and>
          z_taken (cc_client c) = [] \<and> z_sent (cc_client c) = [])"

lemma client_ok_step: "client_ok z \<Longrightarrow> client_step fmt z z' \<Longrightarrow> client_ok z'"
  unfolding client_ok_def by (rule client_inv_step)

lemma client_connection_start:
  assumes "connection_start peer n c"
  shows "client_connection_ok transform peer cert c"
proof -
  obtain p where p: "create_client_protocol peer n = Inr p"
    "c = \<lparr>cc_client = \<lparr>z_client = p, z_taken = [], z_sent = [], z_received = [], z_broken = False\<rparr>, cc_task = Greeting\<rparr>"
    using assms by (auto simp: connection_start_def)
  obtain rq where rq: "wq_new n None = Inr rq" and init: "client_init (aq_new n) rq DEFAULT_HB_SEND_MIN DEFAULT_HB_RECV_DESIRED
      DEFAULT_MAX_NETWORK_DELAY (sc_host (pd_stomp_config peer)) (sc_login (pd_stomp_config peer))
      (sc_passcode (pd_stomp_config peer)) (sc_destination (pd_stomp_config peer)) = Inr p"
    using p(1) by (auto simp: create_client_protocol_def Let_def bindE_eq_Inr_conv)
  then have "client_start \<lparr>z_client = p, z_taken = [], z_sent = [], z_received = [], z_broken = False\<rparr>"
    unfolding client_start_def by blast
  from client_inv_start [OF this] show ?thesis using rq init p(2)
    by (auto simp: client_connection_ok_def client_ok_def client_init_def proto_init_def wq_new_def aq_new_def proto.defs
        client.defs Let_def split: if_splits)
qed

lemma client_connection_talk:
  assumes "client_connection_ok transform peer cert c" and "cc_task c \<in> {Greeting, Server_refused}"
    and "client_own fmt (cc_client c) z'"
  shows "client_connection_ok transform peer cert (c\<lparr>cc_client := z'\<rparr>)"
proof -
  have "client_ok z'" using assms client_ok_step [OF _ cstep_own] by (auto simp: client_connection_ok_def)
  moreover obtain xs ys where mv: "moves xs ys (z_client (cc_client c)) (z_client z')" "z_taken z' = z_taken (cc_client c)"
    "z_sent z' = z_sent (cc_client c) @ payloads ys"
    using client_own_moves [OF assms(3)] by blast
  then have "payloads ys @ payloads (aq_future (pr_send_queue (z_client z'))) =
      payloads (aq_future (pr_send_queue (z_client (cc_client c))))"
    by (simp add: moves_def aq_future_def)
  ultimately show ?thesis using assms(1,2) mv by (auto simp: client_connection_ok_def moves_def)
qed

lemma client_ok_send_queue:
  assumes "client_ok z" and "aq_items q = aq_items (pr_send_queue (z_client z)) @ xs"
  shows "client_ok (z\<lparr>z_client := (z_client z)\<lparr>pr_send_queue := q\<rparr>\<rparr>)"
  by (rule client_ok_step [OF assms(1) cstep_enqueue]) (rule assms(2))

lemma client_ok_done: "client_ok z \<Longrightarrow> client_ok (z\<lparr>z_client := processor_done (z_client z)\<rparr>)"
  using client_ok_step [OF _ cstep_processed] .

lemma client_connection_check:
  assumes "client_connection_ok transform peer cert c" and "cc_task c = Greeting"
  shows "client_connection_ok transform peer cert (consume peer cert answers url timeout (cc_client c))"
proof (cases "get_peer_serial_number cert = Some (pd_node_id peer)")
  case True
  let ?s = "snd (consume_from_queue answers url timeout 0 (pr_send_queue (z_client (cc_client c))) (pr_recv_queue (z_client (cc_client c))))"
  have s: "cs_send ?s = pr_send_queue (z_client (cc_client c))" "cs_recv ?s = pr_recv_queue (z_client (cc_client c))"
    by (simp_all add: consume_from_queue_def consumer_failed_def consumer_new_def split: prod.splits option.splits)
  have "kl_con (con_sys_new ?s) \<in> con_starts (pr_send_queue (z_client (cc_client c))) (pr_recv_queue (z_client (cc_client c)))"
    by (simp add: con_sys_new_def consume_from_queue_starts)
  then have "con_start (con_sys_new ?s)"
    by (rule con_start_intro) (use assms in \<open>simp_all add: con_sys_new_def client_connection_ok_def\<close>)
  then have "con_inv transform (con_sys_new ?s)" by (rule con_inv_start)
  with s assms True show ?thesis
    by (simp add: client_connection_ok_def consume_def client_link_def con_sys_new_def)
next
  case False
  let ?q = "pr_send_queue (z_client (cc_client c))" and ?e = "Stop (Some (ServerError (lit ''Invalid certificate subject.'')))"
  have ok: "client_ok (cc_client c)" "aq_items ?q = []" "aq_put_task ?q = NoPutTask"
    using assms by (simp_all add: client_connection_ok_def)
  obtain xs where xs: "aq_items (terminate_queue ?q ?e) = aq_items ?q @ xs" by (rule exE [OF terminate_queue_items])
  have fut: "aq_future (terminate_queue ?q ?e) = [?e]"
    using ok terminate_queue_future [of ?q ?e] by (simp add: aq_future_def)
  from client_ok_done [OF client_ok_send_queue [OF ok(1) xs]] assms fut False show ?thesis
    by (simp add: client_connection_ok_def consume_def) (simp add: processor_done_def)
qed

lemma client_connection_work:
  assumes "client_connection_ok transform peer cert c" and "cc_task c = Consuming k"
    and "client_conn_step fmt transform (cc_client c, k) (z', k')"
  shows "client_connection_ok transform peer cert \<lparr>cc_client = z', cc_task = Consuming k'\<rparr>"
proof -
  have "client_conn.joint transform (z', k')"
    using client_conn.par_step_parts [of fmt transform "(cc_client c, k)" "(z', k')"] assms
    by (simp add: client_conn_step_def client_conn.joint_def client_connection_ok_def client_ok_def)
  then show ?thesis using assms by (simp add: client_conn.joint_def client_connection_ok_def client_ok_def)
qed

lemma client_connection_step:
  assumes "client_connection_ok transform peer cert c" and "connection_step fmt transform peer cert c c'"
  shows "client_connection_ok transform peer cert c'"
  using assms(2)
proof cases
  case (put_last s)
  obtain xs where "aq_items (run_put_task (pr_send_queue s)) = aq_items (pr_send_queue s) @ xs"
    by (rule exE [OF run_put_task_items])
  with assms(1) put_last client_ok_send_queue [of "cc_client c" "run_put_task (pr_send_queue s)" xs]
  show ?thesis by (simp add: client_connection_ok_def run_put_task_future)
next
  case (ended k)
  with assms(1) client_ok_done show ?thesis
    by (auto simp: client_connection_ok_def client_link_def processor_done_def)
qed (use assms(1) in \<open>auto intro: client_connection_talk client_connection_check client_connection_work\<close>)

interpretation connection_run: inductive_invariant "connection_start peer n" "connection_step fmt transform peer cert"
  "client_connection_ok transform peer cert" for peer n fmt transform cert
  by unfold_locales (rule client_connection_start, assumption, rule client_connection_step)

section \<open>An example\<close>

text \<open>The peer's server has the right certificate and answers; the broker delivers one message.\<close>

lemma connection_talks:
  assumes "(client_own fmt)\<^sup>*\<^sup>* z z'" and "t \<in> {Greeting, Server_refused}"
    and "reaches (connection_start peer n) (connection_step fmt transform peer cert) \<lparr>cc_client = z, cc_task = t\<rparr>"
  shows "reaches (connection_start peer n) (connection_step fmt transform peer cert) \<lparr>cc_client = z', cc_task = t\<rparr>"
  using assms
proof (induction rule: rtranclp_induct)
  case (step z' z'')
  with connection_step.talk [of "\<lparr>cc_client = z', cc_task = t\<rparr>" fmt z'' transform peer cert] show ?case
    by (fastforce intro: reaches_step)
qed

lemma connection_works:
  assumes "(client_conn_step fmt transform)\<^sup>*\<^sup>* p p'"
    and "reaches (connection_start peer n) (connection_step fmt transform peer cert) \<lparr>cc_client = fst p, cc_task = Consuming (snd p)\<rparr>"
  shows "reaches (connection_start peer n) (connection_step fmt transform peer cert) \<lparr>cc_client = fst p', cc_task = Consuming (snd p')\<rparr>"
  using assms
proof (induction rule: rtranclp_induct)
  case (step p' p'')
  with connection_step.work [of "\<lparr>cc_client = fst p', cc_task = Consuming (snd p')\<rparr>" "snd p'" fmt transform "fst p''" "snd p''" peer cert]
  show ?case by (fastforce intro: reaches_step)
qed

text \<open>The connection is made, and the CONNECTED frame \<open>f\<close> is read.\<close>

lemma example_client_made:
  assumes "create_client_protocol peer 4 = Inr p" and "wf_frame (connect_frame p)"
  shows "\<exists>c. client_own fmt \<lparr>z_client = p, z_taken = [], z_sent = [], z_received = [], z_broken = False\<rparr>
      \<lparr>z_client = c, z_taken = [], z_sent = [], z_received = [], z_broken = False\<rparr> \<and>
    pr_transport c \<noteq> None \<and> pr_send_queue c = aq_new 4 \<and> pr_parser c = reset \<and> \<not> pr_done c \<and> \<not> pr_connected c \<and>
    \<not> pr_connection_lost c \<and> pr_start_sending c \<and> c_send_destination c = sc_destination (pd_stomp_config peer) \<and>
    MessageProcessor \<in> pr_tasks c \<and> connect_frame c = connect_frame p \<and> out_of c = [wire (connect_frame p)] \<and>
    \<not> c_sent_disconnect c \<and> aq_items (pr_recv_queue c) = [] \<and> aq_maxsize (pr_recv_queue c) = 0"
proof -
  let ?z0 = "\<lparr>z_client = p, z_taken = [], z_sent = [], z_received = [], z_broken = False\<rparr>"
  have p: "pr_transport p = None" "pr_send_queue p = aq_new 4" "pr_parser p = reset" "\<not> pr_done p" "\<not> pr_connected p"
    "\<not> pr_connection_lost p" "pr_start_sending p" "c_send_destination p = sc_destination (pd_stomp_config peer)"
    "\<not> c_sent_disconnect p" "aq_items (pr_recv_queue p) = []" "aq_maxsize (pr_recv_queue p) = 0"
    using assms(1) by (auto simp: create_client_protocol_def wq_new_def client_init_def proto_init_def aq_new_def proto.defs client.defs
        Let_def split: if_splits)
  let ?c = "base_connection_made 0 True example_transport p"
  have hello: "connect_frame ?c = connect_frame p" "connect_frame (?c\<lparr>pr_transport := t\<rparr>) = connect_frame p" for t
    by (rule connect_frame_cong; simp add: base_connection_made_def Let_def run_callbacks_def add_high_watermark_callback_def
        add_low_watermark_callback_def)+
  obtain t where t: "pr_transport ?c = Some t" "t_out t = []"
    by (simp add: base_connection_made_def Let_def run_callbacks_def add_high_watermark_callback_def
        add_low_watermark_callback_def example_transport_def split: prod.splits)
  let ?c' = "?c\<lparr>pr_transport := Some (t\<lparr>t_out := [wire (connect_frame p)]\<rparr>)\<rparr>"
  have made: "snd (client_connection_made 0 True example_transport p) = ?c'"
    using frame_bytes_wire [OF assms(2)] t by (simp add: client_connection_made_def Let_def hello write_frame_def transport_write_def)
  have "client_own fmt ?z0 (?z0\<lparr>z_client := ?c'\<rparr>)"
    using cstep_made [of ?z0 example_transport fmt 0 True] p(1) by (simp add: made) (simp add: example_transport_def)
  with p hello show ?thesis
    by (intro exI [of _ ?c'])
      (simp add: base_connection_made_def Let_def run_callbacks_def add_high_watermark_callback_def add_low_watermark_callback_def
        out_of_def)
qed

lemma example_client_talk:
  assumes "create_client_protocol peer 4 = Inr p" and "wf_frame (connect_frame p)" and "wf_frame f" and "connected_ok (parsed f)"
  shows "\<exists>z. (client_own fmt)\<^sup>*\<^sup>* \<lparr>z_client = p, z_taken = [], z_sent = [], z_received = [], z_broken = False\<rparr> z \<and>
    client_ready WaitStart (connect_frame p) [wire (connect_frame p)] (wire f) z \<and> pr_send_queue (z_client z) = aq_new 4 \<and>
    aq_items (pr_recv_queue (z_client z)) = [] \<and> aq_maxsize (pr_recv_queue (z_client z)) = 0 \<and>
    MessageProcessor \<in> pr_tasks (z_client z) \<and> c_send_destination (z_client z) = sc_destination (pd_stomp_config peer) \<and> z_sent z = []"
proof -
  let ?z0 = "\<lparr>z_client = p, z_taken = [], z_sent = [], z_received = [], z_broken = False\<rparr>"
  obtain c where own1: "client_own fmt ?z0 (?z0\<lparr>z_client := c\<rparr>)" and
    c: "pr_transport c \<noteq> None" "pr_send_queue c = aq_new 4" "pr_parser c = reset" "\<not> pr_done c" "\<not> pr_connected c"
    "\<not> pr_connection_lost c" "pr_start_sending c" "c_send_destination c = sc_destination (pd_stomp_config peer)"
    "MessageProcessor \<in> pr_tasks c" "connect_frame c = connect_frame p" "out_of c = [wire (connect_frame p)]"
    "\<not> c_sent_disconnect c" "aq_items (pr_recv_queue c) = []" "aq_maxsize (pr_recv_queue c) = 0"
    using example_client_made [OF assms(1,2), of fmt] by auto
  obtain q where q: "add_bytes (wire f) reset = Some (Inr (), q)" "p_frames q = [parsed f]" "idle (q\<lparr>p_frames := []\<rparr>)"
    using idle_reads [OF idle_reset, of "[f]"] assms(3) by auto
  obtain a b where hb: "parse_heartbeat_header (dict_get (lit ''heart-beat'') (lit ''0,0'') (f_headers (parsed f))) = Some (a, b)"
    using assms(4) by (auto simp: connected_ok_def)
  let ?c1 = "(base_data_received 1 c)\<lparr>pr_parser := q\<lparr>p_frames := []\<rparr>\<rparr>"
  define c2 where "c2 = snd (proto_connect client_close_with_error
    (dict_get (lit ''heart-beat'') (lit ''0,0'') (f_headers (parsed f))) ?c1)"
  have c2: "pr_writer c2 = WaitStart" "pr_start_sending c2" "\<not> pr_done c2" "pr_transport c2 = pr_transport c" "pr_connected c2"
    "\<not> pr_connection_lost c2" "\<not> c_sent_disconnect c2" "pr_parser c2 = q\<lparr>p_frames := []\<rparr>"
    "pr_send_queue c2 = aq_new 4" "pr_recv_queue c2 = pr_recv_queue c" "MessageProcessor \<in> pr_tasks c2"
    "c_send_destination c2 = sc_destination (pd_stomp_config peer)"
    using c(2,4,6-9,12) by (simp_all add: c2_def proto_connect_def hb Let_def base_data_received_def)
  have hello: "connect_frame c2 = connect_frame p" unfolding c(10) [symmetric]
    by (rule connect_frame_cong) (simp_all add: c2_def proto_connect_def hb Let_def base_data_received_def)
  have "client_frame (parsed f) ?c1 = (None, c2)"
    using assms(4) c(5) hb by (simp add: client_frame_def received_connected_command_def connected_ok_def c2_def)
      (simp add: base_data_received_def proto_connect_def Let_def)
  then have "client_data_received 1 (wire f) c = Some (None, c2)"
    using c(3,4) q(1,2) c2(3) by (simp add: client_data_received_def Let_def) (simp add: base_data_received_def)
  then have own2: "client_own fmt (?z0\<lparr>z_client := c\<rparr>) (?z0\<lparr>z_client := c2, z_received := wire f\<rparr>)"
    using cstep_data [of "?z0\<lparr>z_client := c\<rparr>" 1 "wire f" None c2 fmt] c(1,6) by simp
  have "client_ready WaitStart (connect_frame p) [wire (connect_frame p)] (wire f) (?z0\<lparr>z_client := c2, z_received := wire f\<rparr>)"
    using c2 c(1,11) q(3) hello by (simp add: client_ready_def out_of_def)
  moreover from own1 own2 have "(client_own fmt)\<^sup>*\<^sup>* ?z0 (?z0\<lparr>z_client := c2, z_received := wire f\<rparr>)"
    by (meson converse_rtranclp_into_rtranclp rtranclp.rtrancl_refl)
  ultimately show ?thesis using c2 c(13,14) by (intro exI [of _ "?z0\<lparr>z_client := c2, z_received := wire f\<rparr>"]) simp
qed

text \<open>A message is delivered, passed on and acknowledged.\<close>

lemma client_delivery_reached:
  assumes p: "create_client_protocol peer 4 = Inr p" and cert: "get_peer_serial_number cert = Some (pd_node_id peer)"
    and rcv: "received_message transform d = Inr m" and t: "py_int 10 (m_id m) = Some t"
    and wf: "wf_frame (connect_frame p)" "wf_frame (send_frame_of (sc_destination (pd_stomp_config peer)) m)" "wf_frame f"
      "wf_frame (receipt_frame (m_id m))" and f: "connected_ok (parsed f)"
  shows "\<exists>c k. reaches (connection_start peer 4) (connection_step fmt transform peer cert) c \<and> cc_task c = Consuming k \<and>
    client_ready WaitStart (connect_frame p) [wire (connect_frame p), wire (send_frame_of (sc_destination (pd_stomp_config peer)) m)]
      (wire f @ wire (receipt_frame (m_id m))) (cc_client c) \<and>
    c_send_destination (z_client (cc_client c)) = sc_destination (pd_stomp_config peer) \<and> z_sent (cc_client c) = [m] \<and>
    kl_delivered k = [d] \<and> kl_acks k = [t]"
proof -
  let ?hello = "connect_frame p" and ?dest = "sc_destination (pd_stomp_config peer)" and ?r = "receipt_frame (m_id m)"
  let ?R = "reaches (connection_start peer 4) (connection_step fmt transform peer cert)"
  obtain z where z: "(client_own fmt)\<^sup>*\<^sup>* \<lparr>z_client = p, z_taken = [], z_sent = [], z_received = [], z_broken = False\<rparr> z"
    "client_ready WaitStart ?hello [wire ?hello] (wire f) z" "pr_send_queue (z_client z) = aq_new 4"
    "aq_items (pr_recv_queue (z_client z)) = []" "aq_maxsize (pr_recv_queue (z_client z)) = 0"
    "MessageProcessor \<in> pr_tasks (z_client z)" "c_send_destination (z_client z) = ?dest" "z_sent z = []"
    using example_client_talk [OF p wf(1,3) f] by blast
  let ?k = "con_sys_new (consumer_new (aq_new 4) (pr_recv_queue (z_client z)))"
  have "?R \<lparr>cc_client = \<lparr>z_client = p, z_taken = [], z_sent = [], z_received = [], z_broken = False\<rparr>, cc_task = Greeting\<rparr>"
    using p by (intro reaches_init) (simp add: connection_start_def)
  from connection_talks [OF z(1) _ this] have "?R \<lparr>cc_client = z, cc_task = Greeting\<rparr>" by simp
  from reaches_step [OF this connection_step.check [where answers = "\<lambda>_. None"]]
  have r1: "?R \<lparr>cc_client = fst (z, ?k), cc_task = Consuming (snd (z, ?k))\<rparr>"
    using z(3,6) cert by (simp add: consume_def consume_from_queue_opened)
  obtain k1 where k1: "(con_own transform)\<^sup>*\<^sup>* ?k k1" "kl_delivered k1 = [d]" "cs_ap (kl_con k1) = AckGet" "kl_acks k1 = []"
    "cs_send (kl_con k1) = (aq_new 4)\<lparr>aq_items := [Payload m], aq_unfinished := 1\<rparr>" "cs_recv (kl_con k1) = pr_recv_queue (z_client z)"
    using one_delivery_own [where transform = transform, OF rcv] by blast
  have "same_queues z ?k" by (simp add: same_queues_def z(3) con_sys_new_def consumer_new_def)
  from con_own_conn [OF k1(1) z(2) this, of fmt] obtain z1 where
    z1: "(client_conn_step fmt transform)\<^sup>*\<^sup>* (z, ?k) (z1, k1)" "client_ready WaitStart ?hello [wire ?hello] (wire f) z1"
    "same_queues z1 k1" "c_send_destination (z_client z1) = ?dest" "z_sent z1 = []"
    using z(7,8) by auto
  have q1: "pr_send_queue (z_client z1) = (aq_new 4)\<lparr>aq_items := [Payload m], aq_unfinished := 1\<rparr>"
    "pr_recv_queue (z_client z1) = pr_recv_queue (z_client z)" using z1(3) k1(5,6) by (simp_all add: same_queues_def)
  have "frame_bytes (send_frame_of (c_send_destination (z_client z1)) m) = Inr (wire (send_frame_of ?dest m))"
    using frame_bytes_wire [OF wf(2)] by (simp add: z1(4))
  from writer_writes_send [OF z1(2) q1(1) this, of fmt] obtain z2 where
    z2: "(client_own fmt)\<^sup>*\<^sup>* z1 z2" "client_ready WaitStart ?hello [wire ?hello, wire (send_frame_of ?dest m)] (wire f) z2"
    "z_sent z2 = [m]" "aq_items (pr_recv_queue (z_client z2)) = []" "aq_maxsize (pr_recv_queue (z_client z2)) = 0"
    "c_send_destination (z_client z2) = ?dest" using z1(4,5) q1(2) z(4,5) by auto
  from reads_receipt [OF z2(2) wf(4) z2(4), of fmt] obtain z3 where
    z3: "client_own fmt z2 z3" "client_ready WaitStart ?hello [wire ?hello, wire (send_frame_of ?dest m)] (wire f @ wire ?r) z3"
    "z_sent z3 = [m]" "aq_items (pr_recv_queue (z_client z3)) = [Some (m_id m)]" "c_send_destination (z_client z3) = ?dest"
    using z2(3,5,6) by auto
  obtain k3 where k3: "(client_conn_step fmt transform)\<^sup>*\<^sup>* (z1, k1) (z3, k3)" "same_queues z3 k3" "kl_delivered k3 = [d]"
    "kl_acks k3 = []" "cs_ap (kl_con k3) = AckGet"
    using client_own_conn [OF rtranclp.rtrancl_into_rtrancl [OF z2(1) z3(1)] z1(3), of transform] k1(2-4) by auto
  have "aq_items (cs_recv (kl_con k3)) = [Some (m_id m)]" using k3(2) z3(4) by (simp add: same_queues_def)
  from acknowledges [OF k3(5) this t, of transform] obtain k4 where
    k4: "con_own transform k3 k4" "kl_acks k4 = [t]" "kl_delivered k4 = [d]" using k3(3,4) by auto
  from con_own_conn [OF r_into_rtranclp [of "con_own transform", OF k4(1)] z3(2) k3(2), of fmt] obtain z4 where
    z4: "(client_conn_step fmt transform)\<^sup>*\<^sup>* (z3, k3) (z4, k4)"
    "client_ready WaitStart ?hello [wire ?hello, wire (send_frame_of ?dest m)] (wire f @ wire ?r) z4"
    "c_send_destination (z_client z4) = ?dest" "z_sent z4 = [m]" using z3(3,5) by auto
  from connection_works [OF rtranclp_trans [OF z1(1) rtranclp_trans [OF k3(1) z4(1)]] r1]
  have "?R \<lparr>cc_client = z4, cc_task = Consuming k4\<rparr>" by simp
  with z4(2-4) k4(2,3) show ?thesis by (intro exI [of _ "\<lparr>cc_client = z4, cc_task = Consuming k4\<rparr>"]) simp
qed

end
