(* ===== verification/Startup.thy ===== *)
theory Startup
  imports Server Client
begin

text \<open>
  How the two processes start: \<^verbatim>\<open>serve\<close> of \<^verbatim>\<open>swpt_stomp/server.py\<close> up to \<^verbatim>\<open>serve_forever\<close>, and \<^verbatim>\<open>connect\<close>
  of \<^verbatim>\<open>swpt_stomp/client.py\<close> up to the connection. Both read the database, make a TLS context and call
  the event loop; \<^verbatim>\<open>serve\<close> also opens a channel of the broker. The calls of the packages \<^verbatim>\<open>ssl\<close>,
  \<^verbatim>\<open>asyncio\<close>, \<^verbatim>\<open>tempfile\<close> and \<^verbatim>\<open>aio_pika\<close> are values, in the order in which they are made; an argument says
  which of them raise. What runs after that is in the theories of the two processes.
\<close>

declare lit_simps [simp del]

section \<open>TLS contexts and calls\<close>

datatype verify_mode = CERT_NONE | CERT_REQUIRED
datatype tls_version = MINIMUM_SUPPORTED | TLSv1_3

text \<open>
  \<^verbatim>\<open>ssl.SSLContext\<close>, with the defaults that depend on the side it is for. The certificate chain is the
  content of a file, and the path of the file with the key.
\<close>

record 'f tls_context =
  tls_server_side :: bool
  tls_verify_mode :: verify_mode
  tls_check_hostname :: bool
  tls_minimum_version :: tls_version
  tls_cadata :: str
  tls_certfile :: 'f
  tls_keyfile :: str

definition PROTOCOL_TLS_SERVER :: "'f \<Rightarrow> 'f tls_context" where
  "PROTOCOL_TLS_SERVER f = \<lparr>tls_server_side = True, tls_verify_mode = CERT_NONE, tls_check_hostname = False,
     tls_minimum_version = MINIMUM_SUPPORTED, tls_cadata = [], tls_certfile = f, tls_keyfile = []\<rparr>"

definition PROTOCOL_TLS_CLIENT :: "'f \<Rightarrow> 'f tls_context" where
  "PROTOCOL_TLS_CLIENT f = \<lparr>tls_server_side = False, tls_verify_mode = CERT_REQUIRED, tls_check_hostname = True,
     tls_minimum_version = MINIMUM_SUPPORTED, tls_cadata = [], tls_certfile = f, tls_keyfile = []\<rparr>"

text \<open>The server names its certificate by a path; the client has the content of a temporary file.\<close>

datatype start_call =
    Broker rmq_call
  | Close_broker_channel
  | Load_verify_locations str
  | Load_cert_chain str str
  | Load_temporary_chain bytes str
  | Create_server int int "str tls_context" rat
  | Create_temporary_file
  | Write_temporary_file bytes
  | Remove_temporary_file
  | Create_connection str int "bytes tls_context" rat

datatype start_error =
    StartRaises exc
  | StartDatabase "db_error + exc"
  | PeerUnknown str
  | StartCallFails

text \<open>A coroutine that makes these calls.\<close>

type_synonym 'a started = "(start_call, start_error, 'a) calling"

section \<open>The server\<close>

definition server_context ::
  "(start_call \<Rightarrow> start_error option) \<Rightarrow> node_data \<Rightarrow> str \<Rightarrow> str \<Rightarrow> str tls_context started" where
  "server_context answers owner_node_data server_cert server_key =
     (let ctx = (PROTOCOL_TLS_SERVER [])\<lparr>tls_verify_mode := CERT_REQUIRED, tls_minimum_version := TLSv1_3\<rparr> in
      andthen (value_of (map_sum StartRaises id (ascii_decode (nd_root_cert owner_node_data)))) (\<lambda>cadata.
      andthen (call answers (Load_verify_locations cadata)) (\<lambda>_.
      andthen (call answers (Load_cert_chain (normpath server_cert) (normpath server_key))) (\<lambda>_.
        value_of (Inr (ctx\<lparr>tls_cadata := cadata, tls_certfile := normpath server_cert,
                           tls_keyfile := normpath server_key\<rparr>))))))"

text \<open>The channel that all publishers of the process share.\<close>

definition broker_channel :: "(start_call \<Rightarrow> start_error option) \<Rightarrow> str \<Rightarrow> rat \<Rightarrow> unit started" where
  "broker_channel answers url timeout =
     (let (calls, failed) = open_robust_channel (\<lambda>c. answers (Broker c)) url timeout in
      (map Broker calls, case failed of None \<Rightarrow> Inr () | Some e \<Rightarrow> Inl e))"

text \<open>
  The port is open and connections are served until the process is stopped; the channel and its
  connection are closed however this ends.
\<close>

definition serve_port :: "(start_call \<Rightarrow> start_error option) \<Rightarrow> int \<Rightarrow> int \<Rightarrow> str tls_context \<Rightarrow> rat \<Rightarrow> unit started" where
  "serve_port answers server_port server_backlog ctx ssl_handshake_timeout =
     leaving (call answers (Create_server server_port server_backlog ctx ssl_handshake_timeout))
       [Close_broker_channel, Broker Close_connection]"

text \<open>\<^verbatim>\<open>serve\<close>: a value is the data of the node and the TLS context that the port was opened with.\<close>

definition serve ::
  "file_system \<Rightarrow> (start_call \<Rightarrow> start_error option) \<Rightarrow> int \<Rightarrow> py_float \<Rightarrow> int \<Rightarrow> str \<Rightarrow> str \<Rightarrow> int \<Rightarrow> str \<Rightarrow> str \<Rightarrow>
   int \<Rightarrow> rat \<Rightarrow> rat \<Rightarrow> (node_data \<times> str tls_context) started" where
  "serve fs answers APP_MAX_CACHED_PEERS APP_PEERS_CACHE_SECONDS APP_FILE_READ_THREADS
     server_cert server_key server_port nodedata_url protocol_broker_url server_backlog
     ssl_handshake_timeout connection_timeout =
     andthen (value_of (map_sum StartRaises id (get_database_instance (Some nodedata_url) None None None
        APP_MAX_CACHED_PEERS APP_PEERS_CACHE_SECONDS APP_FILE_READ_THREADS))) (\<lambda>(root_dir, db).
     andthen (value_of (map_sum (StartDatabase \<circ> Inl) id (fst (get_node_data fs root_dir db)))) (\<lambda>owner_node_data.
     andthen (broker_channel answers protocol_broker_url connection_timeout) (\<lambda>_.
     andthen (server_context answers owner_node_data server_cert server_key) (\<lambda>ctx.
     andthen (serve_port answers server_port server_backlog ctx ssl_handshake_timeout) (\<lambda>_.
       value_of (Inr (owner_node_data, ctx)))))))"

section \<open>The client\<close>

text \<open>The temporary file with the certificate of the node and the one that the peer has issued for it.\<close>

definition certfile_content :: "bytes \<Rightarrow> peer_data \<Rightarrow> bytes" where
  "certfile_content server_cert peer_data = server_cert @ [CHR 0x0A] @ pd_sub_cert peer_data"

text \<open>\<^verbatim>\<open>random.choice\<close>: the element at a random position; an empty sequence raises \<^verbatim>\<open>IndexError\<close>.\<close>

definition random_choice :: "nat \<Rightarrow> 'a list \<Rightarrow> exc + 'a" where
  "random_choice random xs = (if xs = [] then Inl IndexError else Inr (xs ! (random mod length xs)))"

definition client_context ::
  "(start_call \<Rightarrow> start_error option) \<Rightarrow> peer_data \<Rightarrow> bytes \<Rightarrow> str \<Rightarrow> bytes tls_context started" where
  "client_context answers peer_data certfile server_key =
     (let ctx = (PROTOCOL_TLS_CLIENT [])\<lparr>tls_verify_mode := CERT_REQUIRED, tls_check_hostname := False,
                  tls_minimum_version := TLSv1_3\<rparr> in
      andthen (value_of (map_sum StartRaises id (ascii_decode (pd_root_cert peer_data)))) (\<lambda>cadata.
      andthen (call answers (Load_verify_locations cadata)) (\<lambda>_.
      andthen (call answers (Load_temporary_chain certfile (normpath server_key))) (\<lambda>_.
        value_of (Inr (ctx\<lparr>tls_cadata := cadata, tls_certfile := certfile, tls_keyfile := normpath server_key\<rparr>))))))"

definition connect_peer ::
  "file_system \<Rightarrow> (start_call \<Rightarrow> start_error option) \<Rightarrow> nat \<Rightarrow> str \<Rightarrow> str \<Rightarrow> rat \<Rightarrow> peer_data \<Rightarrow> peer_data started" where
  "connect_peer fs answers random server_cert server_key ssl_handshake_timeout peer_data =
     andthen (call answers Create_temporary_file) (\<lambda>_.
       leaving
         (andthen (value_of (map_sum StartRaises id (fs_read fs (normpath server_cert)))) (\<lambda>cert.
          andthen (call answers (Write_temporary_file (certfile_content cert peer_data))) (\<lambda>_.
          andthen (client_context answers peer_data (certfile_content cert peer_data) server_key) (\<lambda>ctx.
          andthen (value_of (map_sum StartRaises id (random_choice random (sc_servers (pd_stomp_config peer_data)))))
            (\<lambda>(server_host, server_port).
          andthen (call answers (Create_connection server_host server_port ctx ssl_handshake_timeout)) (\<lambda>_.
            value_of (Inr peer_data)))))))
         [Remove_temporary_file])"

definition connect ::
  "file_system \<Rightarrow> tomli \<Rightarrow> rat \<Rightarrow> rat \<Rightarrow> (start_call \<Rightarrow> start_error option) \<Rightarrow> nat \<Rightarrow> int \<Rightarrow> py_float \<Rightarrow> int \<Rightarrow> str \<Rightarrow> str \<Rightarrow> str \<Rightarrow>
   str \<Rightarrow> rat \<Rightarrow> (node_data \<times> peer_data) started" where
  "connect fs loads now later answers random APP_MAX_CACHED_PEERS APP_PEERS_CACHE_SECONDS APP_FILE_READ_THREADS
     peer_node_id server_cert server_key nodedata_url ssl_handshake_timeout =
     andthen (value_of (map_sum StartRaises id (get_database_instance (Some nodedata_url) None None None
        APP_MAX_CACHED_PEERS APP_PEERS_CACHE_SECONDS APP_FILE_READ_THREADS))) (\<lambda>(root_dir, db).
     case get_node_data fs root_dir db of (node_data_result, db) \<Rightarrow>
     andthen (value_of (map_sum (StartDatabase \<circ> Inl) id node_data_result)) (\<lambda>owner_node_data.
     case get_peer_data fs loads root_dir now later peer_node_id True db of (peer_data_result, db) \<Rightarrow>
     andthen (value_of (map_sum StartDatabase id peer_data_result)) (\<lambda>found.
       case found of
         None \<Rightarrow> value_of (Inl (PeerUnknown peer_node_id))
       | Some peer_data \<Rightarrow>
           andthen (connect_peer fs answers random server_cert server_key ssl_handshake_timeout peer_data) (\<lambda>_.
             value_of (Inr (owner_node_data, peer_data))))))"

section \<open>What the processes are started with\<close>

lemma started_database:
  assumes "get_database_instance (Some url) None None None A B C = Inr (root_dir, db)"
  shows "db_node_data db = None" and "db_peers db = []"
  using assms by (auto simp: get_database_instance_def local_directory_init_def peers_db_init_def bindE_eq_Inr_conv
      split: if_splits)

text \<open>A peer that a new database gives is the one that was asked for, as its files describe it.\<close>

lemma started_peer:
  assumes db: "get_database_instance (Some url) None None None A B C = Inr (root_dir, db)"
    and "fst (get_node_data fs root_dir db) = Inr owner"
    and "fst (get_peer_data fs loads root_dir now later node_id True (snd (get_node_data fs root_dir db))) = Inr (Some peer)"
  shows "pd_node_id peer = node_id \<and> pd_is_active peer \<and> peer_ok owner peer"
proof -
  let ?db = "snd (get_node_data fs root_dir db)"
  have ok: "db_ok db" using started_database(1) [OF db] by (simp add: db_ok_def)
  have nd: "get_node_data fs root_dir db = (Inr owner, ?db)" using assms(2) by (metis prod.collapse)
  note db' = get_node_data_ok [OF nd ok]
  have "get_stored_peer_data now node_id ?db = None"
    using db'(4) started_database(2) [OF db] by (simp add: get_stored_peer_data_def)
  then obtain db'' where r: "run_co fs (dir_get_peer_data loads root_dir node_id True) ?db = (Inr (Some peer), db'')"
    using assms(3) by (auto simp: get_peer_data_def peer_data_read_def split: prod.splits sum.splits option.splits if_splits)
  have "db_node_data ?db = Some owner" "node_ok owner" using db'(2) by simp_all
  from run_peer_data_known [OF r this] show ?thesis by simp
qed

lemma server_context_value:
  assumes "snd (server_context answers owner server_cert server_key) = Inr ctx"
  shows "tls_server_side ctx \<and> tls_verify_mode ctx = CERT_REQUIRED \<and> tls_minimum_version ctx = TLSv1_3 \<and>
    ascii_decode (nd_root_cert owner) = Inr (tls_cadata ctx) \<and>
    tls_certfile ctx = normpath server_cert \<and> tls_keyfile ctx = normpath server_key"
  using assms by (cases "ascii_decode (nd_root_cert owner)")
    (auto simp: server_context_def PROTOCOL_TLS_SERVER_def andthen_value)

lemma client_context_value:
  assumes "snd (client_context answers peer certfile server_key) = Inr ctx"
  shows "\<not> tls_server_side ctx \<and> tls_verify_mode ctx = CERT_REQUIRED \<and> tls_minimum_version ctx = TLSv1_3 \<and>
    ascii_decode (pd_root_cert peer) = Inr (tls_cadata ctx) \<and>
    tls_certfile ctx = certfile \<and> tls_keyfile ctx = normpath server_key"
  using assms by (cases "ascii_decode (pd_root_cert peer)")
    (auto simp: client_context_def PROTOCOL_TLS_CLIENT_def andthen_value)

lemma context_calls [simp]:
  "Create_server p b c t \<notin> set (fst (server_context answers owner server_cert server_key))"
  "Create_connection h p c' t \<notin> set (fst (client_context answers peer certfile server_key))"
  by (auto simp: server_context_def client_context_def andthen_calls)

lemma broker_channel_calls [simp]: "Create_server p b c t \<notin> set (fst (broker_channel answers url timeout))"
  by (auto simp: broker_channel_def split: prod.splits)

text \<open>The channel is there, with publisher confirms, and with an exception for a message that cannot be routed.\<close>

lemma broker_channel_value:
  assumes "snd (broker_channel answers url timeout) = Inr u"
  shows "answers (Broker (Connect_robust url timeout)) = None \<and> answers (Broker (Open_channel True True timeout)) = None"
  using assms by (auto simp: broker_channel_def open_robust_channel_def split: option.splits prod.splits)

lemma random_choice_in: "random_choice i xs = Inr x \<Longrightarrow> x \<in> set xs"
  by (auto simp: random_choice_def split: if_splits)

text \<open>What is known when a port is opened, and when a connection is made.\<close>

lemma serve_opens:
  assumes "Create_server p b ctx t \<in> set (fst (serve fs answers A B C server_cert server_key server_port nodedata_url
      broker_url server_backlog handshake_timeout connection_timeout))"
  obtains root_dir db owner u where "get_database_instance (Some nodedata_url) None None None A B C = Inr (root_dir, db)"
    and "fst (get_node_data fs root_dir db) = Inr owner"
    and "snd (broker_channel answers broker_url connection_timeout) = Inr u"
    and "snd (server_context answers owner server_cert server_key) = Inr ctx"
    and "p = server_port" "b = server_backlog" "t = handshake_timeout"
  using assms by (auto simp: serve_def serve_port_def andthen_calls)

lemma connect_reaches:
  assumes "Create_connection host port ctx t \<in> set (fst (connect fs loads now later answers random A B C peer_node_id
      server_cert server_key nodedata_url handshake_timeout))"
  obtains root_dir db owner peer where "get_database_instance (Some nodedata_url) None None None A B C = Inr (root_dir, db)"
    and "fst (get_node_data fs root_dir db) = Inr owner"
    and "fst (get_peer_data fs loads root_dir now later peer_node_id True (snd (get_node_data fs root_dir db))) = Inr (Some peer)"
    and "Create_connection host port ctx t \<in> set (fst (connect_peer fs answers random server_cert server_key handshake_timeout peer))"
  using assms by (auto simp: connect_def andthen_calls case_prod_beta split: option.splits)

lemma connect_peer_reaches:
  assumes "Create_connection host port ctx t \<in> set (fst (connect_peer fs answers random server_cert server_key handshake_timeout peer))"
  obtains cert where "answers Create_temporary_file = None" and "fs_read fs (normpath server_cert) = Inr cert"
    and "snd (client_context answers peer (certfile_content cert peer) server_key) = Inr ctx"
    and "random_choice random (sc_servers (pd_stomp_config peer)) = Inr (host, port)"
  using assms by (auto simp: connect_peer_def andthen_calls)

text \<open>
  C15: The port of the server is opened only for TLS 1.3 with certificates that the root certificate
  of the node's own database has issued: whatever the calls before it do, \<^verbatim>\<open>create_server\<close> gets a
  context that requires and verifies a certificate of the client, and by then a channel of the broker
  with publisher confirms is open.
\<close>

theorem serve_authenticated:
  assumes "Create_server p b ctx t \<in> set (fst (serve fs answers A B C server_cert server_key server_port nodedata_url
      broker_url server_backlog handshake_timeout connection_timeout))"
  shows "p = server_port \<and> b = server_backlog \<and> t = handshake_timeout \<and>
    tls_server_side ctx \<and> tls_verify_mode ctx = CERT_REQUIRED \<and> tls_minimum_version ctx = TLSv1_3 \<and>
    tls_certfile ctx = normpath server_cert \<and> tls_keyfile ctx = normpath server_key \<and>
    (\<exists>root_dir db owner. get_database_instance (Some nodedata_url) None None None A B C = Inr (root_dir, db) \<and>
       fst (get_node_data fs root_dir db) = Inr owner \<and> node_ok owner \<and>
       ascii_decode (nd_root_cert owner) = Inr (tls_cadata ctx)) \<and>
    answers (Broker (Connect_robust broker_url connection_timeout)) = None \<and>
    answers (Broker (Open_channel True True connection_timeout)) = None"
proof -
  obtain root_dir db owner u where db: "get_database_instance (Some nodedata_url) None None None A B C = Inr (root_dir, db)"
    and nd: "fst (get_node_data fs root_dir db) = Inr owner"
    and ch: "snd (broker_channel answers broker_url connection_timeout) = Inr u"
    and ctx: "snd (server_context answers owner server_cert server_key) = Inr ctx"
    and args: "p = server_port" "b = server_backlog" "t = handshake_timeout"
    by (rule serve_opens [OF assms])
  have "node_ok owner"
    using get_node_data_ok(2) [of fs root_dir db "Inr owner"] nd started_database(1) [OF db]
    by (metis db_ok_def option.distinct(1) prod.collapse)
  with db nd args server_context_value [OF ctx] broker_channel_value [OF ch] show ?thesis by blast
qed

theorem serve_authenticated_witness:
  "\<exists>ctx. Create_server 1234 100 ctx 5 \<in> set (fst (serve example_fs (\<lambda>_. None) 10 (Finite 600) 4 (lit ''/a/../c'') (lit ''/k'') 1234
       (lit ''file:///d'') [] 100 5 20)) \<and> tls_verify_mode ctx = CERT_REQUIRED"
proof -
  let ?calls = "fst (serve example_fs (\<lambda>_. None) 10 (Finite 600) 4 (lit ''/a/../c'') (lit ''/k'') 1234 (lit ''file:///d'') [] 100 5 20)"
  have "case rev ?calls of _ # _ # Create_server p b ctx t # _ \<Rightarrow> p = 1234 \<and> b = 100 \<and> t = 5 | _ \<Rightarrow> False"
    by code_simp
  then obtain ctx where "Create_server 1234 100 ctx 5 \<in> set ?calls"
    by (auto split: list.splits start_call.splits simp: in_set_conv_decomp)
  from serve_authenticated [OF this] this show ?thesis by blast
qed

text \<open>
  C14: The client connects only to a server of the configuration of the peer that was asked for, and
  only for TLS 1.3 with a certificate that the root certificate of that peer has issued. It shows the
  certificate of the node followed by the one that the peer has issued for it, and the temporary file
  with both is removed at the end.
\<close>

theorem connect_authenticated:
  assumes "Create_connection host port ctx t \<in> set (fst (connect fs loads now later answers random A B C peer_node_id
      server_cert server_key nodedata_url handshake_timeout))" (is "_ \<in> set ?calls")
  shows "\<exists>root_dir db owner peer cert. get_database_instance (Some nodedata_url) None None None A B C = Inr (root_dir, db) \<and>
    fst (get_node_data fs root_dir db) = Inr owner \<and>
    fst (get_peer_data fs loads root_dir now later peer_node_id True (snd (get_node_data fs root_dir db))) = Inr (Some peer) \<and>
    pd_node_id peer = peer_node_id \<and> pd_is_active peer \<and> peer_ok owner peer \<and>
    (host, port) \<in> set (sc_servers (pd_stomp_config peer)) \<and>
    \<not> tls_server_side ctx \<and> tls_verify_mode ctx = CERT_REQUIRED \<and> tls_minimum_version ctx = TLSv1_3 \<and>
    ascii_decode (pd_root_cert peer) = Inr (tls_cadata ctx) \<and>
    fs_read fs (normpath server_cert) = Inr cert \<and> tls_certfile ctx = cert @ [NL] @ pd_sub_cert peer \<and>
    tls_keyfile ctx = normpath server_key \<and> last ?calls = Remove_temporary_file"
proof -
  obtain root_dir db owner peer where db: "get_database_instance (Some nodedata_url) None None None A B C = Inr (root_dir, db)"
    and nd: "fst (get_node_data fs root_dir db) = Inr owner"
    and peer: "fst (get_peer_data fs loads root_dir now later peer_node_id True (snd (get_node_data fs root_dir db))) = Inr (Some peer)"
    and c: "Create_connection host port ctx t \<in> set (fst (connect_peer fs answers random server_cert server_key handshake_timeout peer))"
    by (rule connect_reaches [OF assms])
  obtain cert where temp: "answers Create_temporary_file = None" and cert: "fs_read fs (normpath server_cert) = Inr cert"
    and ctx: "snd (client_context answers peer (certfile_content cert peer) server_key) = Inr ctx"
    and choice: "random_choice random (sc_servers (pd_stomp_config peer)) = Inr (host, port)"
    by (rule connect_peer_reaches [OF c])
  have "last (fst (connect_peer fs answers random server_cert server_key handshake_timeout peer)) = Remove_temporary_file"
    unfolding connect_peer_def using temp by (subst andthen_fst) simp_all
  moreover have "fst (connect_peer fs answers random server_cert server_key handshake_timeout peer) \<noteq> []" using c by auto
  ultimately have "last ?calls = Remove_temporary_file"
    using db nd peer by (simp add: connect_def case_prod_beta andthen_fst andthen_quiet)
  with db nd peer started_peer [OF db nd peer] random_choice_in [OF choice] client_context_value [OF ctx] cert
  show ?thesis by (simp add: certfile_content_def)
qed

theorem connect_authenticated_witness:
  "\<exists>ctx. Create_connection (lit ''a-b.com'') 1234 ctx 5 \<in> set (fst (connect example_fs example_tomli 0 0 (\<lambda>_. None) 7 10 (Finite 600) 4
       (lit ''5678'') (lit ''/d/root-ca.crt'') (lit ''/k'') (lit ''file:///d'') 5)) \<and> tls_verify_mode ctx = CERT_REQUIRED"
proof -
  let ?calls = "fst (connect example_fs example_tomli 0 0 (\<lambda>_. None) 7 10 (Finite 600) 4
       (lit ''5678'') (lit ''/d/root-ca.crt'') (lit ''/k'') (lit ''file:///d'') 5)"
  have "case rev ?calls of _ # Create_connection h p ctx t # _ \<Rightarrow> h = lit ''a-b.com'' \<and> p = 1234 \<and> t = 5 | _ \<Rightarrow> False"
    by code_simp
  then obtain ctx where "Create_connection (lit ''a-b.com'') 1234 ctx 5 \<in> set ?calls"
    by (auto split: list.splits start_call.splits simp: in_set_conv_decomp)
  from connect_authenticated [OF this] this show ?thesis by blast
qed

end
