(* ===== verification/Wire.thy ===== *)
theory Wire
  imports Server_Connection Client_Connection
begin

text \<open>
  What the two protocols have made of the bytes that they received. When these are the beginning of a
  stream of well-formed frames, the messages in the receive queue of the server are those of the SEND
  frames in the stream, in order and none left out, and every receipt in the receive queue of the
  client is in a RECEIPT frame of the stream. Chunks may end anywhere, the last frame may be cut, and
  the connection may end at any time, by either side or by an exception.
\<close>

declare lit_simps [simp del]

section \<open>Frames handled one by one\<close>

text \<open>The parser is in step with what is left of the stream.\<close>

definition in_step :: "bytes \<Rightarrow> stomp_frame list \<Rightarrow> ('u, 'v, 'x) proto_scheme \<Rightarrow> bool" where
  "in_step rest todo s \<longleftrightarrow> p_frames (pr_parser s) = [] \<and>
     (\<exists>cur items. tracks (pr_parser s) rest cur items \<and> pending cur items = todo)"

text \<open>
  The interface between \<^verbatim>\<open>data_received\<close> and the handlers of the frames. \<open>effect fs s s'\<close> says what it
  means that the frames \<open>fs\<close> have been handled between two states: a frame is handled, or the
  connection is closed, or an exception is raised.
\<close>

locale stream_handler =
  fixes frame :: "rat \<Rightarrow> stomp_frame \<Rightarrow> ('u, 'v, 'x) proto_scheme \<Rightarrow> ('u, 'v, 'x) proto_scheme res"
    and frames :: "rat \<Rightarrow> stomp_frame list \<Rightarrow> ('u, 'v, 'x) proto_scheme \<Rightarrow> ('u, 'v, 'x) proto_scheme res"
    and data_received :: "rat \<Rightarrow> bytes \<Rightarrow> ('u, 'v, 'x) proto_scheme \<Rightarrow> ('u, 'v, 'x) proto_scheme res option"
    and effect :: "stomp_frame list \<Rightarrow> ('u, 'v, 'x) proto_scheme \<Rightarrow> ('u, 'v, 'x) proto_scheme \<Rightarrow> bool"
  assumes frames_Nil: "frames now [] s = (None, s)"
    and frames_Cons: "frames now (f # fs) s = thenE (frame now f (s\<lparr>pr_parser := (pr_parser s)\<lparr>p_frames := fs\<rparr>\<rparr>))
      (\<lambda>s. if pr_done s then (None, s) else frames now fs s)"
    and received: "\<not> pr_done s \<Longrightarrow> add_bytes d (pr_parser s) = Some (Inr (), p) \<Longrightarrow>
      data_received now d s = Some (frames now (p_frames p) ((base_data_received now s)\<lparr>pr_parser := p\<rparr>))"
    and ignored: "pr_done s \<Longrightarrow> data_received now d s = Some (None, base_data_received now s)"
    and effect_same: "effect [] s (s\<lparr>pr_parser := p\<rparr>)" "effect [] s (base_data_received now s)" "effect [] s (abort s)"
    and effect_trans: "effect fs s s' \<Longrightarrow> effect gs s' s'' \<Longrightarrow> effect (fs @ gs) s s''"
    and handled: "frame now f s = (e, s') \<Longrightarrow> pr_parser s' = pr_parser s \<and>
      (effect [f] s s' \<or> effect [] s s' \<and> (e \<noteq> None \<or> pr_done s'))"
begin

lemma frames_effect:
  assumes "frames now fs s = (e, s')"
  shows "\<exists>hs rest. fs = hs @ rest \<and> effect hs s s' \<and>
    (e = None \<and> \<not> pr_done s' \<longrightarrow> hs = fs \<and> (fs \<noteq> [] \<longrightarrow> pr_parser s' = (pr_parser s)\<lparr>p_frames := []\<rparr>))"
  using assms
proof (induction fs arbitrary: s)
  case Nil
  then have "s' = s" by (simp add: frames_Nil)
  with effect_same(1) [of s "pr_parser s"] show ?case by simp
next
  case (Cons f fs)
  let ?s = "s\<lparr>pr_parser := (pr_parser s)\<lparr>p_frames := fs\<rparr>\<rparr>"
  obtain e1 s1 where s1: "frame now f ?s = (e1, s1)" by (cases "frame now f ?s")
  have p1: "pr_parser s1 = (pr_parser s)\<lparr>p_frames := fs\<rparr>" using handled [OF s1] by simp
  have eff: "effect hs s s1" if "effect hs ?s s1" for hs
    using effect_trans [OF effect_same(1) that] by simp
  show ?case
  proof (cases "e1 = None \<and> \<not> pr_done s1")
    case True
    with Cons.prems s1 have "frames now fs s1 = (e, s')" by (simp add: frames_Cons)
    from Cons.IH [OF this] obtain hs rest where IH: "fs = hs @ rest" "effect hs s1 s'"
      "e = None \<and> \<not> pr_done s' \<longrightarrow> hs = fs \<and> (fs \<noteq> [] \<longrightarrow> pr_parser s' = (pr_parser s1)\<lparr>p_frames := []\<rparr>)"
      by (elim exE conjE) (rule that)
    have "effect [f] s s1" using handled [OF s1] True eff by auto
    from effect_trans [OF this IH(2)] have eff': "effect (f # hs) s s'" by simp
    have parser: "pr_parser s' = (pr_parser s)\<lparr>p_frames := []\<rparr>" if "e = None \<and> \<not> pr_done s'"
    proof (cases "fs = []")
      case True
      with \<open>frames now fs s1 = (e, s')\<close> p1 show ?thesis by (simp add: frames_Nil)
    next
      case False
      with IH(3) that p1 show ?thesis by simp
    qed
    show ?thesis
    proof (intro exI conjI impI)
      show "f # fs = (f # hs) @ rest" using IH(1) by simp
      show "effect (f # hs) s s'" by (rule eff')
      show "f # hs = f # fs" "pr_parser s' = (pr_parser s)\<lparr>p_frames := []\<rparr>" if "e = None \<and> \<not> pr_done s'"
        using IH(3) that parser [OF that] by simp_all
    qed
  next
    case False
    then have stop: "s' = s1" "e \<noteq> None \<or> pr_done s'"
      using Cons.prems s1 by (cases e1; auto simp: frames_Cons split: if_splits)+
    from handled [OF s1] eff consider "effect [f] s s1" | "effect [] s s1" by blast
    then show ?thesis
    proof cases
      case 1
      with stop show ?thesis by (intro exI [of _ "[f]"] exI [of _ fs]) auto
    next
      case 2
      with stop show ?thesis by (intro exI [of _ "[]"] exI [of _ "f # fs"]) auto
    qed
  qed
qed

lemma data_effect:
  assumes "in_step (d @ rest) todo s" and "\<not> pr_done s" and "data_received now d s = Some (e, s')"
  shows "\<exists>hs todo'. todo = hs @ todo' \<and> effect hs s s' \<and> (e = None \<and> \<not> pr_done s' \<longrightarrow> in_step rest todo' s')"
proof -
  obtain cur items where t: "tracks (pr_parser s) (d @ rest) cur items" "pending cur items = todo" "p_frames (pr_parser s) = []"
    using assms(1) by (auto simp: in_step_def)
  from add_bytes_tracks [OF t(1)] obtain p cur' items' where p: "add_bytes d (pr_parser s) = Some (Inr (), p)"
    "tracks p rest cur' items'" "p_frames p @ pending cur' items' = todo" using t(2,3) by auto
  let ?s = "(base_data_received now s)\<lparr>pr_parser := p\<rparr>"
  have run: "frames now (p_frames p) ?s = (e, s')" using received [OF assms(2) p(1)] assms(3) by simp
  from frames_effect [OF run] obtain hs rest' where hs: "p_frames p = hs @ rest'" "effect hs ?s s'"
    "e = None \<and> \<not> pr_done s' \<longrightarrow> hs = p_frames p \<and> (p_frames p \<noteq> [] \<longrightarrow> pr_parser s' = (pr_parser ?s)\<lparr>p_frames := []\<rparr>)"
    by (elim exE conjE) (rule that)
  have "effect hs s s'"
    using effect_trans [OF effect_trans [OF effect_same(2) effect_same(1)] hs(2)] by simp
  moreover have "in_step rest (pending cur' items') s'" if "e = None \<and> \<not> pr_done s'"
  proof -
    have "pr_parser s' = p\<lparr>p_frames := []\<rparr>"
      using hs(3) that run by (cases "p_frames p = []") (auto simp: frames_Nil)
    with p(2) show ?thesis unfolding in_step_def
      by (intro conjI exI [of _ cur'] exI [of _ items']; cases cur') (simp_all add: unread_def)
  qed
  moreover have "rest' = []" if "e = None \<and> \<not> pr_done s'" using hs(1,3) that by (metis append_self_conv)
  ultimately show ?thesis using p(3) unfolding hs(1) by (intro exI [of _ hs] exI [of _ "rest' @ pending cur' items'"]) auto
qed

end

section \<open>Handlers that neither read nor receive\<close>

text \<open>The state of the parser and of the receive queue is kept, and a closed connection stays closed.\<close>

definition still :: "('u, 'v, 'x) proto_scheme \<Rightarrow> ('u, 'v, 'x) proto_scheme \<Rightarrow> bool" where
  "still s s' \<longleftrightarrow> pr_parser s' = pr_parser s \<and> grows [] s s' \<and> (pr_done s \<longrightarrow> pr_done s')"

lemma still_refl [simp]: "still s s"
  by (simp add: still_def grows_def)

lemma still_trans: "still s s' \<Longrightarrow> still s' s'' \<Longrightarrow> still s s''"
  by (auto simp: still_def grows_def)

lemma still_thenE: "still s (snd r) \<Longrightarrow> (\<And>s. still s (snd (k s))) \<Longrightarrow> still s (snd (thenE r k))"
  by (rule thenE_inv [where P = "still s"]) (blast intro: still_trans)+

lemma still_basic [simp]:
  "still s (snd (write_frame f s))" "still s (snd (proto_close s))" "still s (abort s)"
  "still s (end_writer s)" "still s (end_watchdog s)" "still s (base_data_received now s)"
  by (simp_all add: still_def grows_Nil write_frame_def transport_write_def proto_close_def abort_def end_writer_def
      end_watchdog_def base_data_received_def split: option.splits sum.splits)

lemma close_done: "fst (proto_close s) \<noteq> None \<or> pr_done (snd (proto_close s))"
  by (simp add: proto_close_def split: option.splits)

lemma thenE_close_done: "fst (thenE r proto_close) \<noteq> None \<or> pr_done (snd (thenE r proto_close))"
  using close_done by (cases r; cases "fst r") auto

text \<open>A step of the protocol that is not a call of \<^verbatim>\<open>data_received\<close>.\<close>

definition calm :: "('u, 'v, 'x) proto_scheme \<Rightarrow> ('u, 'v, 'x) proto_scheme \<Rightarrow> bool" where
  "calm s s' \<longleftrightarrow> pr_parser s' = pr_parser s \<and> (pr_done s \<longrightarrow> pr_done s') \<and>
     (\<exists>xs. set xs \<subseteq> {None} \<and> aq_items (pr_recv_queue s') = aq_items (pr_recv_queue s) @ xs)"

lemma still_calm: "still s s' \<Longrightarrow> calm s s'"
  by (auto simp: still_def calm_def grows_def)

lemma calm_trans: "calm s s' \<Longrightarrow> calm s' s'' \<Longrightarrow> calm s s''"
  unfolding calm_def by (metis append.assoc set_append Un_least)

lemma calm_made: "calm s (base_connection_made now starts t s)"
  by (simp add: calm_def base_connection_made_def Let_def run_callbacks_def add_high_watermark_callback_def
      add_low_watermark_callback_def)

lemma calm_lost:
  fixes s :: "('u, 'v, 'x) proto_scheme"
  shows "calm s (snd (connection_lost (abort s)))"
proof -
  obtain xs where "set xs \<subseteq> {None}" "grows xs (abort s) (snd (connection_lost (abort s)))" using grows_lost by blast
  moreover have "pr_parser (snd (connection_lost s)) = pr_parser s" "pr_done (snd (connection_lost s))" for s :: "('u, 'v, 'x) proto_scheme"
    by (simp_all add: connection_lost_def Let_def cancel_writer_def cancel_watchdog_def recv_put_def run_callbacks_def
        split: sum.splits)
  moreover have "pr_parser (abort s) = pr_parser s" by (simp add: abort_def)
  ultimately show ?thesis unfolding calm_def by (auto simp: grows_def)
qed

lemma calm_flow: "calm s (pause_writing s)" "calm s (resume_writing s)"
  by (simp_all add: calm_def pause_writing_def resume_writing_def)

lemma calm_timer: "calm s (snd (fire_timer now i s))"
  by (simp add: calm_def) (simp add: fire_timer_def Let_def detect_connected_timeout_def send_heartbeat_def
      transport_write_def proto_close_def split: timer.splits option.splits)

lemma calm_watchdog:
  assumes "\<And>m s. still s (snd (cl m s))"
  shows "calm s (snd (check_aliveness cl fmt now s))"
proof -
  have "still s (s\<lparr>pr_watchdog := w\<rparr>)" for w by (simp add: still_def grows_Nil)
  moreover have "still s (end_watchdog (snd (cl m s)))" for m using assms still_basic(5) by (rule still_trans)
  ultimately show ?thesis
    by (intro still_calm) (auto simp: check_aliveness_def case_prod_beta split: watchdog.splits)
qed

lemma calm_writer:
  assumes "\<And>u s. still s (snd (send_frame u s))" and "\<And>err s. still s (snd (close_gracefully err s))"
  shows "calm s (snd (process_send_queue send_frame close_gracefully s))"
  using moves_writer [where R = still and s = s and send_frame = send_frame and close_gracefully = close_gracefully and
      Q = "\<lambda>xs s s'. xs = [] \<and> pr_parser s' = pr_parser s \<and> (pr_done s \<longrightarrow> pr_done s')", OF assms]
  by (fastforce simp: still_def calm_def moves_def end_writer_def)

text \<open>The same for the server, with the identifier of DISCONNECT.\<close>

definition server_still :: "server \<Rightarrow> server \<Rightarrow> bool" where
  "server_still s s' \<longleftrightarrow> still s s' \<and> s_disconnect_receipt_id s' = s_disconnect_receipt_id s"

lemma server_still_trans: "server_still s s' \<Longrightarrow> server_still s' s'' \<Longrightarrow> server_still s s''"
  using still_trans by (auto simp: server_still_def)

lemma server_still_thenE:
  "server_still s (snd r) \<Longrightarrow> (\<And>s. server_still s (snd (k s))) \<Longrightarrow> server_still s (snd (thenE r k))"
  by (rule thenE_inv [where P = "server_still s"]) (blast intro: server_still_trans)+

lemma server_still_basic [simp]:
  "server_still s s" "server_still s (snd (write_frame f s))" "server_still s (snd (proto_close s))"
  "server_still s (abort s)" "server_still s (end_writer s)" "server_still s (end_watchdog s)"
  "server_still s (base_data_received now s)"
  by (simp_all add: server_still_def) (simp_all add: write_frame_def transport_write_def proto_close_def abort_def
      end_writer_def end_watchdog_def base_data_received_def split: option.splits sum.splits)

lemma server_still_error [simp]:
  "server_still s (snd (server_close_with_error m r c ct cct s))" "server_still s (snd (server_close_with_warning m s))"
  "server_still s (snd (server_error_close m s))" "server_still s (snd (server_close_gracefully err s))"
proof -
  have send: "server_still s (snd (send_error_frame m r c ct cct s))" for m r c ct cct s
    by (simp add: send_error_frame_def split: option.splits)
  then show 1: "server_still s (snd (server_close_with_error m r c ct cct s))" for m r c ct cct s
    unfolding server_close_with_error_def by (rule server_still_thenE) simp_all
  show "server_still s (snd (server_close_with_warning m s))"
    unfolding server_close_with_warning_def by (rule server_still_thenE [OF send]) simp
  show "server_still s (snd (server_error_close m s))" by (simp add: server_error_close_def 1)
  show "server_still s (snd (server_close_gracefully err s))"
    by (simp add: server_close_gracefully_def server_error_close_def 1 split: option.splits)
qed

lemma error_close_done:
  "fst (server_close_with_error m r c ct cct s) \<noteq> None \<or> pr_done (snd (server_close_with_error m r c ct cct s))"
  "fst (server_error_close m s) \<noteq> None \<or> pr_done (snd (server_error_close m s))"
  using thenE_close_done by (simp_all add: server_close_with_error_def server_error_close_def)

lemma server_still_connect: "server_still s (snd (received_connect_command now f s))"
proof -
  have c: "server_still s (snd (proto_connect server_error_close hb s))" for hb s
  proof (cases "parse_heartbeat_header hb")
    case (Some ab)
    then show ?thesis by (cases ab) (simp add: proto_connect_def Let_def server_still_def still_def grows_Nil)
  qed (simp add: proto_connect_def)
  have "server_still s (s\<lparr>pr_started_at := now\<rparr>)" by (simp add: server_still_def still_def grows_Nil)
  with c have "server_still s (snd (proto_connect server_error_close hb (s\<lparr>pr_started_at := now\<rparr>)))" for hb
    using server_still_trans by blast
  then show ?thesis unfolding received_connect_command_def by (auto intro!: server_still_thenE)
qed

section \<open>The server\<close>

definition sends :: "stomp_frame list \<Rightarrow> message list" where
  "sends fs = map frame_message (filter (\<lambda>f. f_command f = lit ''SEND'') fs)"

lemma sends_simps [simp]:
  "sends [] = []" "sends (fs @ gs) = sends fs @ sends gs"
  "sends (f # fs) = (if f_command f = lit ''SEND'' then frame_message f # sends fs else sends fs)"
  by (simp_all add: sends_def)

text \<open>
  The messages of the SEND frames are put into the receive queue; after DISCONNECT no message is, and
  its identifier is the one that a DISCONNECT frame carries.
\<close>

definition disconnected_by :: "stomp_frame list \<Rightarrow> str \<Rightarrow> bool" where
  "disconnected_by fs r \<longleftrightarrow> (\<exists>before f after. fs = before @ f # after \<and> sends after = [] \<and>
     f_command f = lit ''DISCONNECT'' \<and> map_of (f_headers f) (lit ''receipt'') = Some r)"

definition server_effect :: "stomp_frame list \<Rightarrow> server \<Rightarrow> server \<Rightarrow> bool" where
  "server_effect fs s s' \<longleftrightarrow> grows (map Some (sends fs)) s s' \<and>
     (case s_disconnect_receipt_id s of
        Some r \<Rightarrow> sends fs = [] \<and> s_disconnect_receipt_id s' = Some r
      | None \<Rightarrow> (\<forall>r. s_disconnect_receipt_id s' = Some r \<longrightarrow> disconnected_by fs r))"

lemma disconnected_by_append1: "disconnected_by gs r \<Longrightarrow> disconnected_by (fs @ gs) r"
  unfolding disconnected_by_def by (metis append.assoc)

lemma disconnected_by_append2: "disconnected_by fs r \<Longrightarrow> sends gs = [] \<Longrightarrow> disconnected_by (fs @ gs) r"
  unfolding disconnected_by_def by (metis append.assoc append_Cons append_Nil sends_simps(2))

lemma server_effect_trans: "server_effect fs s s' \<Longrightarrow> server_effect gs s' s'' \<Longrightarrow> server_effect (fs @ gs) s s''"
  using grows_trans [of "map Some (sends fs)" s s' "map Some (sends gs)" s''] disconnected_by_append1 disconnected_by_append2
  by (auto simp: server_effect_def split: option.splits)

lemma server_still_effect: "server_still s s' \<Longrightarrow> sends fs = [] \<Longrightarrow> server_effect fs s s'"
  by (auto simp: server_still_def still_def server_effect_def split: option.splits)

lemma server_send_handled:
  assumes "f_command f = lit ''SEND''" and "s_disconnect_receipt_id s = None" and "received_send_command f s = (e, s')"
  shows "pr_parser s' = pr_parser s \<and> (server_effect [f] s s' \<or> server_effect [] s s' \<and> (e \<noteq> None \<or> pr_done s'))"
proof -
  have error: ?thesis if "(e, s') = server_close_with_error m r c ct cct s" for m r c ct cct
    using server_still_error(1) [of s m r c ct cct] error_close_done(1) [of m r c ct cct s] server_still_effect [of s s' "[]"]
    by (auto simp flip: that simp: server_still_def still_def)
  show ?thesis
  proof (cases "\<exists>i ty. pr_connected s \<and> send_headers (f_headers f) = Inr (i, ty, s_recv_destination s)")
    case True
    then obtain i ty where h: "pr_connected s" "send_headers (f_headers f) = Inr (i, ty, s_recv_destination s)" by blast
    then have m: "frame_message f = \<lparr>m_id = i, m_type = ty, m_body = f_body f,
        m_content_type = dict_get (lit ''content-type'') (lit ''application/octet-stream'') (f_headers f)\<rparr>"
      by (auto simp: send_headers_def frame_message_def dict_get_def split: option.splits)
    have run: "thenE (recv_put (Some (frame_message f)) s) (\<lambda>s. (None, s\<lparr>s_last_message_id := Some i\<rparr>)) = (e, s')"
      using assms(3) h by (simp add: received_send_command_def m)
    obtain e1 s1 where put: "recv_put (Some (frame_message f)) s = (e1, s1)" by fastforce
    have s1: "grows (if e1 = None then [Some (frame_message f)] else []) s s1" "pr_parser s1 = pr_parser s"
      "s_disconnect_receipt_id s1 = s_disconnect_receipt_id s"
      using grows_recv_put [of "Some (frame_message f)" s] put
      by (auto simp: recv_put_def run_callbacks_def split: sum.splits)
    show ?thesis using run put s1 assms(1,2)
      by (cases e1) (auto simp: server_effect_def grows_def)
  next
    case False
    then have "\<exists>m r c ct cct. received_send_command f s = server_close_with_error m r c ct cct s"
      by (auto simp: received_send_command_def server_error_close_def Let_def split: sum.splits) (intro exI, rule refl)+
    with assms(3) error show ?thesis by metis
  qed
qed

lemma server_disconnect_handled:
  assumes "f_command f = lit ''DISCONNECT''" and "s_disconnect_receipt_id s = None"
    and "received_disconnect_command f s = (e, s')"
  shows "pr_parser s' = pr_parser s \<and> server_effect [f] s s'"
proof -
  have cmd: "sends [f] = []" using assms(1) by (simp add: lit_simps)
  show ?thesis
  proof (cases "pr_connected s \<and> map_of (f_headers f) (lit ''receipt'') \<noteq> None")
    case True
    then obtain r where r: "map_of (f_headers f) (lit ''receipt'') = Some r" by blast
    let ?s = "s\<lparr>s_disconnect_receipt_id := Some r\<rparr>"
    have "server_still ?s (snd (thenE (send_receipt_command r ?s) proto_close))"
      by (rule server_still_thenE) (simp_all add: send_receipt_command_def)
    then have "server_still ?s s'"
      using assms(3) True r by (auto simp: received_disconnect_command_def Let_def split: if_splits)
    moreover have "disconnected_by [f] r" using assms(1) r by (auto simp: disconnected_by_def intro!: exI [of _ "[]"])
    ultimately show ?thesis using assms(2) cmd
      by (auto simp: server_effect_def server_still_def still_def grows_def)
  next
    case False
    then have "s' = snd (server_error_close (lit ''Received DISCONNECT before CONNECT.'') s) \<or> s' = snd (proto_close s)"
      using assms(3) by (auto simp: received_disconnect_command_def split: if_splits)
    then have "server_still s s'" by auto
    with server_still_effect [OF this cmd] show ?thesis by (simp add: server_still_def still_def)
  qed
qed

lemma server_frame_handled:
  assumes "server_frame now f s = (e, s')"
  shows "pr_parser s' = pr_parser s \<and> (server_effect [f] s s' \<or> server_effect [] s s' \<and> (e \<noteq> None \<or> pr_done s'))"
proof -
  have error: ?thesis if "server_error_close m s = (e, s')" for m
    using server_still_error(3) [of s m] error_close_done(2) [of m s] server_still_effect [of s s' "[]"] that
    by (auto simp: server_still_def still_def)
  show ?thesis
  proof (cases "s_disconnect_receipt_id s")
    case None
    consider "f_command f = lit ''STOMP'' \<or> f_command f = lit ''CONNECT''" | "f_command f = lit ''SEND''"
      | "f_command f = lit ''DISCONNECT''"
      | "f_command f \<notin> {lit ''STOMP'', lit ''CONNECT'', lit ''SEND'', lit ''DISCONNECT''}" by blast
    then show ?thesis
    proof cases
      case 1
      then have "sends [f] = []" by (auto simp: lit_simps)
      moreover have "server_still s s'"
        using server_still_connect [of s now f] assms 1 None by (auto simp: server_frame_def)
      ultimately show ?thesis using server_still_effect [of s s' "[f]"] by (simp add: server_still_def still_def)
    next
      case 2
      then have "received_send_command f s = (e, s')" using assms None by (simp add: server_frame_def lit_simps)
      from server_send_handled [OF 2 None this] show ?thesis .
    next
      case 3
      then have "received_disconnect_command f s = (e, s')" using assms None by (simp add: server_frame_def lit_simps)
      from server_disconnect_handled [OF 3 None this] show ?thesis by blast
    next
      case 4
      with assms None error show ?thesis by (simp add: server_frame_def)
    qed
  qed (use assms error in \<open>simp add: server_frame_def\<close>)
qed

interpretation srv_stream: stream_handler server_frame server_frames server_data_received server_effect
proof unfold_locales
  show "server_effect fs s s' \<Longrightarrow> server_effect gs s' s'' \<Longrightarrow> server_effect (fs @ gs) s s''" for fs gs s s' s''
    by (rule server_effect_trans)
  show "server_frame now f s = (e, s') \<Longrightarrow> pr_parser s' = pr_parser s \<and>
      (server_effect [f] s s' \<or> server_effect [] s s' \<and> (e \<noteq> None \<or> pr_done s'))" for now f s e s'
    by (rule server_frame_handled)
  show "server_effect [] s (s\<lparr>pr_parser := p\<rparr>)" "server_effect [] s (base_data_received now s)" "server_effect [] s (abort s)" for s p now
    by (auto simp: server_effect_def grows_def base_data_received_def abort_def split: option.splits)
qed (simp_all add: server_data_received_def base_data_received_def)

text \<open>A step of the server, unless it is a call of \<^verbatim>\<open>data_received\<close>.\<close>

lemma server_calm:
  assumes "server_own fmt y y'"
  obtains (data) now d e s where "\<not> y_broken y" "server_data_received now d (y_server y) = Some (e, s)"
      "y' = y\<lparr>y_server := if e = None then s else abort s, y_received := y_received y @ d, y_broken := e \<noteq> None\<rparr>"
  | (calm) "calm (y_server y) (y_server y')" "s_disconnect_receipt_id (y_server y') = s_disconnect_receipt_id (y_server y)"
      "y_taken y' = y_taken y" "y_received y' = y_received y" "y_broken y' = y_broken y"
  using assms
proof cases
  case (step_made t now starts)
  have "s_disconnect_receipt_id (base_connection_made now starts t s) = s_disconnect_receipt_id s" for s
    by (simp add: base_connection_made_def Let_def run_callbacks_def split: prod.splits)
  with step_made show thesis by (intro calm) (simp_all add: calm_made)
next
  case (step_data now d e s)
  then show thesis by (intro data)
next
  case step_lost
  have "s_disconnect_receipt_id (snd (connection_lost (abort s))) = s_disconnect_receipt_id s" for s
    by (simp add: connection_lost_def Let_def abort_def cancel_writer_def cancel_watchdog_def recv_put_def
        run_callbacks_def split: sum.splits)
  with step_lost show thesis by (intro calm) (simp_all add: calm_lost)
next
  case (step_timer now i)
  have "s_disconnect_receipt_id (snd (fire_timer now i s)) = s_disconnect_receipt_id s" for s
    by (simp add: fire_timer_def Let_def detect_connected_timeout_def send_heartbeat_def
        transport_write_def proto_close_def split: timer.splits option.splits)
  with step_timer show thesis by (intro calm) (simp_all add: calm_timer)
next
  case (step_watchdog now)
  have still: "still s (snd (server_close_with_warning m s))" for m s
    using server_still_error(2) by (simp add: server_still_def)
  have "s_disconnect_receipt_id (snd (server_close_with_warning m s)) = s_disconnect_receipt_id s" for m s
    using server_still_error(2) by (simp add: server_still_def)
  then have "s_disconnect_receipt_id (snd (check_aliveness server_close_with_warning fmt now s)) = s_disconnect_receipt_id s" for s
    by (simp add: check_aliveness_def case_prod_beta end_watchdog_def split: watchdog.splits)
  with step_watchdog show thesis by (intro calm) (simp_all add: calm_watchdog [OF still])
next
  case step_writer
  have send: "server_still s (snd (server_send_frame r s))" for r s
  proof -
    have "server_still s (s\<lparr>s_last_receipt_id := i\<rparr>)" for s i by (simp add: server_still_def still_def grows_Nil)
    then show ?thesis unfolding server_send_frame_def send_receipt_command_def
      by (auto intro!: server_still_thenE split: option.splits)
  qed
  have "calm (y_server y) (snd (server_writer (y_server y)))" unfolding server_writer_def
    using send server_still_error(4) by (intro calm_writer) (auto simp: server_still_def)
  moreover have "s_disconnect_receipt_id (snd (server_writer (y_server y))) = s_disconnect_receipt_id (y_server y)"
    using moves_writer [where R = server_still and s = "y_server y" and
        Q = "\<lambda>xs s s'. s_disconnect_receipt_id s' = s_disconnect_receipt_id s", OF send server_still_error(4)]
    unfolding server_writer_def by (fastforce simp: server_still_def still_def end_writer_def)
  ultimately show thesis using step_writer by (intro calm) simp_all
qed (rule calm; simp add: calm_flow; simp add: pause_writing_def resume_writing_def)+

text \<open>
  What the server has heard: if the bytes received so far begin the stream, then the messages received
  are those of the first frames of the stream. As long as the connection is open, these are all the
  frames that have come in, and the parser is in step with the rest.
\<close>

definition server_heard_by :: "bytes \<Rightarrow> stomp_frame list \<Rightarrow> stomp_frame list \<Rightarrow> server_sys \<Rightarrow> bool" where
  "server_heard_by rest hs todo y \<longleftrightarrow> received_messages y = sends hs \<and>
     (\<forall>r. s_disconnect_receipt_id (y_server y) = Some r \<longrightarrow> disconnected_by hs r) \<and>
     (\<not> pr_done (y_server y) \<and> \<not> y_broken y \<longrightarrow> in_step rest todo (y_server y))"

definition server_heard :: "item list \<Rightarrow> server_sys \<Rightarrow> bool" where
  "server_heard items y \<longleftrightarrow> (\<forall>rest. y_received y @ rest = stream items \<longrightarrow>
     (\<exists>hs todo. map parsed (frames_of items) = hs @ todo \<and> server_heard_by rest hs todo y))"

lemma server_heard_start:
  assumes "list_all wf_item items" and "server_start y"
  shows "server_heard items y"
proof -
  have "y_received y = []" "received_messages y = []" "s_disconnect_receipt_id (y_server y) = None" "pr_parser (y_server y) = reset"
    using assms(2) by (auto simp: server_start_def server_init_def proto_init_def wq_new_def proto.defs server.defs
        received_messages_def Let_def split: if_splits)
  moreover have "in_step (stream items) (map parsed (frames_of items)) (y_server y)"
    unfolding in_step_def \<open>pr_parser (y_server y) = reset\<close>
    using tracks_reset(1) [OF assms(1) refl] by (intro conjI exI [of _ None] exI [of _ items]) (simp_all add: reset_def)
  ultimately show ?thesis unfolding server_heard_def
    by (intro allI impI exI [of _ "[]"] exI [of _ "map parsed (frames_of items)"]) (simp add: server_heard_by_def)
qed

lemma in_step_parser: "pr_parser s' = pr_parser s \<Longrightarrow> in_step rest todo s' = in_step rest todo s"
  by (simp add: in_step_def)

lemma received_messages_more:
  assumes "aq_items (pr_recv_queue (y_server y')) = aq_items (pr_recv_queue (y_server y)) @ xs" and "y_taken y' = y_taken y"
  shows "received_messages y' = received_messages y @ concat (map (case_option [] (\<lambda>m. [m])) xs)"
  using assms by (simp add: received_messages_def)

lemma server_heard_calm:
  assumes "server_heard items y" and "calm (y_server y) (y_server y')"
    and "s_disconnect_receipt_id (y_server y') = s_disconnect_receipt_id (y_server y)"
    and "y_taken y' = y_taken y" and "y_received y' = y_received y" and "y_broken y' = y_broken y"
  shows "server_heard items y'"
proof -
  obtain xs where xs: "set xs \<subseteq> {None}" "aq_items (pr_recv_queue (y_server y')) = aq_items (pr_recv_queue (y_server y)) @ xs"
    using assms(2) by (auto simp: calm_def)
  have "concat (map (case_option [] (\<lambda>m. [m])) xs) = []" using xs(1) by auto
  with received_messages_more [OF xs(2) assms(4)] have "received_messages y' = received_messages y" by simp
  moreover have "pr_parser (y_server y') = pr_parser (y_server y)" "pr_done (y_server y) \<longrightarrow> pr_done (y_server y')"
    using assms(2) by (simp_all add: calm_def)
  ultimately have "server_heard_by rest hs todo y'" if "server_heard_by rest hs todo y" for rest hs todo
    using that assms(3,6) in_step_parser [of "y_server y'" "y_server y"] by (auto simp: server_heard_by_def)
  with assms(1,5) show ?thesis unfolding server_heard_def by metis
qed

lemma server_heard_data:
  assumes heard: "server_heard items y" and "\<not> y_broken y" and data: "server_data_received now d (y_server y) = Some (e, s)"
    and y': "y' = y\<lparr>y_server := if e = None then s else abort s, y_received := y_received y @ d, y_broken := e \<noteq> None\<rparr>"
  shows "server_heard items y'"
  unfolding server_heard_def
proof (intro allI impI)
  fix rest
  assume "y_received y' @ rest = stream items"
  then have "y_received y @ d @ rest = stream items" using y' by simp
  with heard obtain hs todo where h0: "map parsed (frames_of items) = hs @ todo" "server_heard_by (d @ rest) hs todo y"
    unfolding server_heard_def by metis
  then have h: "map parsed (frames_of items) = hs @ todo" "received_messages y = sends hs"
    "\<forall>r. s_disconnect_receipt_id (y_server y) = Some r \<longrightarrow> disconnected_by hs r"
    "\<not> pr_done (y_server y) \<longrightarrow> in_step (d @ rest) todo (y_server y)"
    using assms(2) by (simp_all add: server_heard_by_def)
  show "\<exists>hs todo. map parsed (frames_of items) = hs @ todo \<and> server_heard_by rest hs todo y'"
  proof (cases "pr_done (y_server y)")
    case True
    then have "e = None" "s = base_data_received now (y_server y)" using data srv_stream.ignored [OF True, of now d] by auto
    with True y' have "received_messages y' = received_messages y" "pr_done (y_server y')"
      "s_disconnect_receipt_id (y_server y') = s_disconnect_receipt_id (y_server y)"
      by (simp_all add: received_messages_def base_data_received_def)
    with h(1-3) show ?thesis by (intro exI [of _ hs] exI [of _ todo]) (simp add: server_heard_by_def)
  next
    case False
    with h(4) have "in_step (d @ rest) todo (y_server y)" by simp
    from srv_stream.data_effect [OF this False data] obtain gs todo' where
      g: "todo = gs @ todo'" "server_effect gs (y_server y) s" "e = None \<and> \<not> pr_done s \<longrightarrow> in_step rest todo' s"
      by (elim exE conjE) (rule that)
    have eff: "server_effect gs (y_server y) (y_server y')"
      using g(2) server_effect_trans [OF g(2) srv_stream.effect_same(3)] y' by simp
    then have "received_messages y' = sends (hs @ gs)"
      using received_messages_more [of y' y "map Some (sends gs)"] h(2) y'
      by (simp add: server_effect_def grows_def comp_def)
    moreover have "disconnected_by (hs @ gs) r" if "s_disconnect_receipt_id (y_server y') = Some r" for r
      using eff h(3) that disconnected_by_append1 disconnected_by_append2
      by (auto simp: server_effect_def split: option.splits)
    moreover have "in_step rest todo' (y_server y')" if "\<not> pr_done (y_server y') \<and> \<not> y_broken y'"
      using g(3) that y' by (auto split: if_splits)
    ultimately have "server_heard_by rest (hs @ gs) todo' y'" by (simp add: server_heard_by_def)
    then show ?thesis using h(1) g(1) by (intro exI [of _ "hs @ gs"] exI [of _ todo']) simp
  qed
qed

lemma server_heard_step:
  assumes "server_heard items y" and "server_step fmt y y'"
  shows "server_heard items y'"
  using assms(2)
proof cases
  case step_own
  then show ?thesis
  proof (cases rule: server_calm)
    case (data now d e s)
    show ?thesis by (rule server_heard_data [OF assms(1) data])
  next
    case calm
    show ?thesis by (rule server_heard_calm [OF assms(1) calm])
  qed
next
  case (step_enqueue q xs)
  then show ?thesis by (intro server_heard_calm [OF assms(1)]) (simp_all add: calm_def)
next
  case (step_consume x q)
  then have "received_messages y' = received_messages y" using wq_get_fields [OF step_consume(2)]
    by (simp add: received_messages_def)
  with assms(1) step_consume(1) show ?thesis by (simp add: server_heard_def server_heard_by_def in_step_def)
next
  case (step_consumed cbs q)
  then show ?thesis using task_done_fields [OF step_consumed(2)]
    by (intro server_heard_calm [OF assms(1)]) (simp_all add: calm_def run_callbacks_def)
next
  case step_processed
  then show ?thesis by (intro server_heard_calm [OF assms(1)]) (simp_all add: calm_def processor_done_def)
qed

section \<open>The client\<close>

text \<open>Only identifiers that a RECEIPT frame carries are put into the receive queue.\<close>

definition receipt_in :: "stomp_frame list \<Rightarrow> str \<Rightarrow> bool" where
  "receipt_in fs r \<longleftrightarrow> (\<exists>f\<in>set fs. f_command f = lit ''RECEIPT'' \<and> map_of (f_headers f) (lit ''receipt-id'') = Some r)"

lemma receipt_in_append [simp]: "receipt_in (fs @ gs) r \<longleftrightarrow> receipt_in fs r \<or> receipt_in gs r"
  by (auto simp: receipt_in_def)

definition client_effect :: "stomp_frame list \<Rightarrow> client \<Rightarrow> client \<Rightarrow> bool" where
  "client_effect fs c c' \<longleftrightarrow> (\<exists>xs. grows xs c c' \<and> (\<forall>r. Some r \<in> set xs \<longrightarrow> receipt_in fs r))"

lemma client_effect_trans: "client_effect fs c c' \<Longrightarrow> client_effect gs c' c'' \<Longrightarrow> client_effect (fs @ gs) c c''"
  unfolding client_effect_def by (metis Un_iff grows_trans receipt_in_append set_append)

lemma still_effect: "still c c' \<Longrightarrow> client_effect fs c c'"
  unfolding client_effect_def by (rule exI [of _ "[]"]) (simp add: still_def)

lemma client_still_close [simp]:
  "still c (snd (client_close_with_error m c))" "still c (snd (client_close_with_warning m c))"
  by (simp_all add: client_close_with_error_def client_close_with_warning_def)

lemma client_still_connect: "still c (snd (proto_connect client_close_with_error hb c))"
proof (cases "parse_heartbeat_header hb")
  case (Some ab)
  then show ?thesis by (cases ab) (simp add: proto_connect_def Let_def still_def grows_Nil)
qed (simp add: proto_connect_def)

lemma client_frame_handled:
  assumes "client_frame f c = (e, c')"
  shows "pr_parser c' = pr_parser c \<and> client_effect [f] c c'"
proof (cases "f_command f = lit ''RECEIPT'' \<and> pr_connected c \<and> map_of (f_headers f) (lit ''receipt-id'') \<noteq> None")
  case True
  then obtain r where r: "map_of (f_headers f) (lit ''receipt-id'') = Some r" by blast
  then have "receipt_in [f] r" using True by (simp add: receipt_in_def)
  let ?k = "\<lambda>c. let c1 = c\<lparr>c_last_receipt_id := Some r\<rparr> in
      if c_sent_disconnect c1 \<and> Some r = c_last_message_id c1 then proto_close c1 else (None, c1)"
  have run: "thenE (recv_put (Some r) c) ?k = (e, c')"
    using assms True r by (simp add: client_frame_def received_receipt_command_def lit_simps)
  obtain e1 c1 where put: "recv_put (Some r) c = (e1, c1)" by fastforce
  have c1: "grows (if e1 = None then [Some r] else []) c c1" "pr_parser c1 = pr_parser c"
    using grows_recv_put [of "Some r" c] put by (auto simp: recv_put_def run_callbacks_def split: sum.splits)
  have "still c1 (snd (?k c1))"
  proof -
    have s: "still c1 (c1\<lparr>c_last_receipt_id := i\<rparr>)" for i by (simp add: still_def grows_Nil)
    from still_trans [OF s still_basic(2)] s show ?thesis by (simp add: Let_def)
  qed
  then have "still c1 c'" using run put by (cases e1) (auto simp: Let_def split: if_splits)
  then have "grows (if e1 = None then [Some r] else []) c c'" "pr_parser c' = pr_parser c"
    using c1 grows_trans [OF c1(1), of "[]" c'] by (simp_all add: still_def)
  with \<open>receipt_in [f] r\<close> show ?thesis
    by (auto simp: client_effect_def intro!: exI [of _ "if e1 = None then [Some r] else []"])
next
  case False
  then have "still c c'" using assms client_still_connect
    by (auto simp: client_frame_def received_receipt_command_def received_connected_command_def received_error_command_def
        split: if_splits option.splits dest!: arg_cong [where f = snd])
  then show ?thesis using still_effect by (auto simp: still_def)
qed

interpretation cli_stream: stream_handler "\<lambda>now. client_frame" "\<lambda>now. client_frames" client_data_received client_effect
proof unfold_locales
  show "client_effect fs s s' \<Longrightarrow> client_effect gs s' s'' \<Longrightarrow> client_effect (fs @ gs) s s''" for fs gs s s' s''
    by (rule client_effect_trans)
  show "client_frame f s = (e, s') \<Longrightarrow> pr_parser s' = pr_parser s \<and>
      (client_effect [f] s s' \<or> client_effect [] s s' \<and> (e \<noteq> None \<or> pr_done s'))" for f s e s'
    using client_frame_handled by blast
  show "client_effect [] s (s\<lparr>pr_parser := p\<rparr>)" for s p
    unfolding client_effect_def by (rule exI [of _ "[]"]) (simp add: grows_Nil)
  show "client_effect [] s (base_data_received now s)" "client_effect [] s (abort s)" for s now
    by (simp_all add: still_effect)
qed (simp_all add: client_data_received_def base_data_received_def)

lemma client_calm:
  assumes "client_own fmt z z'"
  obtains (data) now d e c where "\<not> z_broken z" "client_data_received now d (z_client z) = Some (e, c)"
      "z' = z\<lparr>z_client := if e = None then c else abort c, z_received := z_received z @ d, z_broken := e \<noteq> None\<rparr>"
  | (calm) "calm (z_client z) (z_client z')"
      "z_taken z' = z_taken z" "z_received z' = z_received z" "z_broken z' = z_broken z"
  using assms
proof cases
  case (cstep_made t now starts)
  have "calm c (snd (client_connection_made now starts t c))" for c
    unfolding client_connection_made_def Let_def by (rule calm_trans [OF calm_made still_calm [OF still_basic(1)]])
  with cstep_made show thesis by (intro calm) simp_all
next
  case (cstep_data now d e c)
  then show thesis by (intro data)
next
  case (cstep_watchdog now)
  have "calm c (snd (check_aliveness client_close_with_warning fmt now c))" for c by (rule calm_watchdog) simp
  with cstep_watchdog show thesis by (intro calm) simp_all
next
  case cstep_writer
  have "still c (snd (client_send_frame m c))" for m c
  proof -
    have "still c (c\<lparr>c_last_message_id := i\<rparr>)" for c i by (simp add: still_def grows_Nil)
    then show ?thesis unfolding client_send_frame_def by (auto intro!: still_thenE)
  qed
  moreover have "still c (snd (client_close_gracefully err c))" for err c
  proof -
    have "still c (c\<lparr>c_sent_disconnect := b\<rparr>)" for c b by (simp add: still_def grows_Nil)
    then show ?thesis unfolding client_close_gracefully_def by (auto intro!: still_thenE split: option.splits)
  qed
  ultimately have "calm c (snd (client_writer c))" for c unfolding client_writer_def by (rule calm_writer)
  with cstep_writer show thesis by (intro calm) simp_all
qed (rule calm; simp add: calm_lost calm_flow calm_timer)+

definition client_heard_by :: "bytes \<Rightarrow> stomp_frame list \<Rightarrow> stomp_frame list \<Rightarrow> client_sys \<Rightarrow> bool" where
  "client_heard_by rest hs todo z \<longleftrightarrow>
     (\<forall>r. Some r \<in> set (z_taken z @ aq_items (pr_recv_queue (z_client z))) \<longrightarrow> receipt_in hs r) \<and>
     (\<not> pr_done (z_client z) \<and> \<not> z_broken z \<longrightarrow> in_step rest todo (z_client z))"

definition client_heard :: "item list \<Rightarrow> client_sys \<Rightarrow> bool" where
  "client_heard items z \<longleftrightarrow> (\<forall>rest. z_received z @ rest = stream items \<longrightarrow>
     (\<exists>hs todo. map parsed (frames_of items) = hs @ todo \<and> client_heard_by rest hs todo z))"

lemma client_heard_start:
  assumes "list_all wf_item items" and "client_start z"
  shows "client_heard items z"
proof -
  have z: "z_received z = []" "z_taken z = []" "aq_items (pr_recv_queue (z_client z)) = []" "pr_parser (z_client z) = reset"
    using assms(2) by (auto simp: client_start_def client_init_def proto_init_def wq_new_def proto.defs client.defs
        Let_def split: if_splits)
  moreover have "in_step (stream items) (map parsed (frames_of items)) (z_client z)"
    unfolding in_step_def z(4)
    using tracks_reset(1) [OF assms(1) refl] by (intro conjI exI [of _ None] exI [of _ items]) (simp_all add: reset_def)
  ultimately show ?thesis unfolding client_heard_def
    by (intro allI impI exI [of _ "[]"] exI [of _ "map parsed (frames_of items)"]) (simp add: client_heard_by_def)
qed

lemma client_heard_calm:
  assumes "client_heard items z" and "calm (z_client z) (z_client z')"
    and "z_taken z' = z_taken z" and "z_received z' = z_received z" and "z_broken z' = z_broken z"
  shows "client_heard items z'"
proof -
  have "client_heard_by rest hs todo z'" if "client_heard_by rest hs todo z" for rest hs todo
    using that assms(2,3,5) in_step_parser [of "z_client z'" "z_client z"] by (auto simp: client_heard_by_def calm_def)
  with assms(1,4) show ?thesis unfolding client_heard_def by metis
qed

lemma client_heard_data:
  assumes heard: "client_heard items z" and "\<not> z_broken z" and data: "client_data_received now d (z_client z) = Some (e, c)"
    and z': "z' = z\<lparr>z_client := if e = None then c else abort c, z_received := z_received z @ d, z_broken := e \<noteq> None\<rparr>"
  shows "client_heard items z'"
  unfolding client_heard_def
proof (intro allI impI)
  fix rest
  assume "z_received z' @ rest = stream items"
  then have "z_received z @ d @ rest = stream items" using z' by simp
  with heard obtain hs todo where h: "map parsed (frames_of items) = hs @ todo" "client_heard_by (d @ rest) hs todo z"
    unfolding client_heard_def by metis
  show "\<exists>hs todo. map parsed (frames_of items) = hs @ todo \<and> client_heard_by rest hs todo z'"
  proof (cases "pr_done (z_client z)")
    case True
    then have "e = None" "c = base_data_received now (z_client z)" using data cli_stream.ignored [OF True, of now d] by auto
    with True z' h show ?thesis
      by (intro exI [of _ hs] exI [of _ todo]) (simp add: client_heard_by_def base_data_received_def)
  next
    case False
    with h(2) assms(2) have "in_step (d @ rest) todo (z_client z)" by (simp add: client_heard_by_def)
    from cli_stream.data_effect [OF this False data] obtain gs todo' where
      g: "todo = gs @ todo'" "client_effect gs (z_client z) c" "e = None \<and> \<not> pr_done c \<longrightarrow> in_step rest todo' c"
      by (elim exE conjE) (rule that)
    have "client_effect gs (z_client z) (z_client z')"
      using g(2) client_effect_trans [OF g(2) cli_stream.effect_same(3)] z' by simp
    then have "client_heard_by rest (hs @ gs) todo' z'"
      using h(2) g(3) z' by (auto simp: client_heard_by_def client_effect_def grows_def split: if_splits)
    then show ?thesis using h(1) g(1) by (intro exI [of _ "hs @ gs"] exI [of _ todo']) simp
  qed
qed

lemma client_heard_step:
  assumes "client_heard items z" and "client_step fmt z z'"
  shows "client_heard items z'"
  using assms(2)
proof cases
  case cstep_own
  then show ?thesis
  proof (cases rule: client_calm)
    case (data now d e c)
    show ?thesis by (rule client_heard_data [OF assms(1) data])
  next
    case calm
    show ?thesis by (rule client_heard_calm [OF assms(1) calm])
  qed
next
  case (cstep_enqueue q xs)
  then show ?thesis by (intro client_heard_calm [OF assms(1)]) (simp_all add: calm_def)
next
  case (cstep_consume x q)
  with assms(1) wq_get_fields [OF cstep_consume(2)] show ?thesis
    by (simp add: client_heard_def client_heard_by_def in_step_def)
next
  case (cstep_consumed cbs q)
  then show ?thesis using task_done_fields [OF cstep_consumed(2)]
    by (intro client_heard_calm [OF assms(1)]) (simp_all add: calm_def run_callbacks_def)
next
  case cstep_processed
  then show ?thesis by (intro client_heard_calm [OF assms(1)]) (simp_all add: calm_def processor_done_def)
qed

end
