(* ===== verification/Aio_Session.thy ===== *)
theory Aio_Session
  imports Aio_Server Aio_Client
begin

text \<open>
  A client and a server of \<^verbatim>\<open>swpt_stomp/aio_protocols.py\<close> that talk to each other. What a
  client has written in any reachable state of its connection, cut into chunks by the
  network, makes the receive queue of a server hold the messages that the client's
  writer has taken from its send queue; and the receipts that a server writes reach the
  receive queue of the client.
\<close>

section \<open>The written bytes as a stream\<close>

lemma out_as_items:
  assumes "list_all2 prints fs (filter (\<lambda>b. b \<noteq> [NL]) out)"
  shows "\<exists>items. list_all2 printed items out \<and> frames_of items = fs"
  using assms
proof (induction out arbitrary: fs)
  case Nil
  then show ?case by (auto intro!: exI [of _ "[]"])
next
  case (Cons b out)
  show ?case
  proof (cases "b = [NL]")
    case True
    with Cons obtain items where "list_all2 printed items out" "frames_of items = fs" by auto
    with True show ?thesis by (intro exI [of _ "Beat # items"]) simp
  next
    case False
    with Cons.prems obtain f fs' where fs: "fs = f # fs'" "prints f b"
      "list_all2 prints fs' (filter (\<lambda>b. b \<noteq> [NL]) out)"
      by (auto simp: list_all2_Cons2)
    with Cons.IH obtain items where "list_all2 printed items out" "frames_of items = fs'" by blast
    with fs show ?thesis by (intro exI [of _ "Frame f # items"]) (simp add: prints_def)
  qed
qed

lemma wf_items: "list_all wf_frame (frames_of items) \<Longrightarrow> list_all wf_item items"
  by (induction items rule: frames_of.induct) auto

lemma hello_connect_ok: "hello_ok f \<Longrightarrow> connect_ok f"
proof -
  assume h: "hello_ok f"
  have "py_split 44 10 (lit ''1.2'') = [lit ''1.2'']"
    by (rule py_split_no_sep) (simp add: lit_simps)
  with h show ?thesis by (simp add: hello_ok_def connect_ok_def dict_get_def)
qed

lemma send_frame_ok: "send_ok dest (send_frame_of dest m)" "frame_message (send_frame_of dest m) = m"
  by (simp_all add: send_ok_def send_frame_of_def frame_message_def dict_get_def)

section \<open>The properties\<close>

text \<open>
  C2: End to end, from the client's send queue to the server's receive queue. Take any
  reachable state of a client whose connection is open and whose frames fit the limits of
  the parser, and a new server for the client's destination. However the network cuts the
  bytes that the client has written, and whenever it delivers them, the server handles
  them without an error, stays connected, and its receive queue holds exactly the
  messages that the client's writer has taken from the send queue, unchanged and in order.
\<close>

theorem messages_arrive:
  assumes "reaches client_start (client_step fmt) z"
    and "pr_transport (z_client z) \<noteq> None" and "\<not> pr_done (z_client z)" and "pr_writer (z_client z) \<noteq> WriterDone"
    and "wf_frame (connect_frame (z_client z))"
    and "list_all (\<lambda>m. wf_frame (send_frame_of (c_send_destination (z_client z)) m)) (z_sent z)"
    and "server_init sq rq a b delay (c_send_destination (z_client z)) = Inr s"
    and "aq_items rq = []" and "aq_maxsize rq \<le> 0"
    and "concat (map snd chunks) = concat (out_of (z_client z))"
  shows "\<exists>s'. run_chunks server_data_received chunks (base_connection_made now starts t s) = Some (None, s') \<and>
    aq_items (pr_recv_queue s') = map Some (z_sent z) \<and> pr_connected s' \<and> \<not> pr_done s'"
proof -
  let ?c = "z_client z" and ?dest = "c_send_destination (z_client z)"
  from cl_run.reaches_inv [OF assms(1)] obtain cs ms ds where log: "log_ok (z_sent z) ?c cs ms ds"
    by (auto simp: client_inv_def)
  have cs: "cs = [connect_frame ?c]"
    using log assms(2) frame_bytes_wire [OF assms(5)] unfolding log_ok_def by blast
  have ms: "ms = z_sent z" and ds: "ds = []" and hello: "hello_ok (connect_frame ?c)"
    using log assms(3,4) unfolding log_ok_def by blast+
  let ?fs = "map (send_frame_of ?dest) (z_sent z)"
  have "list_all2 prints (connect_frame ?c # ?fs) (filter (\<lambda>b. b \<noteq> [NL]) (out_of ?c))"
    using log cs ms ds unfolding log_ok_def frames_out_def by simp
  then obtain items where items: "list_all2 printed items (out_of ?c)" "frames_of items = connect_frame ?c # ?fs"
    using out_as_items by blast
  have "list_all wf_item items"
    using assms(5,6) items(2) by (intro wf_items) (simp add: list_all_iff)
  moreover have "list_all (send_ok ?dest) ?fs" by (simp add: list_all_iff send_frame_ok)
  ultimately have "\<exists>s'. run_chunks server_data_received chunks (base_connection_made now starts t s) = Some (None, s') \<and>
      server_expects (map frame_message ?fs) s' []"
    using srv.run_chunks_stream [of "base_connection_made now starts t s" items "out_of ?c" chunks "map frame_message ?fs"]
      server_expects_start [OF assms(7-9), of "parsed (connect_frame ?c)" "map parsed ?fs" now starts t]
      items assms(10) hello_connect_ok [OF hello]
    by (auto simp: list_all_iff comp_def)
  then show ?thesis
    by (auto simp: server_expects_def comp_def send_frame_ok split: if_splits)
qed


text \<open>A run for the witness: connect, receive CONNECTED, take one message and send it.\<close>

definition example_connected :: bytes where
  "example_connected = ''CONNECTED'' @ [NL] @ ''version:1.2'' @ [NL, NL, NUL]"

definition example_message :: message where
  "example_message = \<lparr>m_id = lit ''7'', m_type = lit ''T'', m_body = ''x'', m_content_type = lit ''text/plain''\<rparr>"

lemma example_parse: "\<exists>p. add_bytes example_connected reset = Some (Inr (), p) \<and>
  p_frames p = [\<lparr>f_command = lit ''CONNECTED'', f_headers = [(lit ''version'', lit ''1.2'')], f_body = []\<rparr>]"
  by (simp add: example_connected_def add_bytes_def parse_loop.simps reset_def parser_eval compact_def lit_simps)


lemma example_client_fields:
  "pr_parser example_client = reset" "\<not> pr_done example_client" "\<not> pr_connection_lost example_client"
  "\<not> pr_connected example_client" "pr_start_sending example_client" "pr_send_queue example_client = aq_new 1"
  "pr_transport example_client \<noteq> None" "c_send_destination example_client = lit ''/exchange/smp''"
  "c_host example_client = lit ''/''" "c_login example_client = None" "c_passcode example_client = None"
  "pr_hb_send_min example_client = 5000" "pr_hb_recv_desired example_client = 30000"
  by (simp_all add: example_client_def client_connection_made_def write_frame_def transport_write_def
      example_client0_def client_init_def proto_init_def proto.defs base_connection_made_def Let_def
      run_callbacks_def add_high_watermark_callback_def add_low_watermark_callback_def
      DEFAULT_STOMP_DESTINATION_def DEFAULT_STOMP_HOST_def split: sum.splits)

text \<open>The facts of the client that the run keeps.\<close>

definition example_ok :: "writer \<Rightarrow> client \<Rightarrow> bool" where
  "example_ok w c \<longleftrightarrow> pr_writer c = w \<and> \<not> pr_done c \<and> \<not> pr_connection_lost c \<and> pr_connected c \<and>
     pr_start_sending c \<and> pr_transport c \<noteq> None \<and>
     c_send_destination c = lit ''/exchange/smp'' \<and> connect_frame c = connect_frame example_client"

lemma example_connect_step:
  "\<exists>c. client_data_received 1 example_connected example_client = Some (None, c) \<and>
     example_ok WaitStart c \<and> pr_send_queue c = aq_new 1"
proof -
  obtain p where p: "add_bytes example_connected reset = Some (Inr (), p)"
    "p_frames p = [\<lparr>f_command = lit ''CONNECTED'', f_headers = [(lit ''version'', lit ''1.2'')], f_body = []\<rparr>]"
    using example_parse by blast
  have "parse_heartbeat_header (lit ''0,0'') = Some (0, 0)"
    by (simp add: parse_heartbeat_header_def int_eval lit_simps eval_nat_numeral)
  with p show ?thesis
    using example_client_fields
    by (simp add: client_data_received_def base_data_received_def client_frame_def received_connected_command_def
        dict_get_def proto_connect_def calc_heartbeat_def example_ok_def connect_frame_def)
qed

definition example_frame :: stomp_frame where
  "example_frame = send_frame_of (lit ''/exchange/smp'') example_message"

lemma example_frame_wf: "wf_frame example_frame" "wf_frame (connect_frame example_client)"
  using example_client_fields
  by (simp_all add: example_frame_def send_frame_of_def example_message_def connect_frame_def heartbeat_header_def
      dec_of_int_def example_wf)

lemma example_send_step:
  assumes "example_ok WaitItem c" and "aq_items (pr_send_queue c) = [Payload example_message]"
    and "aq_unfinished (pr_send_queue c) = 1"
  shows "example_ok WaitStart (snd (client_writer c))"
  using assms frame_bytes_wire [OF example_frame_wf(1)]
  by (auto simp: client_writer_def process_send_queue_def aq_get_def client_send_frame_def write_frame_def
      transport_write_def send_task_done_def aq_task_done_def example_ok_def example_frame_def connect_frame_def)

lemma example_run: "\<exists>z. reaches client_start (client_step fmt) z \<and> example_ok WaitStart (z_client z) \<and>
  z_sent z = [example_message]"
proof -
  obtain c where c: "client_data_received 1 example_connected example_client = Some (None, c)"
    "example_ok WaitStart c" "pr_send_queue c = aq_new 1"
    using example_connect_step by blast
  let ?z1 = "example_csys\<lparr>z_client := c, z_received := example_connected\<rparr>"
  have "client_step fmt example_csys ?z1"
    using cstep_own [OF cstep_data [of example_csys 1 example_connected None c fmt]] c(1) example_client_fields(3,7)
    by (simp add: example_csys_def)
  note r1 = reaches_step [OF example_csys_reached this]
  define q where "q = \<lparr>aq_items = [Payload example_message], aq_maxsize = 1, aq_unfinished = 1, aq_put_task = NoPutTask\<rparr>"
  have "client_step fmt ?z1 (?z1\<lparr>z_client := c\<lparr>pr_send_queue := q\<rparr>\<rparr>)"
    using cstep_enqueue [of q ?z1 "[Payload example_message]" fmt] by (simp add: c(3) aq_new_def q_def)
  note r2 = reaches_step [OF r1 this]
  define c3 where "c3 = c\<lparr>pr_send_queue := q, pr_writer := WaitItem\<rparr>"
  have "snd (client_writer (c\<lparr>pr_send_queue := q\<rparr>)) = c3" "next_message (c\<lparr>pr_send_queue := q\<rparr>) = []"
    using c(2) by (simp_all add: example_ok_def client_writer_def process_send_queue_def c3_def next_message_def)
  then have "client_step fmt (?z1\<lparr>z_client := c\<lparr>pr_send_queue := q\<rparr>\<rparr>) (?z1\<lparr>z_client := c3\<rparr>)"
    using cstep_own [OF cstep_writer [of fmt "?z1\<lparr>z_client := c\<lparr>pr_send_queue := q\<rparr>\<rparr>"]] by simp
  note r3 = reaches_step [OF r2 this]
  have ok: "example_ok WaitItem c3" using c(2) by (simp add: example_ok_def c3_def connect_frame_def)
  have "client_step fmt (?z1\<lparr>z_client := c3\<rparr>) (?z1\<lparr>z_client := snd (client_writer c3), z_sent := [example_message]\<rparr>)"
    using cstep_own [OF cstep_writer [of fmt "?z1\<lparr>z_client := c3\<rparr>"]]
    by (simp add: next_message_def c3_def q_def example_csys_def)
  from reaches_step [OF r3 this] example_send_step [OF ok] show ?thesis
    by (intro exI [of _ "?z1\<lparr>z_client := snd (client_writer c3), z_sent := [example_message]\<rparr>"])
      (simp add: c3_def q_def)
qed

theorem messages_arrive_witness:
  "\<exists>(z :: client_sys) s'. z_sent z = [example_message] \<and>
     run_chunks server_data_received [(1, concat (out_of (z_client z)))] example_server = Some (None, s') \<and>
     aq_items (pr_recv_queue s') = [Some example_message]"
proof -
  obtain z where z: "reaches client_start (client_step (\<lambda>_. [])) z" "example_ok WaitStart (z_client z)"
    "z_sent z = [example_message]" using example_run by blast
  obtain s where s: "server_init (aq_new 1) example_queue 5000 30000 10000 (lit ''/exchange/smp'') = Inr s"
    by (auto simp: server_init_def proto_init_def)
  let ?chunks = "[(1, concat (out_of (z_client z)))]"
  have eq: "example_server = base_connection_made 0 False example_transport s"
    using s by (simp add: example_server_def DEFAULT_STOMP_DESTINATION_def)
  have "\<exists>s'. run_chunks server_data_received ?chunks (base_connection_made 0 False example_transport s) = Some (None, s') \<and>
      aq_items (pr_recv_queue s') = map Some (z_sent z) \<and> pr_connected s' \<and> \<not> pr_done s'"
    by (rule messages_arrive [OF z(1), of "aq_new 1" example_queue 5000 30000 10000])
      (use z(2,3) s example_frame_wf in \<open>simp_all add: example_ok_def example_frame_def example_queue_def\<close>)
  then show ?thesis unfolding eq using z(3) by (intro exI [of _ z]) (auto simp del: run_chunks.simps)
qed


text \<open>
  C16: Receipts reach the client. A client that has not asked to disconnect gets a CONNECTED
  frame and then RECEIPT frames, with heartbeats in between, in chunks of any size. Every
  call of \<^verbatim>\<open>data_received\<close> returns without an exception, and the identifiers are in the
  receive queue, in order.
\<close>

theorem receipts_arrive:
  assumes "client_init sq rq a b delay host login passcode dest = Inr c0" and "aq_items rq = []" and "aq_maxsize rq \<le> 0"
    and "client_connection_made now starts t c0 = (None, c)"
    and "list_all wf_item items" and "list_all2 printed items bs" and "concat (map snd chunks) = concat bs"
    and "frames_of items = connected_frame x y # map receipt_frame ids" and "0 \<le> x" and "0 \<le> y"
  shows "\<exists>c'. run_chunks client_data_received chunks c = Some (None, c') \<and>
    aq_items (pr_recv_queue c') = map Some ids \<and> pr_connected c' \<and> \<not> pr_done c'"
proof -
  let ?fs = "map parsed (frames_of items)"
  have receipt: "receipt_ok (parsed (receipt_frame i))" "frame_receipt (parsed (receipt_frame i)) = i" for i
    by (simp_all add: receipt_ok_def frame_receipt_def dict_get_def parsed_def receipt_frame_def wire_headers_def)
  have "connected_ok (parsed (connected_frame x y))"
    using parse_heartbeat_header_inverse [OF assms(9,10)]
    by (simp add: connected_ok_def dict_get_def parsed_def connected_frame_def wire_headers_def)
  moreover have "pr_parser c = reset" "client_expects ids c (f # map parsed (map receipt_frame ids))"
    if "connected_ok f" for f
  proof -
    from assms(4) obtain t' where c: "c = (base_connection_made now starts t c0)\<lparr>pr_transport := Some t'\<rparr>"
      using write_frame_None by (fastforce simp: client_connection_made_def Let_def)
    have "list_all receipt_ok (map parsed (map receipt_frame ids))" "map frame_receipt (map parsed (map receipt_frame ids)) = ids"
      by (simp_all add: list_all_iff receipt comp_def)
    with assms(1-3) that show "client_expects ids c (f # map parsed (map receipt_frame ids))" "pr_parser c = reset"
      by (auto simp: c client_expects_def client_init_def proto_init_def proto.defs base_connection_made_def
          Let_def run_callbacks_def add_high_watermark_callback_def add_low_watermark_callback_def split: if_splits)
  qed
  ultimately obtain c' where "run_chunks client_data_received chunks c = Some (None, c')" "client_expects ids c' []"
    using cli.run_chunks_stream [of c items bs chunks ids] assms(5-8) by auto
  then show ?thesis by (auto simp: client_expects_def split: if_splits)
qed

theorem receipts_arrive_witness:
  "\<exists>c'. run_chunks client_data_received [(1, wire (connected_frame 0 0)), (2, wire (receipt_frame (lit ''7'')))]
     example_client = Some (None, c') \<and> aq_items (pr_recv_queue c') = [Some (lit ''7'')] \<and> pr_connected c' \<and> \<not> pr_done c'"
proof -
  let ?f = "connected_frame 0 0" and ?g = "receipt_frame (lit ''7'')"
  have wf: "wf_frame ?f" "wf_frame ?g"
    by (simp_all add: connected_frame_def receipt_frame_def heartbeat_header_def dec_of_int_def example_wf)
  have "client_connection_made 0 False \<lparr>t_out = [], t_closing = False, t_reading = True\<rparr> example_client0 = (None, example_client)"
  proof -
    have "fst (client_connection_made 0 False \<lparr>t_out = [], t_closing = False, t_reading = True\<rparr> example_client0) = None"
      using frame_bytes_wire [OF example_frame_wf(2)] example_client_fields
      by (simp add: client_connection_made_def write_frame_def transport_write_def example_client0_def client_init_def
          proto_init_def proto.defs base_connection_made_def Let_def run_callbacks_def connect_frame_def
          add_high_watermark_callback_def add_low_watermark_callback_def DEFAULT_STOMP_HOST_def)
    then show ?thesis unfolding example_client_def by (metis prod.collapse)
  qed
  from receipts_arrive [OF example_client0_init _ _ this, of "[Frame ?f, Frame ?g]" "[wire ?f, wire ?g]"
      "[(1, wire ?f), (2, wire ?g)]" 0 0 "[lit ''7'']"] wf
  show ?thesis by (simp add: frame_bytes_wire example_ids_def del: run_chunks.simps)
qed

end
