(* ===== verification/Gateway.thy ===== *)
theory Gateway
  imports Startup Wire Aio_Session
begin

text \<open>
  Two gateways and the network between them: the client process of one node and the server process of
  the other one. Each of them was verified against any bytes that the network may deliver; here the
  network delivers what the other side has written, cut into chunks anywhere and possibly cut off. What
  a broker gets acknowledged on one side, the broker on the other side has confirmed.
\<close>

declare lit_simps [simp del]

section \<open>The protocols of the two processes\<close>

lemma publish_server:
  assumes "publish nd cert get max_connections y counters = (c', counters')"
  shows "(server_step fmt)\<^sup>*\<^sup>* y (cn_server c')"
proof (cases "publish_checks nd cert get max_connections counters")
  case (Inl r)
  let ?q = "terminate_queue (pr_send_queue (y_server y)) (Stop (Some (refusal_item r)))"
  let ?y = "y\<lparr>y_server := (y_server y)\<lparr>pr_send_queue := ?q\<rparr>\<rparr>"
  obtain xs where "aq_items ?q = aq_items (pr_send_queue (y_server y)) @ xs" by (rule exE [OF terminate_queue_items])
  then have "server_step fmt y ?y" by (rule step_enqueue)
  moreover have "server_step fmt ?y (cn_server c')"
    using assms Inl step_processed [of fmt ?y] by (auto simp: publish_def Let_def)
  ultimately show ?thesis by (meson converse_rtranclp_into_rtranclp rtranclp.rtrancl_refl)
qed (use assms in \<open>auto simp: publish_def Let_def\<close>)

lemma conn_step_server:
  assumes "server_ok y" and "pub_inv preprocess z" and "server_link y z" and "conn_step fmt preprocess (y, z) (y', z')"
  shows "(server_step fmt)\<^sup>*\<^sup>* y y'"
  using server_conn.par_step_parts [of fmt preprocess "(y, z)" "(y', z')"] assms
  by (simp add: conn_step_def server_conn.joint_def)

lemma service_step_server:
  assumes inv: "service_inv preprocess max_connections v"
    and "service_step fmt preprocess node_type queue_size max_connections v v'" and "c' \<in> set (sv_connections v')"
  shows "server_start (cn_server c') \<or> (\<exists>c\<in>set (sv_connections v). (server_step fmt)\<^sup>*\<^sup>* (cn_server c) (cn_server c'))"
proof -
  have upd: ?thesis if "i < length (sv_connections v)" "sv_connections v' = (sv_connections v)[i := d]"
      "(server_step fmt)\<^sup>*\<^sup>* (cn_server (sv_connections v ! i)) (cn_server d)" for i d
  proof (cases "c' = d")
    case True
    with that show ?thesis by auto
  next
    case False
    with that assms(3) have "c' \<in> set (sv_connections v)" using set_update_subset_insert by fastforce
    then show ?thesis by blast
  qed
  from assms(2) show ?thesis
  proof cases
    case (accept p)
    have "server_start \<lparr>y_server = p, y_taken = [], y_confirmed = [], y_received = [], y_broken = False\<rparr>"
      using accept(2) unfolding server_start_def create_protocol_def by (fastforce simp: bindE_eq_Inr_conv)
    with accept(1) assms(3) show ?thesis by auto
  next
    case (talk i c y')
    then show ?thesis using step_own [of fmt "cn_server c" y'] by (intro upd [of i "c\<lparr>cn_server := y'\<rparr>"]) auto
  next
    case (check i c nd cert get c1 counters)
    then show ?thesis using publish_server [OF check(6), of fmt] by (intro upd [of i c1]) auto
  next
    case (work i c owner peer z y' z')
    then have "(server_step fmt)\<^sup>*\<^sup>* (cn_server c) y'"
      using service_inv_nth [OF inv work(2)] by (intro conn_step_server [OF _ _ _ work(5)]) (auto simp: connection_ok_def)
    with work show ?thesis by (intro upd) auto
  next
    case (leave i c owner peer z)
    then show ?thesis using step_processed [of fmt "cn_server c"] by (intro upd) auto
  next
    case (linger i c owner peer z y' z')
    then have "(server_step fmt)\<^sup>*\<^sup>* (cn_server c) y'"
      using service_inv_nth [OF inv linger(2)] by (intro conn_step_server [OF _ _ _ linger(5)]) (auto simp: connection_ok_def)
    with linger show ?thesis by (intro upd) auto
  next
    case (put_last i c s)
    obtain xs where "aq_items (run_put_task (pr_send_queue s)) = aq_items (pr_send_queue s) @ xs"
      by (rule exE [OF run_put_task_items])
    then have "server_step fmt (cn_server c) ((cn_server c)\<lparr>y_server := s\<lparr>pr_send_queue := run_put_task (pr_send_queue s)\<rparr>\<rparr>)"
      using step_enqueue [of "run_put_task (pr_send_queue s)" "cn_server c" xs fmt] put_last(5) by simp
    with put_last show ?thesis by (intro upd) auto
  qed
qed

text \<open>Whatever the process does, each of its connections is in a state that the protocol alone can reach.\<close>

lemma service_server_reached:
  assumes "reaches service_start (service_step fmt preprocess node_type queue_size max_connections) v"
    and "c \<in> set (sv_connections v)"
  shows "reaches server_start (server_step fmt) (cn_server c)"
  using assms
proof (induction arbitrary: c rule: reaches.induct)
  case (reaches_init v)
  then show ?case by (simp add: service_start_def)
next
  case (reaches_step v v')
  from service_step_server [OF service_run.reaches_inv [OF reaches_step(1)] reaches_step(2,4)] show ?case
    using reaches_step(3) srv_run.reaches_steps by (blast intro: reaches.reaches_init)
qed

lemma connection_step_client:
  assumes "client_connection_ok transform peer cert c" and "connection_step fmt transform peer cert c c'"
  shows "(client_step fmt)\<^sup>*\<^sup>* (cc_client c) (cc_client c')"
  using assms(2)
proof cases
  case (talk z')
  then show ?thesis using cstep_own by auto
next
  case (check answers url timeout)
  let ?z = "cc_client c" and ?e = "Stop (Some (ServerError (lit ''Invalid certificate subject.'')))"
  let ?q = "terminate_queue (pr_send_queue (z_client ?z)) ?e"
  let ?z1 = "?z\<lparr>z_client := (z_client ?z)\<lparr>pr_send_queue := ?q\<rparr>\<rparr>"
  obtain xs where "aq_items ?q = aq_items (pr_send_queue (z_client ?z)) @ xs" by (rule exE [OF terminate_queue_items])
  then have "client_step fmt ?z ?z1" by (rule cstep_enqueue)
  moreover have "client_step fmt ?z1 (?z1\<lparr>z_client := processor_done (z_client ?z1)\<rparr>)" by (rule cstep_processed)
  ultimately have "(client_step fmt)\<^sup>*\<^sup>* ?z (?z1\<lparr>z_client := processor_done (z_client ?z1)\<rparr>)"
    by (meson converse_rtranclp_into_rtranclp rtranclp.rtrancl_refl)
  with check(1) show ?thesis by (auto simp: consume_def Let_def)
next
  case (work k z' k')
  then show ?thesis
    using client_conn.par_step_parts [of fmt transform "(cc_client c, k)" "(z', k')"] assms(1)
    by (simp add: client_conn_step_def client_conn.joint_def client_connection_ok_def client_ok_def)
next
  case (ended k)
  then show ?thesis using cstep_processed by auto
next
  case (put_last s)
  obtain xs where "aq_items (run_put_task (pr_send_queue s)) = aq_items (pr_send_queue s) @ xs"
    by (rule exE [OF run_put_task_items])
  then have "client_step fmt (cc_client c) ((cc_client c)\<lparr>z_client := s\<lparr>pr_send_queue := run_put_task (pr_send_queue s)\<rparr>\<rparr>)"
    using cstep_enqueue [of "run_put_task (pr_send_queue s)" "cc_client c" xs fmt] put_last(3) by simp
  with put_last(1) show ?thesis by auto
qed

lemma connection_client_reached:
  assumes "reaches (connection_start peer n) (connection_step fmt transform peer cert) c"
  shows "reaches client_start (client_step fmt) (cc_client c)"
  using assms
proof (induction rule: reaches.induct)
  case (reaches_init c)
  then have "client_start (cc_client c)"
    unfolding connection_start_def create_client_protocol_def client_start_def by (fastforce simp: bindE_eq_Inr_conv Let_def)
  then show ?case by (rule reaches.reaches_init)
next
  case (reaches_step c c')
  from connection_step_client [OF connection_run.reaches_inv [OF reaches_step(1)] reaches_step(2)] reaches_step(3)
  show ?case by (rule cl_run.reaches_steps)
qed

lemma server_heard_reached:
  assumes "list_all wf_item items" and "reaches server_start (server_step fmt) y"
  shows "server_heard items y"
  using assms(2) by (induction rule: reaches.induct) (auto intro: server_heard_start [OF assms(1)] server_heard_step)

lemma client_heard_reached:
  assumes "list_all wf_item items" and "reaches client_start (client_step fmt) z"
  shows "client_heard items z"
  using assms(2) by (induction rule: reaches.induct) (auto intro: client_heard_start [OF assms(1)] client_heard_step)

section \<open>What the two sides write\<close>

text \<open>The frames of both sides fit the limits of the parser.\<close>

definition client_fits :: "client_sys \<Rightarrow> bool" where
  "client_fits z \<longleftrightarrow> wf_frame (connect_frame (z_client z)) \<and>
     (\<forall>m\<in>set (z_sent z). wf_frame (send_frame_of (c_send_destination (z_client z)) m) \<and> wf_frame (disconnect_frame (m_id m)))"

definition server_frame_kind :: "stomp_frame \<Rightarrow> bool" where
  "server_frame_kind f \<longleftrightarrow> (\<exists>x y. f = connected_frame x y) \<or> (\<exists>m i c ct cct. f = error_frame m i c ct cct) \<or>
     (\<exists>r. f = receipt_frame r)"

definition server_fits :: "server_sys \<Rightarrow> bool" where
  "server_fits y \<longleftrightarrow> (\<forall>b\<in>set (out_of (y_server y)).
     b = [NL] \<or> (\<exists>f. server_frame_kind f \<and> wf_frame f \<and> frame_bytes f = Inr b))"

lemma server_items:
  assumes "\<forall>b\<in>set bs. b = [NL] \<or> (\<exists>f. server_frame_kind f \<and> wf_frame f \<and> frame_bytes f = Inr b)"
  shows "\<exists>items. list_all2 printed items bs \<and> list_all wf_item items \<and> list_all server_frame_kind (frames_of items)"
  using assms
proof (induction bs)
  case (Cons b bs)
  then obtain items where items: "list_all2 printed items bs" "list_all wf_item items" "list_all server_frame_kind (frames_of items)"
    by auto
  from Cons.prems consider "b = [NL]" | f where "server_frame_kind f" "wf_frame f" "frame_bytes f = Inr b" by auto
  then show ?case
  proof cases
    case 1
    with items show ?thesis by (intro exI [of _ "Beat # items"]) simp
  next
    case 2
    with items show ?thesis by (intro exI [of _ "Frame f # items"]) simp
  qed
qed simp

lemma frame_printed:
  assumes "list_all2 printed items bs" and "f \<in> set (frames_of items)"
  shows "\<exists>b\<in>set bs. frame_bytes f = Inr b"
  using assms
proof (induction items bs rule: list_all2_induct)
  case (Cons i items b bs)
  then show ?case by (cases i) auto
qed simp

text \<open>An identifier that the client has got as a receipt is in a RECEIPT frame that the server has written.\<close>

lemma receipt_written:
  assumes "list_all2 printed items bs" and "list_all server_frame_kind (frames_of items)"
    and "map parsed (frames_of items) = hs @ todo" and "receipt_in hs r"
  shows "\<exists>b\<in>set bs. frame_bytes (receipt_frame r) = Inr b"
proof -
  obtain f' where f': "f' \<in> set hs" "f_command f' = lit ''RECEIPT''" "map_of (f_headers f') (lit ''receipt-id'') = Some r"
    using assms(4) by (auto simp: receipt_in_def)
  then have "f' \<in> set (map parsed (frames_of items))" using assms(3) by simp
  then obtain f where f: "f \<in> set (frames_of items)" "f' = parsed f" by auto
  then have cmd: "f_command f = lit ''RECEIPT''" using f'(2) by (simp add: parsed_def)
  have "server_frame_kind f" using assms(2) f(1) by (simp add: list_all_iff)
  then obtain r' where r': "f = receipt_frame r'"
    using cmd by (auto simp: server_frame_kind_def connected_frame_def error_frame_def Let_def)
  have "map_of (wire_headers f) (lit ''receipt-id'') = map_of (f_headers f) (lit ''receipt-id'')"
    by (rule map_of_wire_headers) (simp add: CONTENT_LENGTH_def)
  then have "r' = r" using f'(3) f(2) r' by (simp add: parsed_def receipt_frame_def)
  with frame_printed [OF assms(1) f(1)] r' show ?thesis by simp
qed

text \<open>The stream of the client, with the messages in its SEND frames.\<close>

lemma client_items:
  assumes "client_inv (z_taken z) (z_sent z) (z_client z)" and "client_fits z"
  obtains items cs ms ds where "list_all2 printed items (out_of (z_client z))" "list_all wf_item items"
    "frames_of items = cs @ map (send_frame_of (c_send_destination (z_client z))) ms @ ds"
    "cs = [] \<or> cs = [connect_frame (z_client z)]" "\<exists>skipped. z_sent z = ms @ skipped"
    "ds = [] \<or> ms \<noteq> [] \<and> ds = [disconnect_frame (m_id (last ms))]"
proof -
  let ?c = "z_client z" and ?dest = "c_send_destination (z_client z)"
  obtain cs ms ds where log: "log_ok (z_sent z) ?c cs ms ds" using assms(1) by (auto simp: client_inv_def)
  have prt: "list_all2 prints (cs @ map (send_frame_of ?dest) ms @ ds) (filter (\<lambda>b. b \<noteq> [NL]) (out_of ?c))"
    and cs: "cs = [] \<or> cs = [connect_frame ?c]" and sent: "\<exists>skipped. z_sent z = ms @ skipped"
    and ds: "ds = [] \<or> ms \<noteq> [] \<and> ds = [disconnect_frame (m_id (last ms))]"
    using log unfolding log_ok_def frames_out_def by blast+
  obtain items where items: "list_all2 printed items (out_of ?c)" "frames_of items = cs @ map (send_frame_of ?dest) ms @ ds"
    using out_as_items [OF prt] by blast
  have sub: "set ms \<subseteq> set (z_sent z)" using sent by auto
  moreover have "last ms \<in> set (z_sent z)" if "ms \<noteq> []" using that sub by auto
  ultimately have "list_all wf_frame (cs @ map (send_frame_of ?dest) ms @ ds)"
    using cs ds assms(2) by (auto simp: list_all_iff client_fits_def)
  then have "list_all wf_item items" unfolding items(2) [symmetric] by (rule wf_items)
  with that items cs sent ds show thesis by blast
qed

lemma commands [simp]:
  "f_command (parsed f) = f_command f" "f_command (connect_frame c) = lit ''STOMP''"
  "f_command (send_frame_of dest m) = lit ''SEND''" "f_command (disconnect_frame r) = lit ''DISCONNECT''"
  by (simp_all add: parsed_def connect_frame_def send_frame_of_def disconnect_frame_def Let_def)

lemma sends_client:
  assumes "cs = [] \<or> cs = [connect_frame c]" and "ds = [] \<or> ds = [disconnect_frame r]"
  shows "sends (map parsed (cs @ map (send_frame_of dest) ms @ ds)) = ms"
proof -
  have "sends (map parsed (map (send_frame_of dest) ms)) = ms"
    by (induction ms) (simp_all add: send_frame_ok)
  with assms show ?thesis by auto
qed

text \<open>The server has received a beginning of these messages; all of them if it has seen DISCONNECT.\<close>

lemma server_received:
  assumes items: "list_all2 printed items (out_of (z_client z))" "list_all wf_item items"
      "frames_of items = cs @ map (send_frame_of dest) ms @ ds"
    and cs: "cs = [] \<or> cs = [connect_frame c]" and ds: "ds = [] \<or> ms \<noteq> [] \<and> ds = [disconnect_frame (m_id (last ms))]"
    and y: "reaches server_start (server_step fmt) y"
    and net: "y_received y @ rest = concat (out_of (z_client z))"
  shows "\<exists>more. ms = received_messages y @ more"
    and "s_disconnect_receipt_id (y_server y) = Some r \<Longrightarrow> received_messages y = ms \<and> ms \<noteq> [] \<and> r = m_id (last ms)"
proof -
  have "y_received y @ rest = stream items" using net printed_stream [OF items(1,2)] by simp
  then obtain hs todo where h: "map parsed (frames_of items) = hs @ todo" "server_heard_by rest hs todo y"
    using server_heard_reached [OF items(2) y] unfolding server_heard_def by metis
  have ms: "ms = sends hs @ sends todo"
    using arg_cong [OF h(1), of sends] sends_client [OF cs, of ds "m_id (last ms)" dest ms] ds unfolding items(3) by auto
  have rec: "received_messages y = sends hs" using h(2) by (simp add: server_heard_by_def)
  show "\<exists>more. ms = received_messages y @ more" using ms rec by auto
  assume "s_disconnect_receipt_id (y_server y) = Some r"
  with h(2) have "disconnected_by hs r" by (simp add: server_heard_by_def)
  then have "\<exists>f\<in>set hs. f_command f = lit ''DISCONNECT'' \<and> map_of (f_headers f) (lit ''receipt'') = Some r"
    unfolding disconnected_by_def by force
  then obtain f where f: "f \<in> set hs" "f_command f = lit ''DISCONNECT''" "map_of (f_headers f) (lit ''receipt'') = Some r"
    by blast
  let ?init = "map parsed (cs @ map (send_frame_of dest) ms)"
  have no: "f \<notin> set ?init" using f(2) cs by auto
  have all: "?init @ map parsed ds = hs @ todo" using h(1) items(3) by simp
  have "f \<in> set (?init @ map parsed ds)" unfolding all using f(1) by simp
  then have d: "ms \<noteq> []" "ds = [disconnect_frame (m_id (last ms))]" "f = parsed (disconnect_frame (m_id (last ms)))"
    using no ds by auto
  have "todo = []"
  proof (rule ccontr)
    assume "todo \<noteq> []"
    then have "hs @ butlast todo = ?init" using all d(2) by (metis butlast_append butlast_snoc list.simps(8,9) append_is_Nil_conv)
    with f(1) no show False by (metis Un_iff set_append)
  qed
  moreover have "map_of (wire_headers f) k = map_of (f_headers f) k" if "k = lit ''receipt''" for f k
    using that by (intro map_of_wire_headers) (simp add: CONTENT_LENGTH_def)
  ultimately show "received_messages y = ms \<and> ms \<noteq> [] \<and> r = m_id (last ms)"
    using rec ms d f(3) by (simp add: parsed_def disconnect_frame_def)
qed

section \<open>From an acknowledgement back to a confirmation\<close>

text \<open>What the client has sent is the beginning of what its consumer has put into the send queue.\<close>

lemma sent_prefix:
  assumes "con_inv transform k" and "client_link z k"
  shows "\<exists>rest. kl_put k = z_sent z @ rest"
proof -
  obtain rest where "kl_read k @ aq_future (cs_send (kl_con k)) = map Payload (kl_put k) @ rest" "payloads rest = []"
    using assms(1) by (auto simp: con_inv_def con_sent_def split: if_splits)
  then have "payloads (kl_read k @ aq_future (cs_send (kl_con k))) = kl_put k" by simp
  with assms(2) show ?thesis by (metis client_link_def payloads_append)
qed

text \<open>A tag is acknowledged because of a receipt.\<close>

lemma receipt_tags_origin: "t \<in> set (receipt_tags rs) \<Longrightarrow> \<exists>s. Some s \<in> set rs \<and> py_int 10 s = Some t"
  by (induction rs) (auto split: option.splits if_splits)

lemma acked_receipt:
  assumes "con_inv transform k" and "client_link z k" and "t \<in> set (kl_acks k)"
  shows "\<exists>s. Some s \<in> set (z_taken z) \<and> py_int 10 s = Some t"
  using assms receipt_tags_origin [of t "kl_receipts k"] by (simp add: con_inv_def con_acks_def client_link_def)

text \<open>A receipt that the client has got was written by the server.\<close>

lemma taken_written:
  assumes "reaches client_start (client_step fmt) z" and "server_fits y"
    and "z_received z @ rest = concat (out_of (y_server y))" and "Some r \<in> set (z_taken z)"
  shows "\<exists>b\<in>set (out_of (y_server y)). frame_bytes (receipt_frame r) = Inr b"
proof -
  obtain items where items: "list_all2 printed items (out_of (y_server y))" "list_all wf_item items"
    "list_all server_frame_kind (frames_of items)"
    using server_items [OF assms(2) [unfolded server_fits_def]] by blast
  have "z_received z @ rest = stream items" using assms(3) printed_stream [OF items(1,2)] by simp
  then obtain hs todo where h: "map parsed (frames_of items) = hs @ todo" "client_heard_by rest hs todo z"
    using client_heard_reached [OF items(2) assms(1)] unfolding client_heard_def by metis
  from h(2) assms(4) have "receipt_in hs r" by (simp add: client_heard_by_def)
  from receipt_written [OF items(1,3) h(1) this] show ?thesis .
qed

text \<open>A receipt is written for a confirmed message, unless the connection was closed before any message came.\<close>

lemma written_confirmed:
  assumes ok: "connection_ok preprocess c" and b: "b \<in> set (out_of (y_server (cn_server c)))" "frame_bytes (receipt_frame r) = Inr b"
    and last: "s_disconnect_receipt_id (y_server (cn_server c)) = Some r \<Longrightarrow>
      received_messages (cn_server c) \<noteq> [] \<and> r = m_id (last (received_messages (cn_server c)))"
  shows "\<exists>owner peer z. (cn_task c = Publishing_for owner peer z \<or> cn_task c = Gone owner peer z) \<and>
    confirmed_id (preprocess owner peer) z r"
proof -
  let ?y = "cn_server c"
  have y: "server_ok ?y" using ok by (simp add: connection_ok_def)
  have due: "confirmed_id (preprocess owner peer) z r"
    if "pub_inv (preprocess owner peer) z" "server_link ?y z" for owner peer z
    using conn_receipt_due [OF y that b] last unfolding receipt_due_def by auto
  have "y_confirmed ?y \<noteq> []"
  proof
    assume none: "y_confirmed ?y = []"
    have "justified (y_confirmed ?y) (y_server ?y) b"
      using y b(1) by (auto simp: server_ok_def server_inv_def list_all_iff)
    from justified_receipt [OF this b(2)] none have "s_disconnect_receipt_id (y_server ?y) = Some r" "s_last_message_id (y_server ?y) = None"
      by (auto simp: all_confirmed_def split: option.splits)
    with last received_messages_eq(2) [OF y] show False by simp
  qed
  with ok due show ?thesis by (cases "cn_task c") (auto simp: connection_ok_def)
qed

text \<open>
  The message with the tag \<open>t\<close> and all that were delivered before it have got through: what the
  server's publisher took, in the same order, is what the client's consumer made of them, and the
  broker at the other side has confirmed it.
\<close>

definition got_through ::
  "(rmq_message \<Rightarrow> proc_error + message) \<Rightarrow> (message \<Rightarrow> pre_error + rmq_message) \<Rightarrow> con_sys \<Rightarrow> pub_sys \<Rightarrow> int \<Rightarrow> bool" where
  "got_through transform preprocess k z t \<longleftrightarrow>
     (\<exists>n. n < length (kl_delivered k) \<and> im_delivery_tag (kl_delivered k ! n) = Some t \<and>
        (\<forall>i\<le>n. received_message transform (kl_delivered k ! i) = Inr (pl_taken z ! i) \<and> i \<in> set (pl_confirmed z) \<and>
           (\<exists>r. preprocess (pl_taken z ! i) = Inr r \<and> (i, broker_message_of r) \<in> set (pl_published z))))"

lemma confirmed_got_through:
  assumes msgs: "con_msgs transform k" and put: "kl_put k = pl_taken z @ rest"
    and keeps_id: "\<And>r m. transform r = Inr m \<Longrightarrow> m_id m = rm_id r"
    and "confirmed_id preprocess z r" and "py_int 10 r = Some t"
  shows "got_through transform preprocess k z t"
proof -
  obtain n where n: "n < length (pl_taken z)" "r = m_id (pl_taken z ! n)"
    "\<forall>i\<le>n. i \<in> set (pl_confirmed z) \<and> (\<exists>m. preprocess (pl_taken z ! i) = Inr m \<and> (i, broker_message_of m) \<in> set (pl_published z))"
    using assms(4) by (auto simp: confirmed_id_def)
  have rcv: "received_message transform (kl_delivered k ! i) = Inr (pl_taken z ! i)" if "i \<le> n" for i
    using con_msgs_nth [OF msgs, of i] put that n(1) by (simp add: nth_append)
  obtain tag where "im_delivery_tag (kl_delivered k ! n) = Some tag" "m_id (pl_taken z ! n) = dec_of_int tag"
    using received_message_id [OF keeps_id rcv [OF order_refl]] by blast
  with assms(5) n(2) have tag: "im_delivery_tag (kl_delivered k ! n) = Some t" by (simp add: py_int_dec_of_int)
  have len: "n < length (kl_delivered k)" using msgs put n(1) by (simp add: con_msgs_def)
  from n(3) rcv tag len show ?thesis unfolding got_through_def by blast
qed

text \<open>The network has delivered to each side a beginning of what the other side has written.\<close>

definition network :: "client_sys \<Rightarrow> server_sys \<Rightarrow> bool" where
  "network z y \<longleftrightarrow> (\<exists>rest. y_received y @ rest = concat (out_of (z_client z))) \<and>
     (\<exists>rest. z_received z @ rest = concat (out_of (y_server y)))"

text \<open>The two connections, and the network between them, seen from the consumer.\<close>

lemma acked_got_through:
  assumes client: "reaches client_start (client_step fmt) z" "client_inv (z_taken z) (z_sent z) (z_client z)"
      "con_inv transform k" "client_link z k" "client_fits z"
    and server: "reaches server_start (server_step fmt') (cn_server c)" "connection_ok preprocess c" "server_fits (cn_server c)"
    and net: "network z (cn_server c)"
    and keeps_id: "\<And>r m. transform r = Inr m \<Longrightarrow> m_id m = rm_id r"
    and ack: "t \<in> set (kl_acks k)"
  shows "\<exists>owner peer w. (cn_task c = Publishing_for owner peer w \<or> cn_task c = Gone owner peer w) \<and>
    got_through transform (preprocess owner peer) k w t"
proof -
  let ?y = "cn_server c"
  from net obtain rest rest' where there: "y_received ?y @ rest = concat (out_of (z_client z))"
    and reply: "z_received z @ rest' = concat (out_of (y_server ?y))" by (auto simp: network_def)
  obtain s where s: "Some s \<in> set (z_taken z)" "py_int 10 s = Some t" using acked_receipt [OF client(3,4) ack] by blast
  obtain b where b: "b \<in> set (out_of (y_server ?y))" "frame_bytes (receipt_frame s) = Inr b"
    using taken_written [OF client(1) server(3) reply s(1)] by blast
  obtain items cs ms ds where items: "list_all2 printed items (out_of (z_client z))" "list_all wf_item items"
    "frames_of items = cs @ map (send_frame_of (c_send_destination (z_client z))) ms @ ds"
    "cs = [] \<or> cs = [connect_frame (z_client z)]" "\<exists>skipped. z_sent z = ms @ skipped"
    "ds = [] \<or> ms \<noteq> [] \<and> ds = [disconnect_frame (m_id (last ms))]"
    by (rule client_items [OF client(2,5)])
  note got = server_received [OF items(1-4,6) server(1) there]
  from written_confirmed [OF server(2) b] got(2) obtain owner peer w where
    w: "cn_task c = Publishing_for owner peer w \<or> cn_task c = Gone owner peer w" "confirmed_id (preprocess owner peer) w s"
    by metis
  then have "server_link ?y w" "server_ok ?y" using server(2) by (auto simp: connection_ok_def)
  then obtain rest1 where "received_messages ?y = pl_taken w @ rest1" using taken_received by blast
  moreover obtain rest2 where "kl_put k = z_sent z @ rest2" using sent_prefix [OF client(3,4)] by blast
  ultimately obtain rest3 where "kl_put k = pl_taken w @ rest3" using got(1) items(5) by auto
  with client(3) w(2) s(2) have "got_through transform (preprocess owner peer) k w t"
    by (intro confirmed_got_through [OF _ _ keeps_id]) (auto simp: con_inv_def)
  with w(1) show ?thesis by blast
qed

end
