(* ===== verification/Configure_Queue.thy ===== *)
theory Configure_Queue
  imports Peer_Data
begin

text \<open>
  The command \<^verbatim>\<open>swpt_stomp/configure_queue.py\<close>: it declares at the broker the exchanges and queues
  through which messages reach a peer. What it asks of the broker (the package \<^verbatim>\<open>aio_pika\<close>) is a list
  of calls, each of which may raise (an argument says which do); a run ends with the calls that were
  made, and the exception that ended it, if any.
\<close>

declare lit_simps [simp del]

section \<open>The command\<close>

datatype argument = ArgInt int | ArgStr str

text \<open>The flag of a declaration is \<^verbatim>\<open>durable\<close>.\<close>

datatype broker_command =
    ConnectBroker str
  | OpenBrokerChannel
  | DeclareExchange str str bool
  | BindExchange str str str
  | DeclareQueue str bool "(str \<times> argument) list"
  | BindQueue str str

datatype configure_error = SysExit int | DatabaseRaised "db_error + exc" | Raised exc | BrokerFails

text \<open>
  The choice of the main exchange: the prefix of the owner, the name and the type of the exchange,
  and the subnet of the binding key (there is none for a fanout exchange).
\<close>

definition main_exchange :: "node_type \<Rightarrow> peer_data \<Rightarrow> exc + (str \<times> str \<times> str \<times> subnet option)" where
  "main_exchange owner_node_type peer_data =
     (let peer_node_type = pd_node_type peer_data in
      if owner_node_type = AA then
        (if peer_node_type = CA then
           Inr (lit ''aa'', lit ''to_creditors'', lit ''topic'', Some (pd_creditors_subnet peer_data))
         else if peer_node_type = DA then
           Inr (lit ''aa'', lit ''to_debtors'', lit ''topic'', Some (pd_debtors_subnet peer_data))
         else Inl AssertionError)
      else if owner_node_type = CA then
        (if peer_node_type = AA then
           Inr (lit ''ca'', lit ''creditors_out'', lit ''topic'', Some (pd_debtors_subnet peer_data))
         else Inl AssertionError)
      else
        (if owner_node_type = DA \<and> peer_node_type = AA then
           Inr (lit ''da'', lit ''debtors_out'', lit ''fanout'', None)
         else Inl AssertionError))"

definition message_ttl :: "str \<times> argument" where
  "message_ttl = (lit ''x-message-ttl'', ArgInt 604800000)"

definition queue_commands :: "str \<Rightarrow> str \<Rightarrow> str \<Rightarrow> str \<Rightarrow> str \<Rightarrow> str \<Rightarrow> broker_command list" where
  "queue_commands owner_prefix main_name key peer_node_id queue_name dead_letter_queue_name =
     (let peer_exchange = owner_prefix @ lit ''.x.'' @ peer_node_id in
      [DeclareExchange peer_exchange (lit ''x-random'') True,
       BindExchange peer_exchange main_name key,
       DeclareQueue dead_letter_queue_name True [message_ttl],
       DeclareQueue queue_name True
         [message_ttl, (lit ''x-dead-letter-exchange'', ArgStr []),
          (lit ''x-dead-letter-routing-key'', ArgStr dead_letter_queue_name)],
       BindQueue queue_name peer_exchange])"

definition bind_queue ::
  "(broker_command \<Rightarrow> configure_error option) \<Rightarrow> str \<Rightarrow>
   db_error + node_data \<Rightarrow> (db_error + exc) + peer_data option \<Rightarrow> str \<Rightarrow> str \<Rightarrow>
   (broker_command, configure_error, unit) calling" where
  "bind_queue answers broker_url node_data_result peer_data_result peer_node_id queue_name =
     andthen (value_of (map_sum (DatabaseRaised \<circ> Inl) id node_data_result)) (\<lambda>owner_node_data.
     andthen (value_of (map_sum DatabaseRaised id peer_data_result)) (\<lambda>found.
       case found of
         None \<Rightarrow> value_of (Inl (SysExit 1))
       | Some peer_data \<Rightarrow>
           andthen (call_all answers [ConnectBroker broker_url, OpenBrokerChannel]) (\<lambda>_.
           andthen (value_of (map_sum Raised id (main_exchange (nd_node_type owner_node_data) peer_data)))
             (\<lambda>(owner_prefix, name, kind, sn).
           andthen (call answers (DeclareExchange name kind True)) (\<lambda>_.
           andthen (value_of (map_sum Raised id (case sn of None \<Rightarrow> Inr [] | Some sn \<Rightarrow> binding_key sn))) (\<lambda>key.
             call_all answers
               (queue_commands owner_prefix name key peer_node_id queue_name (queue_name @ lit ''.XQ''))))))))"

section \<open>What the commands set up\<close>

lemma wf_subnet_bytes:
  assumes "wf_subnet sn"
  shows "to_bytes_unsigned (sn_subnet sn) = Inr (be_bytes (sn_subnet sn))"
    and "to_bytes_unsigned (sn_mask sn) = Inr (be_bytes (sn_mask sn))"
proof -
  obtain k where k: "wf_subnet_bits k sn" using assms by (auto simp: wf_subnet_def)
  have "take_bit 64 (sn_subnet sn) = sn_subnet sn"
    by (rule bit_eqI) (use bit_subnet [OF k] in \<open>auto simp: bit_take_bit_iff\<close>)
  then have "0 \<le> sn_subnet sn" "sn_subnet sn < 2 ^ 64"
    by (metis take_bit_nonnegative, metis take_bit_int_less_exp)
  then show "to_bytes_unsigned (sn_subnet sn) = Inr (be_bytes (sn_subnet sn))" by (simp add: to_bytes_unsigned_def)
  show "to_bytes_unsigned (sn_mask sn) = Inr (be_bytes (sn_mask sn))"
    using shift_mask_range [of k] k by (simp add: to_bytes_unsigned_def wf_subnet_bits_def push_bit_nonnegative_int_iff)
qed

text \<open>
  The key for a subnet of \<open>n\<close> whole bytes, as RabbitMQ reads it: these bytes as words, and any words
  after them. A subnet that ends within a byte has none.
\<close>

definition subnet_key :: "nat \<Rightarrow> subnet \<Rightarrow> str" where
  "subnet_key n sn =
     (if n = 0 then lit ''#''
      else py_join (lit ''.'') (map hex_byte (take n (be_bytes (sn_subnet sn)))) @ (if n < 8 then lit ''.#'' else []))"

lemma binding_key_bits:
  assumes "wf_subnet_bits k sn"
  shows "binding_key sn = (if k mod 8 = 0 then Inr (subnet_key (k div 8) sn) else Inl RuntimeError)"
proof -
  have k: "k \<le> 64" "sn_mask sn = push_bit (64 - k) (mask k)" using assms by (simp_all add: wf_subnet_bits_def)
  have wf: "wf_subnet sn" using assms wf_subnet_def by blast
  have "length (take (k div 8) (be_bytes (sn_subnet sn))) = k div 8" using k(1) by (simp add: be_bytes_def)
  with k binding_parts_subnet [OF k(1), of "sn_subnet sn"] wf_subnet_bytes [OF wf] show ?thesis
    by (auto simp: binding_key_def subnet_key_def Let_def)
qed

text \<open>What a call of the command does, for the exchange and the key that it has chosen.\<close>

lemma bind_queue_key:
  assumes "main_exchange (nd_node_type owner) p = Inr (prefix, main, kind, sn)"
    and "(case sn of None \<Rightarrow> Inr [] | Some sn \<Rightarrow> binding_key sn) = Inr key"
  shows "bind_queue answers url (Inr owner) (Inr (Some p)) peer_node_id queue_name =
    call_all answers ([ConnectBroker url, OpenBrokerChannel, DeclareExchange main kind True] @
      queue_commands prefix main key peer_node_id queue_name (queue_name @ lit ''.XQ''))"
  using assms by (simp add: bind_queue_def call_all_single call_all_append)

lemma bind_queue_no_key:
  assumes "main_exchange (nd_node_type owner) p = Inr (prefix, main, kind, sn)"
    and "(case sn of None \<Rightarrow> Inr [] | Some sn \<Rightarrow> binding_key sn) = Inl e"
  shows "bind_queue answers url (Inr owner) (Inr (Some p)) peer_node_id queue_name =
    andthen (call_all answers [ConnectBroker url, OpenBrokerChannel, DeclareExchange main kind True])
      (\<lambda>_. value_of (Inl (Raised e)))"
proof -
  have split: "call_all answers [ConnectBroker url, OpenBrokerChannel, DeclareExchange main kind True] =
      andthen (call_all answers [ConnectBroker url, OpenBrokerChannel]) (\<lambda>_. call answers (DeclareExchange main kind True))"
    by (simp add: call_all_single call_all_append)
  show ?thesis using assms by (simp add: bind_queue_def split andthen_assoc)
qed

text \<open>The table of the main exchanges, for the peers that a database can return.\<close>

lemma main_exchange_table:
  assumes "peer_ok owner p"
  obtains prefix main kind sn where "main_exchange (nd_node_type owner) p = Inr (prefix, main, kind, sn)"
    and "(nd_node_type owner, pd_node_type p, main, kind, prefix, sn) \<in>
      {(AA, CA, lit ''to_creditors'', lit ''topic'', lit ''aa'', Some (pd_creditors_subnet p)),
       (AA, DA, lit ''to_debtors'', lit ''topic'', lit ''aa'', Some (pd_debtors_subnet p)),
       (CA, AA, lit ''creditors_out'', lit ''topic'', lit ''ca'', Some (pd_debtors_subnet p)),
       (DA, AA, lit ''debtors_out'', lit ''fanout'', lit ''da'', None)}"
    and "\<And>s. sn = Some s \<Longrightarrow> wf_subnet s"
  using assms by (cases "nd_node_type owner"; cases "pd_node_type p") (auto simp: peer_ok_def main_exchange_def)

text \<open>How a run ends, once the exchange is chosen.\<close>

lemma bind_queue_run:
  assumes "main_exchange (nd_node_type owner) p = Inr (prefix, main, kind, sn)"
    and "\<And>s. sn = Some s \<Longrightarrow> wf_subnet_bits k s"
    and "bind_queue answers url (Inr owner) (Inr (Some p)) peer_node_id queue_name = (cs, r)"
  shows "let opening = [ConnectBroker url, OpenBrokerChannel, DeclareExchange main kind True];
      all = opening @ queue_commands prefix main (case sn of None \<Rightarrow> [] | Some s \<Rightarrow> subnet_key (k div 8) s)
        peer_node_id queue_name (queue_name @ lit ''.XQ'')
    in case r of
         Inr _ \<Rightarrow> (sn \<noteq> None \<longrightarrow> k mod 8 = 0) \<and> cs = all \<and> (\<forall>c\<in>set all. answers c = None)
       | Inl e \<Rightarrow>
           (\<exists>rest. all = cs @ rest) \<and> cs \<noteq> [] \<and> (\<forall>c\<in>set (butlast cs). answers c = None) \<and>
           (answers (last cs) = Some e \<or>
            answers (last cs) = None \<and> cs = opening \<and> sn \<noteq> None \<and> k mod 8 \<noteq> 0 \<and> e = Raised RuntimeError)"
proof (cases "sn \<noteq> None \<and> k mod 8 \<noteq> 0")
  case True
  let ?opening = "[ConnectBroker url, OpenBrokerChannel, DeclareExchange main kind True]"
  from True have no_key: "(case sn of None \<Rightarrow> Inr [] | Some sn \<Rightarrow> binding_key sn) = Inl RuntimeError"
    using binding_key_bits [OF assms(2)] by auto
  note run = bind_queue_no_key [OF assms(1) no_key, of answers url peer_node_id queue_name]
  show ?thesis
  proof (cases "call_all answers ?opening")
    case (Pair ds q)
    show ?thesis
    proof (cases q)
      case (Inl e)
      with run Pair assms(3) have r: "cs = ds" "r = Inl e" by (simp_all add: andthen_def)
      obtain rest where rest: "?opening = ds @ rest" "ds \<noteq> []" "answers (last ds) = Some e" "\<forall>c\<in>set (butlast ds). answers c = None"
        using call_all_Inl [OF Pair [unfolded Inl]] by blast
      then have "\<exists>more. ?opening @ xs = ds @ more" for xs by simp
      with r rest(2-4) show ?thesis unfolding Let_def by simp
    next
      case (Inr u)
      with run Pair assms(3) have "cs = ds" "r = Inl (Raised RuntimeError)" by (simp_all add: andthen_def value_of_def)
      with Pair [unfolded Inr call_all_Inr] True show ?thesis by (simp add: Let_def)
    qed
  qed
next
  case False
  then have "(case sn of None \<Rightarrow> Inr [] | Some sn \<Rightarrow> binding_key sn) = Inr (case sn of None \<Rightarrow> [] | Some s \<Rightarrow> subnet_key (k div 8) s)"
    using binding_key_bits [OF assms(2)] by (cases sn) auto
  from bind_queue_key [OF assms(1) this] assms(3) have
    run: "call_all answers ([ConnectBroker url, OpenBrokerChannel, DeclareExchange main kind True] @
      queue_commands prefix main (case sn of None \<Rightarrow> [] | Some s \<Rightarrow> subnet_key (k div 8) s) peer_node_id queue_name
        (queue_name @ lit ''.XQ'')) = (cs, r)" by simp
  show ?thesis
  proof (cases r)
    case (Inl e)
    with call_all_Inl [OF run [unfolded Inl]] show ?thesis by (auto simp: Let_def)
  next
    case (Inr u)
    with run [unfolded Inr call_all_Inr] False show ?thesis by (auto simp: Let_def)
  qed
qed

section \<open>An example\<close>

definition example_owner :: node_data where
  "example_owner = \<lparr>nd_node_type = AA, nd_node_id = lit ''1234'', nd_root_cert = [],
     nd_creditors_subnet = UNIVERSAL_SUBNET, nd_debtors_subnet = ZERO_SUBNET\<rparr>"

definition example_debtor :: peer_data where
  "example_debtor = (example_cached (lit ''5678''))\<lparr>pd_node_type := DA\<rparr>"

lemma example_debtor_ok: "peer_ok example_owner example_debtor"
  by (simp add: peer_ok_def example_debtor_def example_cached_def example_owner_def)

text \<open>
  C31: For every peer that the database of a node can return, the command never fails an assertion.
  It makes its calls in a fixed order: a connection and a channel; the main exchange for peers of
  this type, which is \<^verbatim>\<open>to_creditors\<close> or \<^verbatim>\<open>to_debtors\<close> for an accounting authority, \<^verbatim>\<open>creditors_out\<close> for a
  creditors agent and the fanout exchange \<^verbatim>\<open>debtors_out\<close> for a debtors agent; the exchange of the peer, bound to it with the
  whole bytes of the subnet that the peer's messages are about; the dead-letter queue, the queue that names it, both
  with a week's time to live, and the binding of the queue. Everything declared is durable. It succeeds only if no call
  raised. Otherwise it ends with the exception of the last call it made, all others having
  succeeded; or the subnet does not end at a byte, and it ends with \<^verbatim>\<open>RuntimeError\<close> before the exchange of the peer.
\<close>

theorem bind_queue_connects:
  assumes "peer_ok owner p" and "bind_queue answers url (Inr owner) (Inr (Some p)) peer_node_id queue_name = (cs, r)"
  shows "\<exists>main kind prefix sn k.
    (nd_node_type owner, pd_node_type p, main, kind, prefix, sn) \<in>
      {(AA, CA, lit ''to_creditors'', lit ''topic'', lit ''aa'', Some (pd_creditors_subnet p)),
       (AA, DA, lit ''to_debtors'', lit ''topic'', lit ''aa'', Some (pd_debtors_subnet p)),
       (CA, AA, lit ''creditors_out'', lit ''topic'', lit ''ca'', Some (pd_debtors_subnet p)),
       (DA, AA, lit ''debtors_out'', lit ''fanout'', lit ''da'', None)} \<and>
    (\<forall>s. sn = Some s \<longrightarrow> wf_subnet_bits k s) \<and>
    (let opening = [ConnectBroker url, OpenBrokerChannel, DeclareExchange main kind True];
         key = (case sn of None \<Rightarrow> [] | Some s \<Rightarrow> subnet_key (k div 8) s);
         px = prefix @ lit ''.x.'' @ peer_node_id;
         dlq = queue_name @ lit ''.XQ'';
         ttl = (lit ''x-message-ttl'', ArgInt 604800000);
         all = opening @
           [DeclareExchange px (lit ''x-random'') True, BindExchange px main key, DeclareQueue dlq True [ttl],
            DeclareQueue queue_name True
              [ttl, (lit ''x-dead-letter-exchange'', ArgStr []), (lit ''x-dead-letter-routing-key'', ArgStr dlq)],
            BindQueue queue_name px]
     in case r of
          Inr _ \<Rightarrow> (sn \<noteq> None \<longrightarrow> k mod 8 = 0) \<and> cs = all \<and> (\<forall>c\<in>set all. answers c = None)
        | Inl e \<Rightarrow>
            (\<exists>rest. all = cs @ rest) \<and> cs \<noteq> [] \<and> (\<forall>c\<in>set (butlast cs). answers c = None) \<and>
            (answers (last cs) = Some e \<or>
             answers (last cs) = None \<and> cs = opening \<and> sn \<noteq> None \<and> k mod 8 \<noteq> 0 \<and> e = Raised RuntimeError))"
proof -
  obtain prefix main kind sn where m: "main_exchange (nd_node_type owner) p = Inr (prefix, main, kind, sn)"
    and table: "(nd_node_type owner, pd_node_type p, main, kind, prefix, sn) \<in>
      {(AA, CA, lit ''to_creditors'', lit ''topic'', lit ''aa'', Some (pd_creditors_subnet p)),
       (AA, DA, lit ''to_debtors'', lit ''topic'', lit ''aa'', Some (pd_debtors_subnet p)),
       (CA, AA, lit ''creditors_out'', lit ''topic'', lit ''ca'', Some (pd_debtors_subnet p)),
       (DA, AA, lit ''debtors_out'', lit ''fanout'', lit ''da'', None)}"
    and wf: "\<And>s. sn = Some s \<Longrightarrow> wf_subnet s" by (rule main_exchange_table [OF assms(1)]) blast
  obtain k where k: "\<And>s. sn = Some s \<Longrightarrow> wf_subnet_bits k s" using wf unfolding wf_subnet_def by (cases sn) auto
  show ?thesis
  proof (intro exI conjI allI impI)
    show "(nd_node_type owner, pd_node_type p, main, kind, prefix, sn) \<in>
      {(AA, CA, lit ''to_creditors'', lit ''topic'', lit ''aa'', Some (pd_creditors_subnet p)),
       (AA, DA, lit ''to_debtors'', lit ''topic'', lit ''aa'', Some (pd_debtors_subnet p)),
       (CA, AA, lit ''creditors_out'', lit ''topic'', lit ''ca'', Some (pd_debtors_subnet p)),
       (DA, AA, lit ''debtors_out'', lit ''fanout'', lit ''da'', None)}" by (rule table)
    show "wf_subnet_bits k s" if "sn = Some s" for s by (rule k [OF that])
  qed (use bind_queue_run [OF m k assms(2)] in \<open>simp add: message_ttl_def queue_commands_def Let_def\<close>)
qed

theorem bind_queue_connects_witness:
  "peer_ok example_owner example_debtor \<and>
   (\<exists>rest. bind_queue (\<lambda>_. None) (lit ''amqp'') (Inr example_owner) (Inr (Some example_debtor)) (lit ''5678'') (lit ''q'') =
      ([ConnectBroker (lit ''amqp''), OpenBrokerChannel, DeclareExchange (lit ''to_debtors'') (lit ''topic'') True] @ rest, Inr ()))"
proof -
  obtain cs r where b: "bind_queue (\<lambda>_. None) (lit ''amqp'') (Inr example_owner) (Inr (Some example_debtor)) (lit ''5678'') (lit ''q'') = (cs, r)"
    by (cases "bind_queue (\<lambda>_. None) (lit ''amqp'') (Inr example_owner) (Inr (Some example_debtor)) (lit ''5678'') (lit ''q'')")
  have t: "nd_node_type example_owner = AA" "pd_node_type example_debtor = DA" "pd_debtors_subnet example_debtor = ZERO_SUBNET"
    by (simp_all add: example_owner_def example_debtor_def example_cached_def)
  have "\<not> (wf_subnet_bits k ZERO_SUBNET \<and> k mod 8 \<noteq> 0)" for k
    using same_mask [OF wf_constants(1), of k ZERO_SUBNET] by auto
  with bind_queue_connects [OF example_debtor_ok b] b t example_debtor_ok show ?thesis
    by (cases r) (auto simp: Let_def)
qed

end
