(* ===== verification/Loggers.thy ===== *)
theory Loggers
  imports Text
begin

text \<open>
  The set-up of logging in \<^verbatim>\<open>swpt_stomp/loggers.py\<close>. The state is what the module changes of the package
  \<^verbatim>\<open>logging\<close>: the levels of the loggers, the handlers of the root logger, the queues with their
  listeners, and \<^verbatim>\<open>sys.excepthook\<close>. An exception leaves the state as it is at that point.
\<close>

declare lit_simps [simp del]

section \<open>The state of the logging package\<close>

text \<open>
  A handler is known by its identity: one that something else has installed, or the
  \<^verbatim>\<open>QueueHandler\<close> of the queue with this number. A logger that was never asked for has no level yet; a
  new one has the level \<^verbatim>\<open>NOTSET\<close>.
\<close>

datatype log_handler = Other_handler nat | Queue_handler nat

datatype formatter = Text_formatter str str | Json_formatter str str

record listener =
  ls_queue :: nat
  ls_formatter :: formatter

record logging =
  lo_root_level :: nat
  lo_root_handlers :: "log_handler list"
  lo_levels :: "str \<rightharpoonup> nat"
  lo_queues :: nat
  lo_listeners :: "listener list"
  lo_excepthook :: bool

datatype log_error = Unknown_level str | Invalid_format str | No_json_logger

definition NOTSET :: nat where "NOTSET = 0"
definition WARNING :: nat where "WARNING = 30"

text \<open>
  The names that \<^verbatim>\<open>setLevel\<close> knows, and \<^verbatim>\<open>str.upper\<close> as far as it can lead to one of them: the ten
  characters outside ASCII whose upper case is in ASCII. Any other one leads outside ASCII.
\<close>

definition level_names :: "(str \<times> nat) list" where
  "level_names = [(lit ''CRITICAL'', 50), (lit ''FATAL'', 50), (lit ''ERROR'', 40), (lit ''WARN'', 30), (lit ''WARNING'', 30),
     (lit ''INFO'', 20), (lit ''DEBUG'', 10), (lit ''NOTSET'', 0)]"

definition upper_char :: "nat \<Rightarrow> str" where
  "upper_char c =
     (if 97 \<le> c \<and> c \<le> 122 then [c - 32]
      else if c = 0xdf then lit ''SS'' else if c = 0x131 then lit ''I'' else if c = 0x17f then lit ''S''
      else if c = 0xfb00 then lit ''FF'' else if c = 0xfb01 then lit ''FI'' else if c = 0xfb02 then lit ''FL''
      else if c = 0xfb03 then lit ''FFI'' else if c = 0xfb04 then lit ''FFL'' else if c \<in> {0xfb05, 0xfb06} then lit ''ST''
      else [c])"

definition level_number :: "str \<Rightarrow> nat option" where
  "level_number level = map_of level_names (concat (map upper_char level))"

text \<open>
  \<^verbatim>\<open>logging.getLogger\<close>, which makes a logger that is not there yet, and \<^verbatim>\<open>setLevel\<close> with a number. The
  name of the root logger, or no name, is the root logger.
\<close>

definition is_root :: "str \<Rightarrow> bool" where
  "is_root name \<longleftrightarrow> name = [] \<or> name = lit ''root''"

definition get_logger :: "str \<Rightarrow> logging \<Rightarrow> logging" where
  "get_logger name s =
     (if is_root name \<or> lo_levels s name \<noteq> None then s else s\<lparr>lo_levels := (lo_levels s)(name \<mapsto> NOTSET)\<rparr>)"

definition set_level :: "str \<Rightarrow> nat \<Rightarrow> logging \<Rightarrow> logging" where
  "set_level name level s =
     (if is_root name then s\<lparr>lo_root_level := level\<rparr> else s\<lparr>lo_levels := (lo_levels s)(name \<mapsto> level)\<rparr>)"

text \<open>\<^verbatim>\<open>getEffectiveLevel\<close> of a logger whose name has no dot, so that its parent is the root logger.\<close>

definition effective_level :: "str \<Rightarrow> logging \<Rightarrow> nat" where
  "effective_level name s =
     (if is_root name then lo_root_level s
      else case lo_levels s name of
             None \<Rightarrow> lo_root_level s
           | Some level \<Rightarrow> if level \<noteq> NOTSET then level else lo_root_level s)"

section \<open>The module\<close>

text \<open>The default of \<^verbatim>\<open>associated_loggers\<close>: the words of an environment variable, split at white space.\<close>

definition is_space :: "nat \<Rightarrow> bool" where
  "is_space cp \<longleftrightarrow> 9 \<le> cp \<and> cp \<le> 13 \<or> 28 \<le> cp \<and> cp \<le> 32 \<or> uni_space cp"

function split_words :: "str \<Rightarrow> str list" where
  "split_words s =
     (let rest = dropWhile is_space s in
      if rest = [] then []
      else takeWhile (\<lambda>c. \<not> is_space c) rest # split_words (dropWhile (\<lambda>c. \<not> is_space c) rest))"
  by auto
termination
proof (relation "measure length")
  fix s rest
  assume rest: "rest = dropWhile is_space s" "rest \<noteq> []"
  then have "\<not> is_space (hd rest)" by (metis hd_dropWhile)
  with rest(2) have "length (dropWhile (\<lambda>c. \<not> is_space c) rest) < length rest"
    by (cases rest) (auto simp: length_dropWhile_le less_Suc_eq_le)
  also have "\<dots> \<le> length s" using rest(1) by (simp add: length_dropWhile_le)
  finally show "(dropWhile (\<lambda>c. \<not> is_space c) rest, s) \<in> measure length" by simp
qed simp

declare split_words.simps [simp del]

definition APP_ASSOCIATED_LOGGERS :: "str option \<Rightarrow> str list" where
  "APP_ASSOCIATED_LOGGERS env = split_words (case env of None \<Rightarrow> [] | Some s \<Rightarrow> s) @ [lit ''__main__'']"

text \<open>
  The loop of \<^verbatim>\<open>_remove_handlers\<close>: an iterator over a list is a position in it, and \<^verbatim>\<open>removeHandler\<close>
  takes the handler out of the list that the iterator is in.
\<close>

function remove_handlers_from :: "nat \<Rightarrow> log_handler list \<Rightarrow> log_handler list" where
  "remove_handlers_from i handlers =
     (if i < length handlers then remove_handlers_from (Suc i) (remove1 (handlers ! i) handlers) else handlers)"
  by auto
termination
  by (relation "measure (\<lambda>(i, handlers). length handlers - i)") (auto simp: length_remove1)

declare remove_handlers_from.simps [simp del]

definition remove_handlers :: "logging \<Rightarrow> logging" where
  "remove_handlers s = s\<lparr>lo_root_handlers := remove_handlers_from 0 (lo_root_handlers s)\<rparr>"

definition log_fmt :: str where
  "log_fmt = lit ''%(asctime)s:%(levelname)s:%(name)s:%(message)s''"

text \<open>The third-party package \<^verbatim>\<open>pythonjsonlogger\<close> is there to import, or it is not.\<close>

definition create_console_handler :: "bool \<Rightarrow> str \<Rightarrow> log_error + formatter" where
  "create_console_handler jsonlogger_there fmt =
     (if fmt = lit ''text'' then Inr (Text_formatter log_fmt (lit ''%Y-%m-%d %H:%M:%S%z''))
      else if fmt = lit ''json'' then
        (if jsonlogger_there then Inr (Json_formatter log_fmt (lit ''%Y-%m-%dT%H:%M:%S%z'')) else Inl No_json_logger)
      else Inl (Invalid_format fmt))"

definition configure_root_logger :: "bool \<Rightarrow> str \<Rightarrow> logging \<Rightarrow> log_error option \<times> logging" where
  "configure_root_logger jsonlogger_there fmt s =
     (let s1 = remove_handlers (set_level [] WARNING s);
          queue = lo_queues s1;
          s2 = s1\<lparr>lo_queues := Suc queue, lo_root_handlers := lo_root_handlers s1 @ [Queue_handler queue]\<rparr>
      in case create_console_handler jsonlogger_there fmt of
           Inl e \<Rightarrow> (Some e, s2)
         | Inr f \<Rightarrow> (None, s2\<lparr>lo_listeners := lo_listeners s2 @ [\<lparr>ls_queue = queue, ls_formatter = f\<rparr>]\<rparr>))"

definition configure_logging :: "bool \<Rightarrow> str \<Rightarrow> str \<Rightarrow> str list \<Rightarrow> logging \<Rightarrow> log_error option \<times> logging" where
  "configure_logging jsonlogger_there level fmt associated_loggers s =
     (case configure_root_logger jsonlogger_there fmt s of
        (Some e, s) \<Rightarrow> (Some e, s)
      | (None, s) \<Rightarrow>
          (let s = get_logger (lit ''swpt_stomp'') s in
           case level_number level of
             None \<Rightarrow> (Some (Unknown_level level), s)
           | Some n \<Rightarrow>
               (let s = set_level (lit ''swpt_stomp'') n s;
                    app_logger_level = effective_level (lit ''swpt_stomp'') s;
                    s = fold (\<lambda>qualname s. set_level qualname app_logger_level (get_logger qualname s)) associated_loggers s;
                    s = (if app_logger_level > effective_level [] s then set_level [] app_logger_level s else s)
                in (None, s\<lparr>lo_excepthook := True\<rparr>))))"

section \<open>Which handlers are left\<close>

lemma nths_odd_Cons: "nths (x # xs) {j. odd j} = nths xs {j. even j}"
  by (simp add: nths_Cons)

lemma nths_even_Cons: "nths (x # xs) {j. even j} = x # nths xs {j. odd j}"
  by (simp add: nths_Cons)

lemma remove_handlers_from_distinct:
  assumes "distinct (gone @ todo)"
  shows "remove_handlers_from (length gone) (gone @ todo) = gone @ nths todo {j. odd j}"
  using assms
proof (induction "length todo" arbitrary: gone todo rule: less_induct)
  case less
  show ?case
  proof (cases todo)
    case Nil
    then show ?thesis by (simp add: remove_handlers_from.simps)
  next
    case (Cons h todo')
    with less.prems have "remove1 h (gone @ todo) = gone @ todo'" by (simp add: remove1_append)
    then have step: "remove_handlers_from (length gone) (gone @ todo) = remove_handlers_from (Suc (length gone)) (gone @ todo')"
      using Cons by (subst remove_handlers_from.simps) simp
    show ?thesis
    proof (cases todo')
      case Nil
      with step Cons show ?thesis by (simp add: remove_handlers_from.simps nths_odd_Cons)
    next
      case (Cons x rest)
      have "remove_handlers_from (length (gone @ [x])) ((gone @ [x]) @ rest) = (gone @ [x]) @ nths rest {j. odd j}"
        by (rule less.hyps) (use less.prems \<open>todo = h # todo'\<close> Cons in auto)
      with step Cons \<open>todo = h # todo'\<close> show ?thesis by (simp add: nths_odd_Cons nths_even_Cons)
    qed
  qed
qed

lemma nths_odd_Nil: "nths xs {j. odd j} = [] \<longleftrightarrow> length xs \<le> 1"
  by (cases xs rule: list.exhaust; cases "tl xs") (simp_all add: nths_odd_Cons nths_even_Cons)

section \<open>The levels\<close>

lemma set_level_get_logger [simp]: "set_level name level (get_logger name s) = set_level name level s"
  by (simp add: set_level_def get_logger_def)

lemma set_level_fields [simp]:
  "lo_root_handlers (set_level name level s) = lo_root_handlers s" "lo_queues (set_level name level s) = lo_queues s"
  "lo_listeners (set_level name level s) = lo_listeners s" "lo_excepthook (set_level name level s) = lo_excepthook s"
  "lo_root_level (set_level name level s) = (if is_root name then level else lo_root_level s)"
  "lo_levels (set_level name level s) = (if is_root name then lo_levels s else (lo_levels s)(name \<mapsto> level))"
  by (simp_all add: set_level_def)

lemma set_levels_fields [simp]:
  "lo_root_handlers (fold (\<lambda>q. set_level q level) qs s) = lo_root_handlers s"
  "lo_queues (fold (\<lambda>q. set_level q level) qs s) = lo_queues s"
  "lo_listeners (fold (\<lambda>q. set_level q level) qs s) = lo_listeners s"
  "lo_root_level (fold (\<lambda>q. set_level q level) qs s) = (if list_ex is_root qs then level else lo_root_level s)"
  "lo_levels (fold (\<lambda>q. set_level q level) qs s) name =
     (if name \<in> set qs \<and> \<not> is_root name then Some level else lo_levels s name)"
  by (induction qs arbitrary: s) auto

lemma root_logger_configured:
  assumes "distinct (lo_root_handlers s)" and "create_console_handler there fmt = Inr f"
  shows "configure_root_logger there fmt s = (None, s\<lparr>lo_root_level := WARNING,
    lo_root_handlers := nths (lo_root_handlers s) {i. odd i} @ [Queue_handler (lo_queues s)], lo_queues := Suc (lo_queues s),
    lo_listeners := lo_listeners s @ [\<lparr>ls_queue = lo_queues s, ls_formatter = f\<rparr>]\<rparr>)"
  using assms remove_handlers_from_distinct [of "[]" "lo_root_handlers s"]
  by (simp add: configure_root_logger_def remove_handlers_def set_level_def is_root_def Let_def)

lemma configure_logging_levels:
  assumes "distinct (lo_root_handlers s)" and "level_number level = Some n" and "create_console_handler there fmt = Inr f"
  shows "\<exists>s'. configure_logging there level fmt associated s = (None, s') \<and>
    lo_root_handlers s' = nths (lo_root_handlers s) {i. odd i} @ [Queue_handler (lo_queues s)] \<and>
    (lo_root_handlers s' = [Queue_handler (lo_queues s)] \<longleftrightarrow> length (lo_root_handlers s) \<le> 1) \<and>
    lo_listeners s' = lo_listeners s @ [\<lparr>ls_queue = lo_queues s, ls_formatter = f\<rparr>] \<and>
    (let L = if n = NOTSET then WARNING else n in
      (\<forall>q\<in>insert (lit ''swpt_stomp'') (set associated). effective_level q s' = L) \<and>
      lo_root_level s' = (if list_ex is_root associated then L else max L WARNING)) \<and>
    lo_excepthook s'"
proof -
  let ?app = "lit ''swpt_stomp''" and ?L = "if n = NOTSET then WARNING else n"
  have app: "\<not> is_root ?app" "is_root []" by (simp_all add: is_root_def lit_simps)
  have L: "?L \<noteq> NOTSET" by (simp add: WARNING_def NOTSET_def)
  obtain s1 where s1: "configure_root_logger there fmt s = (None, s1)" "lo_root_level s1 = WARNING"
    "lo_root_handlers s1 = nths (lo_root_handlers s) {i. odd i} @ [Queue_handler (lo_queues s)]"
    "lo_listeners s1 = lo_listeners s @ [\<lparr>ls_queue = lo_queues s, ls_formatter = f\<rparr>]"
    using root_logger_configured [OF assms(1,3)] by simp
  define s2 where "s2 = fold (\<lambda>q. set_level q ?L) associated (set_level ?app n s1)"
  define s3 where "s3 = (if lo_root_level s2 < ?L then set_level [] ?L s2 else s2)\<lparr>lo_excepthook := True\<rparr>"
  have "effective_level ?app (set_level ?app n s1) = ?L" using app s1(2) by (simp add: effective_level_def)
  then have run: "configure_logging there level fmt associated s = (None, s3)"
    using s1(1) assms(2) app(2) by (simp add: configure_logging_def Let_def s3_def s2_def effective_level_def [of "[]"])
  have root: "lo_root_level s3 = (if list_ex is_root associated then ?L else max ?L WARNING)"
    using app s1(2) by (auto simp: s3_def s2_def)
  have "effective_level q s3 = ?L" if "q \<in> insert ?app (set associated)" for q
  proof (cases "is_root q")
    case True
    with that app have "list_ex is_root associated" by (auto simp: list_ex_iff)
    with True root show ?thesis by (simp add: effective_level_def)
  next
    case False
    then have "lo_levels s3 q = (if q \<in> set associated then Some ?L else Some n)"
      using that app by (auto simp: s3_def s2_def)
    with False L root show ?thesis by (auto simp: effective_level_def)
  qed
  moreover have "lo_root_handlers s3 = lo_root_handlers s1" "lo_listeners s3 = lo_listeners s1" "lo_excepthook s3"
    by (simp_all add: s3_def s2_def)
  ultimately show ?thesis using run root s1(3,4) by (auto simp: Let_def nths_odd_Nil)
qed

text \<open>
  C33: With a known level and format \<^verbatim>\<open>configure_logging\<close> returns. Then a new queue, with a listener that
  writes its records in the format asked for, has its handler at the root logger; the logger of the
  application and all associated loggers report from the level asked for on; the root logger does so
  too, but not below \<^verbatim>\<open>WARNING\<close>, unless it is an associated logger itself (the level \<^verbatim>\<open>NOTSET\<close> stands for
  \<^verbatim>\<open>WARNING\<close>); and uncaught exceptions are logged. Of the handlers that were there before, every second one stays, because the loop that takes
  them out moves on in a list that has become shorter: the new handler is the only one exactly if
  there was at most one.
\<close>

theorem configure_logging_done:
  assumes "distinct (lo_root_handlers s)" and "level_number level = Some n" and "create_console_handler there fmt = Inr f"
  shows "\<exists>s'. configure_logging there level fmt associated s = (None, s') \<and>
    lo_root_handlers s' = nths (lo_root_handlers s) {i. odd i} @ [Queue_handler (lo_queues s)] \<and>
    (lo_root_handlers s' = [Queue_handler (lo_queues s)] \<longleftrightarrow> length (lo_root_handlers s) \<le> 1) \<and>
    lo_listeners s' = lo_listeners s @ [\<lparr>ls_queue = lo_queues s, ls_formatter = f\<rparr>] \<and>
    (let L = if n = NOTSET then WARNING else n in
      (\<forall>q\<in>insert (lit ''swpt_stomp'') (set associated). effective_level q s' = L) \<and>
      lo_root_level s' = (if list_ex is_root associated then L else max L WARNING)) \<and>
    lo_excepthook s'"
  by (rule configure_logging_levels [OF assms])

definition example_logging :: logging where
  "example_logging = \<lparr>lo_root_level = 30, lo_root_handlers = [Other_handler 0, Other_handler 1], lo_levels = Map.empty,
     lo_queues = 0, lo_listeners = [], lo_excepthook = False\<rparr>"

theorem configure_logging_done_witness:
  "\<exists>s'. configure_logging True (lit ''info'') (lit ''json'') [lit ''__main__''] example_logging = (None, s') \<and>
     lo_root_handlers s' = [Other_handler 1, Queue_handler 0] \<and> effective_level (lit ''__main__'') s' = 20 \<and> lo_root_level s' = 30"
proof -
  have "level_number (lit ''info'') = Some 20" by code_simp
  moreover have "distinct (lo_root_handlers example_logging)" by (simp add: example_logging_def)
  moreover obtain f where "create_console_handler True (lit ''json'') = Inr f"
    by (simp add: create_console_handler_def lit_simps)
  ultimately show ?thesis
    using configure_logging_done [of example_logging "lit ''info''" 20 True "lit ''json''" f "[lit ''__main__'']"]
    by (auto simp: example_logging_def nths_odd_Cons nths_even_Cons NOTSET_def WARNING_def is_root_def lit_simps Let_def)
qed

end
