(* ===== verification/Commands.thy ===== *)
theory Commands
  imports Startup Configure_Queue Loggers
begin


section \<open>The options\<close>











section \<open>The settings of the environment\<close>

text \<open>The whole numbers that the modules read from the environment when they are imported.\<close>

type_synonym environment = "str \<rightharpoonup> str"

definition env_int :: "environment \<Rightarrow> string \<Rightarrow> str \<Rightarrow> exc + int" where
  "env_int env name dflt =
     (case py_int 10 (case env (lit name) of None \<Rightarrow> dflt | Some s \<Rightarrow> s) of None \<Rightarrow> Inl ValueError | Some i \<Rightarrow> Inr i)"

definition APP_STOMP_SERVER_BACKLOG :: "environment \<Rightarrow> exc + int" where
  "APP_STOMP_SERVER_BACKLOG env = env_int env ''APP_STOMP_SERVER_BACKLOG'' (lit ''100'')"

definition APP_MAX_CONNECTIONS_PER_PEER :: "environment \<Rightarrow> exc + int" where
  "APP_MAX_CONNECTIONS_PER_PEER env = env_int env ''APP_MAX_CONNECTIONS_PER_PEER'' (lit ''10'')"

definition APP_MAX_CACHED_PEERS :: "environment \<Rightarrow> exc + int" where
  "APP_MAX_CACHED_PEERS env = env_int env ''APP_MAX_CACHED_PEERS'' (lit ''5000'')"

definition APP_FILE_READ_THREADS :: "nat option \<Rightarrow> environment \<Rightarrow> exc + int" where
  "APP_FILE_READ_THREADS cpu_count env = env_int env ''APP_FILE_READ_THREADS''
     (dec_of_nat (5 * (case cpu_count of None \<Rightarrow> 1 | Some n \<Rightarrow> if n = 0 then 1 else n)))"

section \<open>The commands\<close>










section \<open>What a command line can lead to\<close>
















end
