(* ===== verification/Peers_Cache.thy ===== *)
theory Peers_Cache
  imports Peer_Data
begin

text \<open>
  The cache of \<^verbatim>\<open>NodePeersDatabase\<close> under the calls of any number of clients: a transition system in
  which every call advances from one \<^verbatim>\<open>await\<close> to the next, on files that may change at any time, and the invariant of all its runs.
\<close>

declare lit_simps [simp del]
declare lit_eq_iff [simp] lit_Nil_iff [simp]

section \<open>The cache\<close>

lemma dict_set_new: "k \<notin> fst ` set d \<Longrightarrow> dict_set k v d = d @ [(k, v)]"
  by (induction k v d rule: dict_set.induct) auto

lemma dict_set_subset: "set (dict_set k v d) \<subseteq> insert (k, v) (set d)"
  by (induction k v d rule: dict_set.induct) auto

lemma pop_items_length:
  assumes "pop_items n peers = Inr peers'"
  shows "int (length peers') < n" and "\<exists>m. peers' = take m peers"
proof -
  have "int (length peers') < n \<and> (\<exists>m. peers' = take m peers)"
    using assms
  proof (induction n peers rule: pop_items.induct)
    case (1 n peers)
    show ?case
    proof (cases "n \<le> int (length peers)")
      case True
      with 1(2) have ne: "peers \<noteq> []" and p: "pop_items n (butlast peers) = Inr peers'"
        by (subst (asm) pop_items.simps, simp split: if_splits)+
      obtain m where "int (length peers') < n" "peers' = take m (butlast peers)" using 1(1) [OF True ne p] by blast
      then show ?thesis by (auto simp: butlast_conv_take take_take intro!: exI)
    next
      case False
      with 1(2) have "peers' = peers" by (subst (asm) pop_items.simps, simp)
      with False show ?thesis by (auto intro: exI [of _ "length peers"])
    qed
  qed
  then show "int (length peers') < n" "\<exists>m. peers' = take m peers" by blast+
qed

lemma pop_items_Inr: "1 \<le> n \<Longrightarrow> \<exists>peers'. pop_items n peers = Inr peers'"
  by (induction n peers rule: pop_items.induct) (subst pop_items.simps, auto)

text \<open>
  The database as its clients see it: any number of them call \<^verbatim>\<open>get_peer_data\<close> and
  \<^verbatim>\<open>get_node_data\<close>, and while one waits for a file the others go on. \<open>ps_calls\<close> and \<open>ps_node_calls\<close>
  hold the calls that wait. The three logs have no counterpart in the program: \<open>ps_owners\<close> is what was
  assigned to \<^verbatim>\<open>self.__node_data\<close>; \<open>ps_reads\<close> is what was read from the directory of each peer, from when
  to when; \<open>ps_answers\<close> is what the calls returned, and when.
\<close>

record peer_call =
  pe_node_id :: str
  pe_active_only :: bool
  pe_started :: rat
  pe_co :: "((db_error + exc) + peer_data option) co"

record peers_sys =
  ps_db :: peers_db
  ps_calls :: "peer_call list"
  ps_node_calls :: "(db_error + node_data) co list"
  ps_owners :: "node_data list"
  ps_reads :: "(str \<times> rat \<times> rat \<times> peer_data) list"
  ps_answers :: "(rat \<times> str \<times> bool \<times> peer_data) list"

definition peers_init :: "peers_sys \<Rightarrow> bool" where
  "peers_init s \<longleftrightarrow> (\<exists>n t n' t'. peers_db_init n t n' t' = Inr (ps_db s)) \<and>
     ps_calls s = [] \<and> ps_node_calls s = [] \<and> ps_owners s = [] \<and> ps_reads s = [] \<and> ps_answers s = []"

text \<open>
  \<open>cached\<close> and \<open>missed\<close>: a call of \<^verbatim>\<open>get_peer_data\<close>. \<open>waits\<close>: such a call gets what it waits for, and waits
  again; \<open>ends\<close>: it gets what it waits for, and returns or raises. \<open>node_called\<close> and \<open>node_goes_on\<close>: the same
  for \<^verbatim>\<open>get_node_data\<close>. \<open>cancelled\<close>: the task of a call is cancelled while it waits.
\<close>

inductive peers_step :: "tomli \<Rightarrow> str \<Rightarrow> peers_sys \<Rightarrow> peers_sys \<Rightarrow> bool" for loads root_dir where
  cached: "get_stored_peer_data now node_id (ps_db s) = Some p \<Longrightarrow>
    peers_step loads root_dir s (s\<lparr>ps_answers := (now, node_id, active_peers_only, p) # ps_answers s\<rparr>)"
| missed: "get_stored_peer_data now node_id (ps_db s) = None \<Longrightarrow>
    peers_step loads root_dir s (s\<lparr>ps_calls :=
      \<lparr>pe_node_id = node_id, pe_active_only = active_peers_only, pe_started = now,
       pe_co = dir_get_peer_data loads root_dir node_id active_peers_only\<rparr> # ps_calls s\<rparr>)"
| waits: "ps_calls s = before @ c # after \<Longrightarrow> reply fs (pe_co c) = Some k \<Longrightarrow> resume k (ps_db s) = (k', db) \<Longrightarrow>
    peers_step loads root_dir s (s\<lparr>ps_db := db, ps_calls := before @ c\<lparr>pe_co := k'\<rparr> # after,
      ps_owners := assigned k (ps_db s) @ ps_owners s\<rparr>)"
| ends: "ps_calls s = before @ c # after \<Longrightarrow> reply fs (pe_co c) = Some k \<Longrightarrow> resume k (ps_db s) = (Return x, db) \<Longrightarrow>
    peer_data_read now (x, db) = (r, db') \<Longrightarrow>
    peers_step loads root_dir s (s\<lparr>ps_db := db', ps_calls := before @ after,
      ps_owners := assigned k (ps_db s) @ ps_owners s,
      ps_reads := (case r of Inr (Some p) \<Rightarrow> [(pe_node_id c, pe_started c, now, p)] | _ \<Rightarrow> []) @ ps_reads s,
      ps_answers := (case r of Inr (Some p) \<Rightarrow> [(now, pe_node_id c, pe_active_only c, p)] | _ \<Rightarrow> []) @ ps_answers s\<rparr>)"
| node_called: "resume (node_data_co root_dir) (ps_db s) = (k, db) \<Longrightarrow>
    peers_step loads root_dir s (s\<lparr>ps_db := db, ps_node_calls := k # ps_node_calls s,
      ps_owners := assigned (node_data_co root_dir) (ps_db s) @ ps_owners s\<rparr>)"
| node_goes_on: "ps_node_calls s = before @ c # after \<Longrightarrow> reply fs c = Some k \<Longrightarrow> resume k (ps_db s) = (k', db) \<Longrightarrow>
    peers_step loads root_dir s (s\<lparr>ps_db := db, ps_node_calls := before @ k' # after,
      ps_owners := assigned k (ps_db s) @ ps_owners s\<rparr>)"
| cancelled: "ps_calls s = before @ c # after \<Longrightarrow> peers_step loads root_dir s (s\<lparr>ps_calls := before @ after\<rparr>)"

text \<open>
  The invariant, in three parts: the cache; what was read and answered; and the coroutines that
  wait, with the data of the node that they may rely on.
\<close>

definition cache_inv :: "(str \<times> rat \<times> rat \<times> peer_data) list \<Rightarrow> peers_db \<Rightarrow> bool" where
  "cache_inv reads db \<longleftrightarrow>
     1 \<le> db_max_cached_peers db \<and> int (length (db_peers db)) \<le> db_max_cached_peers db \<and> distinct (map fst (db_peers db)) \<and>
     (\<forall>(k, r)\<in>set (db_peers db). pd_is_active (pc_peer_data r) \<and> (\<exists>t. (k, t, pc_time r, pc_peer_data r) \<in> set reads))"

definition answers_inv :: "peers_sys \<Rightarrow> bool" where
  "answers_inv s \<longleftrightarrow>
     (\<forall>(k, t, t', p)\<in>set (ps_reads s). pd_node_id p = k \<and> (\<exists>owner\<in>set (ps_owners s). node_ok owner \<and> peer_ok owner p)) \<and>
     (\<forall>(now, k, act, p)\<in>set (ps_answers s). (act \<longrightarrow> pd_is_active p) \<and>
        (\<exists>t t'. (k, t, t', p) \<in> set (ps_reads s) \<and> (t' = now \<or> fresh (db_peers_cache_seconds (ps_db s)) now t')))"

definition waiting_inv :: "peers_sys \<Rightarrow> bool" where
  "waiting_inv s \<longleftrightarrow> node_known (ps_db s) (set (ps_owners s)) \<and>
     (\<forall>c\<in>set (ps_calls s). ensures (pe_co c) (peer_found (pe_node_id c) (pe_active_only c)) (set (ps_owners s))) \<and>
     (\<forall>c\<in>set (ps_node_calls s). ensures c (\<lambda>_ _. True) (set (ps_owners s)))"

definition peers_inv :: "peers_sys \<Rightarrow> bool" where
  "peers_inv s \<longleftrightarrow> cache_inv (ps_reads s) (ps_db s) \<and> answers_inv s \<and> waiting_inv s"

lemma store_peer_data_ok:
  assumes "store_peer_data now p db = Inr db'" and "distinct (map fst (db_peers db))"
  shows "int (length (db_peers db')) \<le> db_max_cached_peers db" and "distinct (map fst (db_peers db'))"
    and "set (db_peers db') \<subseteq> insert (pd_node_id p, \<lparr>pc_peer_data = p, pc_time = now\<rparr>) (set (db_peers db))"
    and "db_node_data db' = db_node_data db" and "db_max_cached_peers db' = db_max_cached_peers db"
    and "db_peers_cache_seconds db' = db_peers_cache_seconds db"
proof -
  obtain peers where p: "pop_items (db_max_cached_peers db) (db_peers db) = Inr peers"
    and db': "db' = db\<lparr>db_peers := dict_set (pd_node_id p) \<lparr>pc_peer_data = p, pc_time = now\<rparr> peers\<rparr>"
    using assms(1) by (auto simp: store_peer_data_def bindE_eq_Inr_conv)
  obtain m where m: "int (length peers) < db_max_cached_peers db" "peers = take m (db_peers db)"
    using pop_items_length [OF p] by blast
  show "int (length (db_peers db')) \<le> db_max_cached_peers db"
    using length_dict_set [of "pd_node_id p" "\<lparr>pc_peer_data = p, pc_time = now\<rparr>" peers] m(1) by (simp add: db')
  show "distinct (map fst (db_peers db'))"
    using assms(2) by (simp add: db' m(2) dict_set_distinct take_map [symmetric])
  show "set (db_peers db') \<subseteq> insert (pd_node_id p, \<lparr>pc_peer_data = p, pc_time = now\<rparr>) (set (db_peers db))"
    using dict_set_subset [of "pd_node_id p" _ peers] set_take_subset [of m "db_peers db"] by (fastforce simp: db' m(2))
qed (use assms(1) in \<open>auto simp: store_peer_data_def bindE_eq_Inr_conv\<close>)

lemma peer_data_read_ok:
  assumes "peer_data_read now (x, db) = (r, db')" and "cache_inv reads db"
  shows "db_node_data db' = db_node_data db" and "db_peers_cache_seconds db' = db_peers_cache_seconds db"
    and "r = Inr (Some p) \<Longrightarrow> x = Inr (Some p)"
    and "(\<And>p. x = Inr (Some p) \<Longrightarrow> pd_node_id p = node_id) \<Longrightarrow>
      cache_inv ((case r of Inr (Some p) \<Rightarrow> [(node_id, t, now, p)] | _ \<Rightarrow> []) @ reads) db'"
proof -
  consider (same) "db' = db" "\<And>p. r = Inr (Some p) \<Longrightarrow> x = Inr (Some p)"
    | (stored) p where "x = Inr (Some p)" "r = Inr (Some p)" "pd_is_active p" "store_peer_data now p db = Inr db'"
    using assms(1) by (auto simp: peer_data_read_def split: sum.splits option.splits if_splits)
  then have "db_node_data db' = db_node_data db \<and> db_peers_cache_seconds db' = db_peers_cache_seconds db \<and>
    (\<forall>p. r = Inr (Some p) \<longrightarrow> x = Inr (Some p)) \<and>
    ((\<forall>p. x = Inr (Some p) \<longrightarrow> pd_node_id p = node_id) \<longrightarrow>
      cache_inv ((case r of Inr (Some p) \<Rightarrow> [(node_id, t, now, p)] | _ \<Rightarrow> []) @ reads) db')"
  proof cases
    case same
    with assms(2) show ?thesis unfolding cache_inv_def by fastforce
  next
    case (stored p)
    have d: "distinct (map fst (db_peers db))" using assms(2) by (simp add: cache_inv_def)
    note ok = store_peer_data_ok [OF stored(4) d]
    have "pd_is_active (pc_peer_data rec) \<and> (\<exists>t'. (k, t', pc_time rec, pc_peer_data rec) \<in> set ((node_id, t, now, p) # reads))"
      if "(k, rec) \<in> set (db_peers db')" "pd_node_id p = node_id" for k rec
      using that ok(3) stored(3) assms(2) unfolding cache_inv_def by fastforce
    with ok stored(1,2) assms(2) show ?thesis by (auto simp: cache_inv_def)
  qed
  then show "db_node_data db' = db_node_data db" "db_peers_cache_seconds db' = db_peers_cache_seconds db"
    "r = Inr (Some p) \<Longrightarrow> x = Inr (Some p)"
    "(\<And>p. x = Inr (Some p) \<Longrightarrow> pd_node_id p = node_id) \<Longrightarrow>
      cache_inv ((case r of Inr (Some p) \<Rightarrow> [(node_id, t, now, p)] | _ \<Rightarrow> []) @ reads) db'" by blast+
qed

lemma cache_inv_node [simp]: "cache_inv reads (db\<lparr>db_node_data := nd\<rparr>) = cache_inv reads db"
  by (simp add: cache_inv_def)

lemma answers_inv_mono:
  assumes "answers_inv s" and "ps_reads t = ps_reads s" and "ps_answers t = ps_answers s"
    and "set (ps_owners s) \<subseteq> set (ps_owners t)" and "db_peers_cache_seconds (ps_db t) = db_peers_cache_seconds (ps_db s)"
  shows "answers_inv t"
  using assms unfolding answers_inv_def by (simp add: subset_iff) blast

lemma answers_inv_add:
  assumes "answers_inv s" and "ps_reads t = (k, t0, now, p) # ps_reads s" and "ps_answers t = (now, k, act, p) # ps_answers s"
    and "set (ps_owners s) \<subseteq> set (ps_owners t)" and "db_peers_cache_seconds (ps_db t) = db_peers_cache_seconds (ps_db s)"
    and "pd_node_id p = k" and "act \<longrightarrow> pd_is_active p" and "\<exists>owner\<in>set (ps_owners t). node_ok owner \<and> peer_ok owner p"
  shows "answers_inv t"
proof -
  have "answers_inv (s\<lparr>ps_db := ps_db t, ps_owners := ps_owners t\<rparr>)"
    by (rule answers_inv_mono [OF assms(1)]) (use assms(4,5) in simp_all)
  then have "\<forall>(k, t0, t', p)\<in>set (ps_reads s). pd_node_id p = k \<and> (\<exists>owner\<in>set (ps_owners t). node_ok owner \<and> peer_ok owner p)"
    and "\<forall>(now, k, act, p)\<in>set (ps_answers s). (act \<longrightarrow> pd_is_active p) \<and>
        (\<exists>t0 t'. (k, t0, t', p) \<in> set (ps_reads s) \<and> (t' = now \<or> fresh (db_peers_cache_seconds (ps_db t)) now t'))"
    by (simp_all add: answers_inv_def)
  with assms(2,3,6-8) show ?thesis unfolding answers_inv_def by simp blast
qed

text \<open>A coroutine of the system that goes on: what it was to ensure, it still is.\<close>

lemma goes_on:
  assumes "waiting_inv s" and "ensures k Q (set (ps_owners s))" and "resume k (ps_db s) = (k', db)"
    and N: "N = set (assigned k (ps_db s) @ ps_owners s)"
  shows "ensures k' Q N" and "node_known db N" and "db = (ps_db s)\<lparr>db_node_data := db_node_data db\<rparr>"
    and "c \<in> set (ps_calls s) \<Longrightarrow> ensures (pe_co c) (peer_found (pe_node_id c) (pe_active_only c)) N"
    and "c' \<in> set (ps_node_calls s) \<Longrightarrow> ensures c' (\<lambda>_ _. True) N"
proof -
  have "node_known (ps_db s) (set (ps_owners s))" using assms(1) by (simp add: waiting_inv_def)
  from resume_ensures [OF assms(2) this assms(3)]
  show "ensures k' Q N" "node_known db N" "db = (ps_db s)\<lparr>db_node_data := db_node_data db\<rparr>"
    by (simp_all add: N Un_commute)
  show "c \<in> set (ps_calls s) \<Longrightarrow> ensures (pe_co c) (peer_found (pe_node_id c) (pe_active_only c)) N"
    "c' \<in> set (ps_node_calls s) \<Longrightarrow> ensures c' (\<lambda>_ _. True) N"
    using assms(1) by (auto simp: waiting_inv_def N intro: ensures_mono)
qed

lemma peers_inv_waits:
  assumes "peers_inv s" and "ps_calls s = before @ c # after" and "reply fs (pe_co c) = Some k"
    and "resume k (ps_db s) = (k', db)"
  shows "peers_inv (s\<lparr>ps_db := db, ps_calls := before @ c\<lparr>pe_co := k'\<rparr> # after, ps_owners := assigned k (ps_db s) @ ps_owners s\<rparr>)"
    (is "peers_inv ?t")
proof -
  have w: "waiting_inv s" using assms(1) by (simp add: peers_inv_def)
  then have "ensures k (peer_found (pe_node_id c) (pe_active_only c)) (set (ps_owners s))"
    using assms(2,3) reply_ensures by (fastforce simp: waiting_inv_def)
  note g = goes_on [OF w this assms(4) refl]
  have "cache_inv (ps_reads s) db" using assms(1) g(3) by (metis cache_inv_node peers_inv_def)
  moreover have "answers_inv ?t"
    by (rule answers_inv_mono [of s]) (use assms(1) g(3) in \<open>auto simp: peers_inv_def dest: arg_cong [of _ _ db_peers_cache_seconds]\<close>)
  moreover have "waiting_inv ?t" using g assms(2) unfolding waiting_inv_def by simp
  ultimately show ?thesis by (simp add: peers_inv_def)
qed

lemma peers_inv_ends:
  assumes "peers_inv s" and "ps_calls s = before @ c # after" and "reply fs (pe_co c) = Some k"
    and "resume k (ps_db s) = (Return x, db)" and "peer_data_read now (x, db) = (r, db')"
  shows "peers_inv (s\<lparr>ps_db := db', ps_calls := before @ after, ps_owners := assigned k (ps_db s) @ ps_owners s,
      ps_reads := (case r of Inr (Some p) \<Rightarrow> [(pe_node_id c, pe_started c, now, p)] | _ \<Rightarrow> []) @ ps_reads s,
      ps_answers := (case r of Inr (Some p) \<Rightarrow> [(now, pe_node_id c, pe_active_only c, p)] | _ \<Rightarrow> []) @ ps_answers s\<rparr>)"
    (is "peers_inv ?t")
proof -
  have w: "waiting_inv s" using assms(1) by (simp add: peers_inv_def)
  then have "ensures k (peer_found (pe_node_id c) (pe_active_only c)) (set (ps_owners s))"
    using assms(2,3) reply_ensures by (fastforce simp: waiting_inv_def)
  note g = goes_on [OF w this assms(4) refl]
  have x: "peer_found (pe_node_id c) (pe_active_only c) (set (assigned k (ps_db s) @ ps_owners s)) x" using g(1) by simp
  have c: "cache_inv (ps_reads s) db" using assms(1) g(3) by (metis cache_inv_node peers_inv_def)
  note read = peer_data_read_ok [OF assms(5) c]
  have secs: "db_peers_cache_seconds db' = db_peers_cache_seconds (ps_db s)"
    using read(2) g(3) by (metis peers_db.select_convs(4) peers_db.surjective peers_db.update_convs(1))
  have "cache_inv (ps_reads ?t) (ps_db ?t)"
    using read(4) [of "pe_node_id c" "pe_started c"] x by (simp add: peer_found_def)
  moreover have "waiting_inv ?t"
    using g(2,4,5) assms(2) read(1) unfolding waiting_inv_def by (simp add: node_known_def)
  moreover have "answers_inv ?t"
  proof (cases "\<exists>p. r = Inr (Some p)")
    case True
    then obtain p where p: "r = Inr (Some p)" by blast
    have "pd_node_id p = pe_node_id c" "pe_active_only c \<longrightarrow> pd_is_active p"
      "\<exists>owner\<in>set (ps_owners ?t). node_ok owner \<and> peer_ok owner p"
      using x read(3) [OF p] by (simp_all add: peer_found_def)
    moreover have "answers_inv s" using assms(1) by (simp add: peers_inv_def)
    ultimately show ?thesis using answers_inv_add [of s ?t] p secs by simp
  next
    case False
    then have "ps_reads ?t = ps_reads s" "ps_answers ?t = ps_answers s" by (auto split: sum.splits option.splits)
    moreover have "answers_inv s" using assms(1) by (simp add: peers_inv_def)
    ultimately show ?thesis using answers_inv_mono [of s ?t] secs by simp
  qed
  ultimately show ?thesis by (simp add: peers_inv_def)
qed

lemma peers_inv_node:
  assumes "peers_inv s" and "ensures k (\<lambda>_ _. True) (set (ps_owners s))" and "resume k (ps_db s) = (k', db)"
    and "set calls \<subseteq> insert k' (set (ps_node_calls s))"
  shows "peers_inv (s\<lparr>ps_db := db, ps_node_calls := calls, ps_owners := assigned k (ps_db s) @ ps_owners s\<rparr>)"
    (is "peers_inv ?t")
proof -
  have w: "waiting_inv s" using assms(1) by (simp add: peers_inv_def)
  note g = goes_on [OF w assms(2,3) refl]
  have "cache_inv (ps_reads s) db" using assms(1) g(3) by (metis cache_inv_node peers_inv_def)
  moreover have "answers_inv ?t"
    by (rule answers_inv_mono [of s]) (use assms(1) g(3) in \<open>auto simp: peers_inv_def dest: arg_cong [of _ _ db_peers_cache_seconds]\<close>)
  moreover have "waiting_inv ?t" using g(1,2,4,5) assms(4) unfolding waiting_inv_def by auto
  ultimately show ?thesis by (simp add: peers_inv_def)
qed

lemma peers_inv_cached:
  assumes "peers_inv s" and "get_stored_peer_data now node_id (ps_db s) = Some p"
  shows "peers_inv (s\<lparr>ps_answers := (now, node_id, act, p) # ps_answers s\<rparr>)"
proof -
  obtain rec where rec: "(node_id, rec) \<in> set (db_peers (ps_db s))" "fresh (db_peers_cache_seconds (ps_db s)) now (pc_time rec)"
    "p = pc_peer_data rec"
    using assms(2) by (auto simp: get_stored_peer_data_def dest: map_of_SomeD split: option.splits if_splits)
  then have "pd_is_active p" "\<exists>t. (node_id, t, pc_time rec, p) \<in> set (ps_reads s)"
    using assms(1) by (fastforce simp: peers_inv_def cache_inv_def)+
  with rec(2) assms(1) show ?thesis by (auto simp: peers_inv_def answers_inv_def waiting_inv_def)
qed

lemma peers_inv_step:
  assumes "peers_inv s" and "peers_step loads root_dir s t"
  shows "peers_inv t"
  using assms(2)
proof cases
  case (missed now node_id act)
  with assms(1) show ?thesis
    by (simp add: peers_inv_def answers_inv_def waiting_inv_def ensures_dir_get_peer_data)
next
  case (node_called k db)
  have "ensures (node_data_co root_dir) (\<lambda>_ _. True) (set (ps_owners s))"
    by (rule ensures_weaken [OF ensures_node_data_co]) simp
  with node_called peers_inv_node [OF assms(1) this] show ?thesis by auto
next
  case (node_goes_on before c after fs k k' db)
  then have "ensures k (\<lambda>_ _. True) (set (ps_owners s))"
    using assms(1) reply_ensures by (fastforce simp: peers_inv_def waiting_inv_def)
  from peers_inv_node [OF assms(1) this node_goes_on(4), of "before @ k' # after"] node_goes_on(1,2) show ?thesis by auto
next
  case (cancelled before c after)
  with assms(1) show ?thesis by (auto simp: peers_inv_def answers_inv_def waiting_inv_def)
qed (use assms(1) peers_inv_cached peers_inv_waits peers_inv_ends in auto)

lemma peers_db_init_Inr:
  "peers_db_init n t n' t' = Inr db \<Longrightarrow> db_node_data db = None \<and> db_peers db = [] \<and> 1 \<le> db_max_cached_peers db"
  by (auto simp: peers_db_init_def Let_def split: if_splits)

lemma peers_inv_init: "peers_init s \<Longrightarrow> peers_inv s"
  by (auto simp: peers_init_def peers_inv_def cache_inv_def answers_inv_def waiting_inv_def node_known_def
      dest!: peers_db_init_Inr)

interpretation peers_run: inductive_invariant peers_init "peers_step loads root_dir" peers_inv for loads root_dir
  by unfold_locales (rule peers_inv_init, assumption, rule peers_inv_step)

text \<open>A call that nothing interrupts comes, by steps of the system, to what \<^const>\<open>run_co\<close> gives.\<close>

lemma call_completes:
  assumes "reaches init (peers_step loads root_dir) s" and "ps_calls s = [c]" and "reply fs (pe_co c) = Some j"
    and "resume j (ps_db s) = resume k db" and "run_co fs k db = (x, db')"
  shows "\<exists>s' co j'. reaches init (peers_step loads root_dir) s' \<and> ps_calls s' = [c\<lparr>pe_co := co\<rparr>] \<and> reply fs co = Some j' \<and>
    resume j' (ps_db s') = (Return x, db') \<and> ps_answers s' = ps_answers s"
  using assms
proof (induction k arbitrary: s c j db)
  case (Return y)
  then show ?case by (intro exI [of _ s] exI [of _ "pe_co c"] exI [of _ j]) simp
next
  case (Read_file path f)
  then have r: "resume j (ps_db s) = (Read_file path f, db)" by simp
  from Read_file.prems(2,3) r have "peers_step loads root_dir s (s\<lparr>ps_db := db, ps_calls := [] @ c\<lparr>pe_co := Read_file path f\<rparr> # [],
      ps_owners := assigned j (ps_db s) @ ps_owners s\<rparr>)" by (intro waits) simp_all
  from reaches_step [OF Read_file.prems(1) this] Read_file.IH [OF rangeI, of _ "c\<lparr>pe_co := Read_file path f\<rparr>" "f (fs_read fs path)" "fs_read fs path" db]
    Read_file.prems(5) show ?case by fastforce
next
  case (Is_dir path f)
  then have r: "resume j (ps_db s) = (Is_dir path f, db)" by simp
  from Is_dir.prems(2,3) r have "peers_step loads root_dir s (s\<lparr>ps_db := db, ps_calls := [] @ c\<lparr>pe_co := Is_dir path f\<rparr> # [],
      ps_owners := assigned j (ps_db s) @ ps_owners s\<rparr>)" by (intro waits) simp_all
  from reaches_step [OF Is_dir.prems(1) this] Is_dir.IH [OF rangeI, of _ "c\<lparr>pe_co := Is_dir path f\<rparr>" "f (fs_isdir fs path)" "fs_isdir fs path" db]
    Is_dir.prems(5) show ?case by fastforce
next
  case (Get_node_data f)
  from Get_node_data.IH [OF rangeI Get_node_data.prems(1-3)] Get_node_data.prems(4,5) show ?case by simp
next
  case (Set_node_data nd k)
  from Set_node_data.IH [OF Set_node_data.prems(1-3)] Set_node_data.prems(4,5) show ?case by simp
qed

text \<open>A call that misses the cache, reads the peer from its directory file by file, and stores it.\<close>

lemma example_peers_run:
  obtains s p where "reaches peers_init (peers_step example_tomli (lit ''/d'')) s" and "(5, lit ''5678'', True, p) \<in> set (ps_answers s)"
proof -
  let ?co = "dir_get_peer_data example_tomli (lit ''/d'') (lit ''5678'') True"
  let ?s0 = "\<lparr>ps_db = example_db, ps_calls = [], ps_node_calls = [], ps_owners = [], ps_reads = [], ps_answers = []\<rparr> :: peers_sys"
  let ?c = "\<lparr>pe_node_id = lit ''5678'', pe_active_only = True, pe_started = 0, pe_co = ?co\<rparr>"
  obtain p db where r: "run_co example_fs ?co example_db = (Inr (Some p), db)" "pd_is_active p" "db_max_cached_peers db = 10"
    using example_peer_read by (auto split: prod.splits sum.splits option.splits)
  obtain db' where db': "store_peer_data 5 p db = Inr db'"
    using pop_items_Inr [of 10 "db_peers db"] r(3) by (auto simp: store_peer_data_def)
  have "peers_db_init (Some 10) (Some (Finite 600)) 0 NaN = Inr example_db" by (simp add: peers_db_init_def example_db_def)
  then have "peers_init ?s0" by (auto simp: peers_init_def)
  then have s0: "reaches peers_init (peers_step example_tomli (lit ''/d'')) ?s0" by (rule reaches_init)
  have "peers_step example_tomli (lit ''/d'') ?s0 (?s0\<lparr>ps_calls := ?c # ps_calls ?s0\<rparr>)"
    by (rule missed) (simp add: get_stored_peer_data_def example_db_def)
  with s0 have "reaches peers_init (peers_step example_tomli (lit ''/d'')) (?s0\<lparr>ps_calls := ?c # ps_calls ?s0\<rparr>)"
    by (rule reaches_step)
  then have s1: "reaches peers_init (peers_step example_tomli (lit ''/d'')) (?s0\<lparr>ps_calls := [?c]\<rparr>)"
    by (simp only: peers_sys.simps)
  obtain path f where co: "?co = Is_dir path f" by (auto simp: dir_get_peer_data_def get_peer_dir_def Let_def)
  then have f: "run_co example_fs (f (fs_isdir example_fs path)) example_db = (Inr (Some p), db)"
    "reply example_fs (pe_co ?c) = Some (f (fs_isdir example_fs path))" using r(1) by simp_all
  obtain s' co j' where s': "reaches peers_init (peers_step example_tomli (lit ''/d'')) s'" "ps_calls s' = [?c\<lparr>pe_co := co\<rparr>]"
    "reply example_fs co = Some j'" "resume j' (ps_db s') = (Return (Inr (Some p)), db)"
    using call_completes [OF s1 _ f(2) _ f(1)] by auto
  have "peer_data_read 5 (Inr (Some p), db) = (Inr (Some p), db')" using r(2) db' by (simp add: peer_data_read_def)
  with s' have step: "peers_step example_tomli (lit ''/d'') s' (s'\<lparr>ps_db := db', ps_calls := [] @ [],
      ps_owners := assigned j' (ps_db s') @ ps_owners s',
      ps_reads := (case Inr (Some p) :: (db_error + exc) + peer_data option of
        Inr (Some p) \<Rightarrow> [(pe_node_id (?c\<lparr>pe_co := co\<rparr>), pe_started (?c\<lparr>pe_co := co\<rparr>), 5, p)] | _ \<Rightarrow> []) @ ps_reads s',
      ps_answers := (case Inr (Some p) :: (db_error + exc) + peer_data option of
        Inr (Some p) \<Rightarrow> [(5, pe_node_id (?c\<lparr>pe_co := co\<rparr>), pe_active_only (?c\<lparr>pe_co := co\<rparr>), p)] | _ \<Rightarrow> []) @ ps_answers s'\<rparr>)" (is "peers_step _ _ _ ?t")
    by (intro ends) simp_all
  have "reaches peers_init (peers_step example_tomli (lit ''/d'')) ?t" by (rule reaches_step) (rule s'(1), rule step)
  then show ?thesis by (rule that [where p = p]) simp
qed

section \<open>The properties\<close>

text \<open>
  C12: However the calls of its clients interleave, and however the files change while they wait, the
  database of peers never caches more peers than it may, caches a peer at most once, and caches only
  active peers. Every peer that it returned carries the identifier that was asked for, is active if that was
  asked for, and is well-formed for data of the node that was itself read and stored (the stored data is one
  of these; two first calls may both read and store it). What is returned was just read from the directory, or it was stored, when the
  reading had ended, not longer ago than the lifetime of the cache.\<close>

theorem peers_cache_sound:
  assumes "reaches peers_init (peers_step loads root_dir) s"
  shows "int (length (db_peers (ps_db s))) \<le> db_max_cached_peers (ps_db s) \<and>
    distinct (map fst (db_peers (ps_db s))) \<and>
    (\<forall>(k, r)\<in>set (db_peers (ps_db s)). pd_node_id (pc_peer_data r) = k \<and> pd_is_active (pc_peer_data r)) \<and>
    (case db_node_data (ps_db s) of None \<Rightarrow> ps_owners s = [] | Some nd \<Rightarrow> nd \<in> set (ps_owners s)) \<and>
    (\<forall>(now, k, act, p)\<in>set (ps_answers s). pd_node_id p = k \<and> (act \<longrightarrow> pd_is_active p) \<and>
       (\<exists>owner\<in>set (ps_owners s). node_ok owner \<and> peer_ok owner p) \<and>
       (\<exists>t t'. (k, t, t', p) \<in> set (ps_reads s) \<and> (t' = now \<or> fresh (db_peers_cache_seconds (ps_db s)) now t')))"
proof -
  have inv: "cache_inv (ps_reads s) (ps_db s)" "answers_inv s" "waiting_inv s"
    using peers_run.reaches_inv [OF assms] by (simp_all add: peers_inv_def)
  have reads: "pd_node_id p = k \<and> (\<exists>owner\<in>set (ps_owners s). node_ok owner \<and> peer_ok owner p)"
    if "(k, t, t', p) \<in> set (ps_reads s)" for k t t' p
    using inv(2) that unfolding answers_inv_def by fast
  have "pd_node_id (pc_peer_data r) = k \<and> pd_is_active (pc_peer_data r)" if "(k, r) \<in> set (db_peers (ps_db s))" for k r
    using inv(1) that reads unfolding cache_inv_def by fast
  moreover have "pd_node_id p = k \<and> (act \<longrightarrow> pd_is_active p) \<and>
       (\<exists>owner\<in>set (ps_owners s). node_ok owner \<and> peer_ok owner p) \<and>
       (\<exists>t t'. (k, t, t', p) \<in> set (ps_reads s) \<and> (t' = now \<or> fresh (db_peers_cache_seconds (ps_db s)) now t'))"
    if "(now, k, act, p) \<in> set (ps_answers s)" for now k act p
    using inv(2) that reads unfolding answers_inv_def by fast
  moreover have "case db_node_data (ps_db s) of None \<Rightarrow> ps_owners s = [] | Some nd \<Rightarrow> nd \<in> set (ps_owners s)"
    using inv(3) by (simp add: waiting_inv_def node_known_def split: option.splits)
  ultimately show ?thesis using inv(1) unfolding cache_inv_def by fast
qed

theorem peers_cache_sound_witness:
  "\<exists>s p. reaches peers_init (peers_step example_tomli (lit ''/d'')) s \<and> (5, lit ''5678'', True, p) \<in> set (ps_answers s) \<and>
     pd_node_id p = lit ''5678'' \<and> pd_is_active p \<and> ps_owners s \<noteq> []"
proof -
  obtain s p where s: "reaches peers_init (peers_step example_tomli (lit ''/d'')) s" "(5, lit ''5678'', True, p) \<in> set (ps_answers s)"
    by (rule example_peers_run)
  with peers_cache_sound [OF s(1)] have "pd_node_id p = lit ''5678'' \<and> pd_is_active p \<and> ps_owners s \<noteq> []" by fastforce
  with s show ?thesis by blast
qed

text \<open>
  Storing a peer in a full cache evicts the peer that was stored last, not the one that was
  stored first: with room for \<open>n\<close> peers, the first \<open>n - 1\<close> peers stay cached.\<close>

theorem cache_evicts_newest:
  assumes "int (length (db_peers db)) = db_max_cached_peers db" and "db_peers db \<noteq> []"
    and "pd_node_id p \<notin> fst ` set (db_peers db)"
  shows "store_peer_data now p db =
    Inr (db\<lparr>db_peers := butlast (db_peers db) @ [(pd_node_id p, \<lparr>pc_peer_data = p, pc_time = now\<rparr>)]\<rparr>)"
proof -
  have "pop_items (db_max_cached_peers db) (db_peers db) = pop_items (db_max_cached_peers db) (butlast (db_peers db))"
    using assms(1,2) by (subst pop_items.simps) simp
  also have "\<dots> = Inr (butlast (db_peers db))"
    using assms(1,2) by (subst pop_items.simps) (cases "db_peers db"; simp)
  finally have pop: "pop_items (db_max_cached_peers db) (db_peers db) = Inr (butlast (db_peers db))" .
  have "pd_node_id p \<notin> fst ` set (butlast (db_peers db))" using assms(3) by (auto dest: in_set_butlastD)
  then have "dict_set (pd_node_id p) v (butlast (db_peers db)) = butlast (db_peers db) @ [(pd_node_id p, v)]" for v
    by (rule dict_set_new)
  with pop show ?thesis by (simp add: store_peer_data_def)
qed

theorem cache_evicts_newest_witness:
  "\<exists>db. map fst (db_peers db) = [lit ''a'', lit ''c''] \<and>
     store_peer_data 3 (example_cached (lit ''c''))
       (example_db\<lparr>db_max_cached_peers := 2, db_peers := [
          (lit ''a'', \<lparr>pc_peer_data = example_cached (lit ''a''), pc_time = 1\<rparr>),
          (lit ''b'', \<lparr>pc_peer_data = example_cached (lit ''b''), pc_time = 2\<rparr>)]\<rparr>) = Inr db"
  by (subst cache_evicts_newest) (simp_all add: example_cached_def)

end
