(* ===== verification/Spec2Isabelle.thy ===== *)
theory Spec2Isabelle
  imports Gateway Commands Peers_Cache
begin

text \<open>
  A verification of the STOMP gateway of Swaptacular nodes (\<^verbatim>\<open>src/swpt_stomp\<close>).

  \<^bold>\<open>The program.\<close> A node runs one server process (\<^verbatim>\<open>server.py\<close>) and one client process
  (\<^verbatim>\<open>client.py\<close>) for each peer. The client process consumes messages from a RabbitMQ queue of its
  node and sends them over STOMP to the server process of the peer, which publishes them to a
  RabbitMQ exchange of the peer. Receipts go back the same way: the server confirms a message when
  its broker has confirmed it, and the client acknowledges it to its own broker when the receipt
  has arrived. In both processes a connection is an \<^verbatim>\<open>asyncio\<close> protocol (\<^verbatim>\<open>aio_protocols.py\<close>) and a
  task (\<^verbatim>\<open>rmq.py\<close>) that share a send queue and a receive queue (\<^verbatim>\<open>common.py\<close>). The bytes of the
  connection are read by \<^verbatim>\<open>stomp_parser.py\<close>; the messages are checked and rewritten by
  \<^verbatim>\<open>process_messages.py\<close> with the schemas of \<^verbatim>\<open>smp_schemas.py\<close>; the nodes and their subnets come from
  the files of \<^verbatim>\<open>peer_data.py\<close>; and \<^verbatim>\<open>configure_queue.py\<close> sets a queue of the broker up.

  \<^bold>\<open>The theories.\<close> In the order in which they build on each other; each shows of its part what is said.

  \<^item> \<open>Prelude\<close>, \<open>Text\<close>, \<open>Regex\<close>: what the source uses of Python. Strings are lists of code points,
    bytes are lists of characters; slices, \<^verbatim>\<open>find\<close>, \<^verbatim>\<open>split\<close>, \<^verbatim>\<open>int\<close>, UTF-8, dictionaries with their
    order; a matcher for the regular expressions of the source and the languages of the patterns.
    \<open>Prelude\<close> also has the locales \<open>transition_system\<close> and \<open>inductive_invariant\<close>, which every
    component with concurrent steps interprets, and the type \<open>calling\<close> of code that calls other
    packages: the calls it has made, and its result or the exception that ended it.
  \<^item> \<open>Stomp_Parser\<close> (\<^verbatim>\<open>StompFrame\<close>, \<^verbatim>\<open>StompParser\<close>), \<open>Stomp_Loop\<close> (\<^verbatim>\<open>add_bytes\<close> returns, except on
    inputs that make the program itself loop forever), \<open>Stomp_Stream\<close> (what was printed is parsed,
    however the network cuts it).
  \<^item> \<open>Common\<close>: messages, \<^verbatim>\<open>asyncio.Queue\<close>, \<^verbatim>\<open>WatermarkQueue\<close>, \<^verbatim>\<open>terminate_queue\<close>, certificates; the
    locale \<open>fifo_queue\<close>; flow control pauses and resumes the transport and never stops it for good.
    Every pair of watermarks that the constructor takes is covered, equal ones too.
  \<^item> \<open>Aio_Base\<close>, \<open>Aio_Server\<close>, \<open>Aio_Client\<close>: the protocol classes, each as a record that extends the one
    of the base class, one definition per method, and a step relation for the callbacks of the
    event loop and the coroutines. What a protocol writes is in order and justified by what it has
    read; the locale \<open>frame_reader\<close> is what a handler of frames promises about the stream it reads.
    \<open>Aio_Session\<close>: complete sessions of a client and a server, chunk by chunk. \<open>Aio_Queues\<close>: what a
    step of a protocol does to the two queues. \<open>Wire\<close>: what a protocol has made of the bytes it
    received so far, however the connection went on or ended (locale \<open>stream_handler\<close>).
  \<^item> \<open>Subnet\<close> and \<open>Node_Data\<close> (the classes of \<^verbatim>\<open>peer_data.py\<close>), \<open>Md5\<close> (the digest used for routing
    keys), \<open>Smp_Schemas\<close> (the Marshmallow schemas), \<open>Process_Messages\<close> (the rewriting of identifiers
    and the checks).
  \<^item> \<open>Peer_Files\<close> (the files of the database and their parsers), \<open>Peer_Data\<close> (the database, and the
    coroutines that read its directory, which wait before every file), \<open>Peers_Cache\<close>: whatever calls
    interleave at these waits, and however the files change meanwhile, what a call returns fits data that
    was read of the node itself, and is no older than the cache allows.
  \<^item> \<open>Rmq_Channel\<close>, \<open>Rmq_Publisher\<close>, \<open>Rmq_Consumer\<close>: the channels and the tasks of \<^verbatim>\<open>rmq.py\<close>, cut at
    every \<^verbatim>\<open>await\<close>, with logs of what the broker has seen: receipts only for confirmed messages, in
    order; acknowledgements only for receipts.
  \<^item> \<open>Composition\<close>: two transition systems that share state, each being part of the environment that
    the other one was verified against (locale \<open>composition\<close>). \<open>Server_Connection\<close> and
    \<open>Client_Connection\<close> interpret it on a protocol and its task on the same two queues.
  \<^item> \<open>Server\<close>, \<open>Client\<close>: the processes, with all their connections; \<open>Startup\<close>: \<^verbatim>\<open>serve\<close> and \<^verbatim>\<open>connect\<close> as
    the calls they make before that, and the TLS contexts they make them with; \<open>Configure_Queue\<close>,
    \<open>Loggers\<close>, \<open>Commands\<close>: the third command, the set-up of logging, and the command lines. Any of these calls
    may raise; the theorems say what was done by then.
  \<^item> \<open>Gateway\<close>: a client process, a server process and the network between them.
  \<^item> This theory: the properties that span the components, up to the one from broker to broker.

  \<^bold>\<open>Conventions.\<close> An exception is a value (\<open>Inl\<close> of a sum, or the first component of a result); a
  handler that raises keeps what it has changed before. A coroutine is cut where it waits, and one
  step runs it from one wait to the next; every interleaving of such steps is a run. Timeouts and
  the clock are arguments of the steps.

  \<^bold>\<open>Loops and bounds.\<close> There is no fuel: every loop is a function with a termination proof, except
  the one of \<^verbatim>\<open>add_bytes\<close>, which is a partial function because the program may not return from it;
  that it returns, and on which inputs it does not, are theorems. Integers of Python are
  mathematical; where the code relies on 64 bits (identifiers, subnets, digests) the range is a
  hypothesis or a conclusion. The frames of the end-to-end theorem are assumed to fit the limits of
  the parser (\<open>wf_frame\<close>): a frame that does not is refused by the other side.

  \<^bold>\<open>Parameters.\<close> Code outside the repository is an argument: \<^verbatim>\<open>json\<close> and Marshmallow's
  \<^verbatim>\<open>loads\<close> and \<^verbatim>\<open>dumps\<close> of a schema, the files of the database, \<^verbatim>\<open>tomli\<close>, the broker, the calls of
  \<^verbatim>\<open>ssl\<close> and of the event loop, the peer's certificate, random choices, the values that \<^verbatim>\<open>click\<close> passes
  on, and the rendering of a number of seconds.

  \<^bold>\<open>Not modelled.\<close> The log messages themselves and \<^verbatim>\<open>_excepthook\<close>, which nothing depends on; the
  abstract methods, which have no body; how the settings that are floating-point numbers are read, and
  rounding in the arithmetic on them (infinite values and NaN are in the model); that an acknowledgement
  covers earlier deliveries (the log has the tags that were named); a publisher that is cancelled once more while
  its \<^verbatim>\<open>finally\<close> block waits; the inside of TLS, of RabbitMQ and of \<^verbatim>\<open>click\<close>; the tests, the containers and the
  workflows of the repository.
\<close>

declare lit_simps [simp del]

section \<open>From the client of the server process to the broker\<close>

text \<open>
  What the broker is to get for a message of a peer: a persistent and mandatory message of the same
  type; the identifiers are in the subnets of the peer, the creditor's is translated to the node's
  own subnet if the node is a creditors agent, and headers and routing key are those of the result.
\<close>

definition valid_published :: "node_data \<Rightarrow> peer_data \<Rightarrow> message \<Rightarrow> broker_message \<Rightarrow> bool" where
  "valid_published owner peer m bm \<longleftrightarrow>
     bm_type bm = m_type m \<and> bm_persistent bm \<and> bm_mandatory bm \<and>
     (\<exists>c b c'. subnet_match (pd_creditors_subnet peer) c \<and> subnet_match (pd_debtors_subnet peer) b \<and>
        (if nd_node_type owner = CA
         then change_subnet c (pd_creditors_subnet peer) (nd_creditors_subnet owner) = Inr c' else c' = c) \<and>
        map_of (bm_headers bm) (lit ''creditor-id'') = Some (HInt c') \<and>
        map_of (bm_headers bm) (lit ''debtor-id'') = Some (HInt b) \<and>
        routing_key (nd_node_type owner) b c' = Inr (bm_routing_key bm))"

lemma preprocess_valid:
  assumes "preprocess_message loads dumps owner peer m = Inr r"
  shows "valid_published owner peer m (broker_message_of r)"
  using assms by (rule preprocess_ids) (auto simp: valid_published_def broker_message_of_def)

text \<open>The broker has confirmed a valid message for the message with this identifier, and for every earlier one.\<close>

definition valid_confirmed :: "node_data \<Rightarrow> peer_data \<Rightarrow> pub_sys \<Rightarrow> str \<Rightarrow> bool" where
  "valid_confirmed owner peer z r \<longleftrightarrow>
     (\<exists>k<length (pl_taken z). r = m_id (pl_taken z ! k) \<and>
        (\<forall>i\<le>k. i \<in> set (pl_confirmed z) \<and>
           (\<exists>bm. (i, bm) \<in> set (pl_published z) \<and> valid_published owner peer (pl_taken z ! i) bm)))"

lemma confirmed_valid:
  "confirmed_id (preprocess_message loads dumps owner peer) z r \<Longrightarrow> valid_confirmed owner peer z r"
  unfolding confirmed_id_def valid_confirmed_def using preprocess_valid [of loads dumps owner peer] by blast

lemma example_receipt_bytes: "frame_bytes (receipt_frame (lit ''1'')) = Inr (wire (receipt_frame (lit ''1'')))"
  by (rule frame_bytes_wire) (simp add: receipt_frame_def Aio_Server.example_wf)

lemma example_message_served:
  "\<exists>v c z. reaches service_start (service_step fmt (preprocess_message example_loads example_dumps) AA 4 1) v \<and>
     c \<in> set (sv_connections v) \<and> cn_task c = Publishing_for (example_node AA) (example_peer CA) z \<and>
     pl_taken z = [Process_Messages.example_message] \<and>
     out_of (y_server (cn_server c)) = [wire example_welcome, wire (receipt_frame (lit ''1''))] \<and>
     y_received (cn_server c) = example_input"
proof -
  let ?pre = "preprocess_message example_loads example_dumps" and ?m = "Process_Messages.example_message"
  obtain y where y: "reaches service_start (service_step fmt ?pre AA 4 1) (admitted_service (example_node AA) (example_peer CA) y)"
    "writer_ready WaitStart (y_server y)" "pr_send_queue (y_server y) = aq_new 4"
    "aq_items (pr_recv_queue (y_server y)) = [Some ?m]" "aq_unfinished (pr_recv_queue (y_server y)) = 1"
    "out_of (y_server y) = [wire example_welcome]" "y_received y = example_input"
    using admitted_reached unfolding example_served_def by blast
  obtain r where r: "?pre (example_node AA) (example_peer CA) ?m = Inr r" using example_preprocess by blast
  have b: "frame_bytes (receipt_frame (m_id ?m)) = Inr (wire (receipt_frame (lit ''1'')))"
    by (simp add: example_receipt_bytes Process_Messages.example_message_def)
  obtain y' z' where run: "(conn_step fmt (?pre (example_node AA) (example_peer CA)))\<^sup>*\<^sup>*
      (y, pub_sys_new (aq_new 4) (pr_recv_queue (y_server y))) (y', z')"
    "pl_taken z' = [?m]" "out_of (y_server y') = [wire example_welcome, wire (receipt_frame (lit ''1''))]"
    "y_received y' = example_input" unfolding y(7) [symmetric]
    using receipt_run [where preprocess = "?pre (example_node AA) (example_peer CA)" and fmt = fmt, OF r y(4,5,2,3) b] y(6) by auto
  have start: "reaches service_start (service_step fmt ?pre AA 4 1) \<lparr>sv_counters = [pd_node_id (example_peer CA) \<mapsto> 1],
      sv_connections = [\<lparr>cn_server = fst (y, pub_sys_new (aq_new 4) (pr_recv_queue (y_server y))),
        cn_task = Publishing_for (example_node AA) (example_peer CA) (snd (y, pub_sys_new (aq_new 4) (pr_recv_queue (y_server y))))\<rparr>]\<rparr>"
    using y(1) by (simp add: admitted_service_def y(3))
  from service_works [where preprocess = ?pre, OF run(1) start] run(2-4) show ?thesis by (fastforce simp: run(2))
qed

text \<open>
  C3: Across the server process, from the peer to the broker and back: when a RECEIPT frame has been
  written to a connection, the broker has confirmed a valid message for the message with that
  identifier and for every earlier one of the connection: persistent, of the same type, with
  identifiers in the subnets of the peer of that very connection, and with the headers and the
  routing key of these identifiers. The only other receipt is the answer to DISCONNECT: then the
  same holds of the last message that was received, and no message received was left unpublished,
  if the peer has not used the same identifier twice.
\<close>

theorem server_receipts_valid:
  assumes "reaches service_start (service_step fmt (preprocess_message loads dumps) node_type queue_size max_connections) v"
    and "c \<in> set (sv_connections v)" and "cn_task c = Publishing_for owner peer z \<or> cn_task c = Gone owner peer z"
    and "b \<in> set (out_of (y_server (cn_server c)))" and "frame_bytes (receipt_frame r) = Inr b"
  shows "valid_confirmed owner peer z r \<or>
    s_disconnect_receipt_id (y_server (cn_server c)) = Some r \<and>
    (received_messages (cn_server c) = [] \<or> valid_confirmed owner peer z (m_id (last (received_messages (cn_server c))))) \<and>
    (distinct (map m_id (received_messages (cn_server c))) \<longrightarrow> pl_taken z = received_messages (cn_server c))"
proof -
  have "connection_ok (preprocess_message loads dumps) c"
    using service_run.reaches_inv [OF assms(1)] assms(2) by (simp add: service_inv_def)
  then have "receipt_due (preprocess_message loads dumps owner peer) (cn_server c) z r"
    using assms(3-5) by (intro conn_receipt_due) (auto simp: connection_ok_def)
  then show ?thesis unfolding receipt_due_def using confirmed_valid [of loads dumps owner peer z] by blast
qed

theorem server_receipts_valid_witness:
  "\<exists>v c z. reaches service_start (service_step (\<lambda>_. []) (preprocess_message example_loads example_dumps) AA 4 1) v \<and>
     c \<in> set (sv_connections v) \<and> cn_task c = Publishing_for (example_node AA) (example_peer CA) z \<and>
     wire (receipt_frame (lit ''1'')) \<in> set (out_of (y_server (cn_server c))) \<and>
     (valid_confirmed (example_node AA) (example_peer CA) z (lit ''1'') \<or>
      s_disconnect_receipt_id (y_server (cn_server c)) = Some (lit ''1''))"
proof -
  obtain v c z where v: "reaches service_start (service_step (\<lambda>_. []) (preprocess_message example_loads example_dumps) AA 4 1) v"
    "c \<in> set (sv_connections v)" "cn_task c = Publishing_for (example_node AA) (example_peer CA) z"
    "wire (receipt_frame (lit ''1'')) \<in> set (out_of (y_server (cn_server c)))"
    using example_message_served [of "\<lambda>_. []"] by fastforce
  from server_receipts_valid [OF v(1,2) disjI1 [OF v(3)] v(4) example_receipt_bytes] v show ?thesis by blast
qed

section \<open>From the broker to the server of the client process\<close>

text \<open>
  What a peer is to get for a message of the broker: the identifier is the delivery tag, and the
  body is the text, under the schema of the type, of data with identifiers in the peer's subnets.
\<close>

definition valid_passed :: "dumps_fun \<Rightarrow> peer_data \<Rightarrow> incoming \<Rightarrow> message \<Rightarrow> bool" where
  "valid_passed dumps peer d m \<longleftrightarrow>
     (\<exists>tag. im_delivery_tag d = Some tag \<and> m_id m = dec_of_int tag) \<and> im_type d = Some (m_type m) \<and>
     (\<exists>sc data c b. map_of JSON_SCHEMAS (m_type m) = Some sc \<and> bindE (dumps sc data) utf8_encode = Inr (m_body m) \<and>
        map_of data (lit ''creditor_id'') = Some (VInt c) \<and> subnet_match (pd_creditors_subnet peer) c \<and>
        map_of data (lit ''debtor_id'') = Some (VInt b) \<and> subnet_match (pd_debtors_subnet peer) b)"

lemma transform_valid:
  assumes "received_message (transform_message loads dumps owner peer) d = Inr m"
  shows "valid_passed dumps peer d m"
proof -
  obtain r tag where r: "transform_message loads dumps owner peer r = Inr m" "rm_id r = dec_of_int tag"
    "im_delivery_tag d = Some tag" "im_type d = Some (rm_type r)"
    using assms by (auto simp: received_message_def split: option.splits sum.splits)
  from r(1) show ?thesis by (rule transform_ids) (use r in \<open>auto simp: valid_passed_def\<close>)
qed

text \<open>
  C6: Across the client process, from the broker to the peer: whatever the broker delivers and the
  server sends, the connection carries, heartbeats aside, a STOMP frame, then SEND frames, then at
  most one DISCONNECT. Nothing is sent to a server unless its certificate carries the identifier of
  the peer; and then the messages sent are the first messages that the broker delivered, in their
  order, each in a form that is valid for that peer.
\<close>

theorem client_passes_valid:
  assumes "reaches (connection_start peer n) (connection_step fmt (transform_message loads dumps owner peer) peer cert) c"
  shows "\<exists>cs ms ds.
    list_all2 prints (cs @ map (send_frame_of (c_send_destination (z_client (cc_client c)))) ms @ ds)
      (filter (\<lambda>b. b \<noteq> [NL]) (out_of (z_client (cc_client c)))) \<and>
    (cs = [] \<or> cs = [connect_frame (z_client (cc_client c))]) \<and>
    (ds = [] \<or> ms \<noteq> [] \<and> ds = [disconnect_frame (m_id (last ms))]) \<and>
    (ms \<noteq> [] \<longrightarrow> get_peer_serial_number cert = Some (pd_node_id peer) \<and>
      (\<exists>k. cc_task c = Consuming k \<and> length ms \<le> length (kl_delivered k) \<and>
        (\<forall>i<length ms. valid_passed dumps peer (kl_delivered k ! i) (ms ! i))))"
proof -
  let ?transform = "transform_message loads dumps owner peer" and ?z = "cc_client c"
  have ok: "client_connection_ok ?transform peer cert c" using assms by (rule connection_run.reaches_inv)
  then obtain cs ms ds where log: "log_ok (z_sent ?z) (z_client ?z) cs ms ds"
    by (auto simp: client_connection_ok_def client_ok_def client_inv_def)
  then obtain skipped where skipped: "z_sent ?z = ms @ skipped" unfolding log_ok_def by blast
  have "get_peer_serial_number cert = Some (pd_node_id peer) \<and>
      (\<exists>k. cc_task c = Consuming k \<and> length ms \<le> length (kl_delivered k) \<and>
        (\<forall>i<length ms. valid_passed dumps peer (kl_delivered k ! i) (ms ! i)))" if ne: "ms \<noteq> []"
  proof -
    obtain k where k: "cc_task c = Consuming k"
      using ok ne skipped by (cases "cc_task c") (auto simp: client_connection_ok_def)
    then have inv: "con_inv ?transform k" "client_link ?z k" "get_peer_serial_number cert = Some (pd_node_id peer)"
      using ok by (auto simp: client_connection_ok_def)
    obtain rest where put: "kl_put k = ms @ rest" using sent_prefix [OF inv(1,2)] skipped by auto
    have msgs: "con_msgs ?transform k" using inv(1) by (simp add: con_inv_def)
    have "valid_passed dumps peer (kl_delivered k ! i) (ms ! i)" if "i < length ms" for i
      using transform_valid [OF con_msgs_nth [OF msgs, of i]] that put by (simp add: nth_append)
    moreover have "length ms \<le> length (kl_delivered k)" using msgs put by (simp add: con_msgs_def)
    ultimately show ?thesis using k inv(3) by blast
  qed
  with log show ?thesis unfolding log_ok_def frames_out_def
    by (intro exI [of _ cs] exI [of _ ms] exI [of _ ds]) blast
qed

text \<open>A client connection of a debtors agent: the broker delivers one message, which is passed on.\<close>

definition example_delivery :: incoming where
  "example_delivery = \<lparr>im_type = Some (lit ''PrepareTransfer''), im_content_type = Some (lit ''application/json''),
     im_delivery_tag = Some 1, im_body = ''{}'', im_headers = []\<rparr>"

lemma example_delivery_message:
  "received_message transform example_delivery =
    (case transform example_rmq of Inl e \<Rightarrow> Inl (ConProcError e) | Inr m \<Rightarrow> Inr m)"
proof -
  have "dec_of_int 1 = lit ''1''" by code_simp
  then show ?thesis by (simp add: received_message_def example_delivery_def example_rmq_def)
qed

definition gateway_peer :: peer_data where
  "gateway_peer = (example_peer AA)\<lparr>pd_stomp_config :=
     (pd_stomp_config (example_peer AA))\<lparr>sc_destination := lit ''/exchange/accounts_in''\<rparr>\<rparr>"

abbreviation example_pass :: "rmq_message \<Rightarrow> proc_error + message" where
  "example_pass \<equiv> transform_message example_loads example_dumps (example_node DA) gateway_peer"

lemma example_transform_message: "example_pass example_rmq = Inr Process_Messages.example_message"
  by (simp add: transform_message_def gateway_peer_def Process_Messages.example_eval Process_Messages.example_message_def)
    (simp add: lit_simps scalar_def surrogate_def utf8_char_ascii char_of_def bit_0)

text \<open>What the client writes is what the server of the example above reads, and the other way round.\<close>

lemma example_sent_eq:
  "send_frame_of (lit ''/exchange/accounts_in'') Process_Messages.example_message = example_sent"
  "sc_destination (pd_stomp_config gateway_peer) = lit ''/exchange/accounts_in''"
  by (simp_all add: send_frame_of_def gateway_peer_def Process_Messages.example_message_def example_sent_def)

lemma example_message_passed:
  "\<exists>c k. reaches (connection_start gateway_peer 4) (connection_step fmt example_pass gateway_peer example_subject) c \<and>
     cc_task c = Consuming k \<and> kl_delivered k = [example_delivery] \<and> kl_acks k = [1] \<and>
     client_ready WaitStart example_hello [wire example_hello, wire example_sent]
       (wire example_welcome @ wire (receipt_frame (lit ''1''))) (cc_client c) \<and>
     c_send_destination (z_client (cc_client c)) = lit ''/exchange/accounts_in'' \<and>
     z_sent (cc_client c) = [Process_Messages.example_message]"
proof -
  let ?m = "Process_Messages.example_message"
  obtain p where p: "create_client_protocol gateway_peer 4 = Inr p" and hello: "connect_frame p = example_hello"
    by (auto simp: create_client_protocol_def wq_new_def client_init_def proto_init_def proto.defs client.defs Let_def
        DEFAULT_HB_SEND_MIN_def DEFAULT_HB_RECV_DESIRED_def connect_frame_def example_hello_def gateway_peer_def example_peer_def)
  have sn: "get_peer_serial_number example_subject = Some (pd_node_id gateway_peer)"
    by (simp add: get_peer_serial_number_def example_subject_def gateway_peer_def example_peer_def ORGANIZATION_NAME_def
        SERIAL_NUMBER_def lit_simps)
  have rcv: "received_message example_pass example_delivery = Inr ?m"
    by (simp add: example_delivery_message example_transform_message)
  have id: "m_id ?m = lit ''1''" by (simp add: Process_Messages.example_message_def)
  have one: "py_int 10 (lit ''1'') = Some 1" by code_simp
  have "wf_frame (receipt_frame (lit ''1''))" by (simp add: receipt_frame_def Aio_Server.example_wf)
  moreover have "connected_ok (parsed example_welcome)"
    using parse_heartbeat_header_inverse [of DEFAULT_HB_SEND_MIN DEFAULT_HB_RECV_DESIRED]
    by (simp add: connected_ok_def example_welcome_def connected_frame_def parsed_def wire_headers_def dict_get_def
        DEFAULT_HB_SEND_MIN_def DEFAULT_HB_RECV_DESIRED_def)
  ultimately show ?thesis
    using client_delivery_reached [where transform = example_pass and fmt = fmt and f = example_welcome, OF p sn rcv]
      served_frames_wf one by (simp add: id hello example_sent_eq) blast
qed

theorem client_passes_valid_witness:
  "\<exists>c k. reaches (connection_start gateway_peer 4) (connection_step (\<lambda>_. []) example_pass gateway_peer example_subject) c \<and>
     out_of (z_client (cc_client c)) = [wire example_hello, wire example_sent] \<and>
     cc_task c = Consuming k \<and> kl_delivered k = [example_delivery] \<and>
     (\<exists>cs ms ds. list_all2 prints (cs @ map (send_frame_of (c_send_destination (z_client (cc_client c)))) ms @ ds)
        (filter (\<lambda>b. b \<noteq> [NL]) (out_of (z_client (cc_client c)))) \<and>
        (ms \<noteq> [] \<longrightarrow> (\<forall>i<length ms. valid_passed example_dumps gateway_peer ([example_delivery] ! i) (ms ! i))))"
proof -
  obtain c k where c: "reaches (connection_start gateway_peer 4) (connection_step (\<lambda>_. []) example_pass gateway_peer example_subject) c"
    "cc_task c = Consuming k" "out_of (z_client (cc_client c)) = [wire example_hello, wire example_sent]"
    "kl_delivered k = [example_delivery]"
    using example_message_passed [of "\<lambda>_. []"] unfolding client_ready_def by blast
  from client_passes_valid [OF c(1)] obtain cs ms ds where
    w: "list_all2 prints (cs @ map (send_frame_of (c_send_destination (z_client (cc_client c)))) ms @ ds)
        (filter (\<lambda>b. b \<noteq> [NL]) (out_of (z_client (cc_client c))))"
      "ms \<noteq> [] \<longrightarrow> (\<exists>k. cc_task c = Consuming k \<and> (\<forall>i<length ms. valid_passed example_dumps gateway_peer (kl_delivered k ! i) (ms ! i)))"
    by metis
  from w(2) have "ms \<noteq> [] \<longrightarrow> (\<forall>i<length ms. valid_passed example_dumps gateway_peer ([example_delivery] ! i) (ms ! i))"
    unfolding c(2) by (simp add: c(4))
  with w(1) c show ?thesis by blast
qed

section \<open>From one broker to the other one\<close>

text \<open>
  C1: From one broker to the other, across both processes and the network. The client process of one
  node and a connection of the server process of another one have each run in any way, and the
  network has delivered to each side some beginning of the bytes that the other side has written, cut
  anywhere. Then the delivery tag of a message has been acknowledged to the broker of the client only
  if that message, and every message that was delivered before it, has gone through: in their order
  and in the form that is valid for the peer, they are what the publisher on the other side took, and
  for each of them the broker of the server has confirmed a message that is valid for the peer of
  that connection. So no message is lost between the two brokers, however the connection ends. The
  frames of both sides are assumed to fit the limits of the parser.
\<close>

theorem gateway_acks_confirmed:
  assumes client: "reaches (connection_start peer n) (connection_step fmt (transform_message loads dumps owner peer) peer cert) c"
      "cc_task c = Consuming k"
    and server: "reaches service_start (service_step fmt' (preprocess_message loads' dumps') node_type queue_size max_connections) v"
      "cn \<in> set (sv_connections v)"
    and "network (cc_client c) (cn_server cn)" and "client_fits (cc_client c)" and "server_fits (cn_server cn)"
    and "t \<in> set (kl_acks k)"
  shows "\<exists>owner' peer' w n. (cn_task cn = Publishing_for owner' peer' w \<or> cn_task cn = Gone owner' peer' w) \<and>
    n < length (kl_delivered k) \<and> im_delivery_tag (kl_delivered k ! n) = Some t \<and>
    (\<forall>i\<le>n. received_message (transform_message loads dumps owner peer) (kl_delivered k ! i) = Inr (pl_taken w ! i) \<and>
       valid_passed dumps peer (kl_delivered k ! i) (pl_taken w ! i) \<and> i \<in> set (pl_confirmed w) \<and>
       (\<exists>bm. (i, bm) \<in> set (pl_published w) \<and> valid_published owner' peer' (pl_taken w ! i) bm))"
proof -
  let ?transform = "transform_message loads dumps owner peer" and ?pre = "preprocess_message loads' dumps'"
  have "client_connection_ok ?transform peer cert c" using client(1) by (rule connection_run.reaches_inv)
  then have z: "client_inv (z_taken (cc_client c)) (z_sent (cc_client c)) (z_client (cc_client c))" "con_inv ?transform k"
    "client_link (cc_client c) k" using client(2) by (simp_all add: client_connection_ok_def client_ok_def)
  have y: "connection_ok ?pre cn" using service_run.reaches_inv [OF server(1)] server(2) by (simp add: service_inv_def)
  have id: "m_id m = rm_id r" if "?transform r = Inr m" for r m using that by (rule transform_message_id)
  obtain owner' peer' w where w: "cn_task cn = Publishing_for owner' peer' w \<or> cn_task cn = Gone owner' peer' w"
    "got_through ?transform (?pre owner' peer') k w t"
    using acked_got_through [OF connection_client_reached [OF client(1)] z assms(6) service_server_reached [OF server] y assms(7,5)
        id assms(8)] by blast
  from w(2) obtain n where n: "n < length (kl_delivered k)" "im_delivery_tag (kl_delivered k ! n) = Some t"
    "\<forall>i\<le>n. received_message ?transform (kl_delivered k ! i) = Inr (pl_taken w ! i) \<and> i \<in> set (pl_confirmed w) \<and>
       (\<exists>r. ?pre owner' peer' (pl_taken w ! i) = Inr r \<and> (i, broker_message_of r) \<in> set (pl_published w))"
    unfolding got_through_def by blast
  have "valid_passed dumps peer (kl_delivered k ! i) (pl_taken w ! i)" if "i \<le> n" for i
    using n(3) that by (blast intro: transform_valid)
  moreover have "\<exists>bm. (i, bm) \<in> set (pl_published w) \<and> valid_published owner' peer' (pl_taken w ! i) bm" if "i \<le> n" for i
    using n(3) that by (blast intro: preprocess_valid)
  ultimately show ?thesis using w(1) n by blast
qed

lemma example_fits:
  assumes "client_ready w example_hello out received z" and "c_send_destination (z_client z) = lit ''/exchange/accounts_in''"
    and "z_sent z = [Process_Messages.example_message]"
  shows "client_fits z"
proof -
  have "wf_frame (disconnect_frame (lit ''1''))" by (simp add: disconnect_frame_def Aio_Server.example_wf)
  then show ?thesis
    using assms served_frames_wf by (simp add: client_fits_def client_ready_def example_sent_eq) (simp add: Process_Messages.example_message_def)
qed

theorem gateway_acks_confirmed_witness:
  "\<exists>c k v cn w. reaches (connection_start gateway_peer 4) (connection_step (\<lambda>_. []) example_pass gateway_peer example_subject) c \<and>
     cc_task c = Consuming k \<and> kl_delivered k = [example_delivery] \<and> kl_acks k = [1] \<and>
     reaches service_start (service_step (\<lambda>_. []) (preprocess_message example_loads example_dumps) AA 4 1) v \<and>
     cn \<in> set (sv_connections v) \<and> cn_task cn = Publishing_for (example_node AA) (example_peer CA) w \<and>
     network (cc_client c) (cn_server cn) \<and>
     0 \<in> set (pl_confirmed w) \<and> valid_passed example_dumps gateway_peer example_delivery (pl_taken w ! 0) \<and>
     (\<exists>bm. (0, bm) \<in> set (pl_published w) \<and> valid_published (example_node AA) (example_peer CA) (pl_taken w ! 0) bm)"
proof -
  obtain c k where c: "reaches (connection_start gateway_peer 4) (connection_step (\<lambda>_. []) example_pass gateway_peer example_subject) c"
    "cc_task c = Consuming k" "kl_delivered k = [example_delivery]" "kl_acks k = [1]"
    "client_ready WaitStart example_hello [wire example_hello, wire example_sent]
      (wire example_welcome @ wire (receipt_frame (lit ''1''))) (cc_client c)"
    "c_send_destination (z_client (cc_client c)) = lit ''/exchange/accounts_in''"
    "z_sent (cc_client c) = [Process_Messages.example_message]"
    using example_message_passed [of "\<lambda>_. []"] by blast
  obtain v cn z where v: "reaches service_start (service_step (\<lambda>_. []) (preprocess_message example_loads example_dumps) AA 4 1) v"
    "cn \<in> set (sv_connections v)" "cn_task cn = Publishing_for (example_node AA) (example_peer CA) z"
    "out_of (y_server (cn_server cn)) = [wire example_welcome, wire (receipt_frame (lit ''1''))]" "y_received (cn_server cn) = example_input"
    using example_message_served [of "\<lambda>_. []"] by blast
  have net: "network (cc_client c) (cn_server cn)"
    using c(5) v(4,5) by (simp add: network_def client_ready_def example_input_def)
  have "wf_frame (receipt_frame (lit ''1''))" by (simp add: receipt_frame_def Aio_Server.example_wf)
  then have fits: "server_fits (cn_server cn)"
    using v(4) frame_bytes_wire served_frames_wf(3) unfolding server_fits_def server_frame_kind_def
    by (auto simp: example_welcome_def) blast+
  have "(1::int) \<in> set (kl_acks k)" using c(4) by simp
  from gateway_acks_confirmed [OF c(1,2) v(1,2) net example_fits [OF c(5-7)] fits this] c(3) v(3)
  show ?thesis using c v(1-3) net by (intro exI [of _ c] exI [of _ k] exI [of _ v] exI [of _ cn] exI [of _ z]) fastforce
qed

end
